(* ===== verification/Prelude.thy ===== *)
theory Prelude
  imports Main "HOL-Library.Word" "HOL-Library.Char_ord"
begin

unbundle bit_operations_syntax

text \<open>
  The vocabulary the components of the SerialKit compiler share: the C++ standard exceptions
  they throw, results that may be an exception, the character classes of \<^verbatim>\<open><cctype>\<close> in the
  C locale, \<^verbatim>\<open>std::stoi\<close>, decimal output of an \<^verbatim>\<open>ostream\<close>, and the generic lemmas on
  lists, strings and results that carry the component proofs.
\<close>

section \<open>Collections\<close>

named_theorems progress \<open>how much input an operation consumes\<close>
named_theorems refines \<open>an operation against its abstract counterpart\<close>
named_theorems frame \<open>what an operation leaves unchanged\<close>

section \<open>Exceptions and results\<close>

text \<open>
  A function that may throw returns \<open>'e + 'a\<close>: \<open>Inl\<close> is the exception that leaves the
  function, \<open>Inr\<close> its normal result.
\<close>

datatype std_exn =
    Invalid_argument string
  | Out_of_range string
  | Runtime_error string

type_synonym 'a may_throw = "std_exn + 'a"

fun what :: "std_exn \<Rightarrow> string" where
  "what (Invalid_argument m) = m"
| "what (Out_of_range m) = m"
| "what (Runtime_error m) = m"

definition bindR :: "'e + 'a \<Rightarrow> ('a \<Rightarrow> 'e + 'b) \<Rightarrow> 'e + 'b" where
  "bindR m f = (case m of Inl e \<Rightarrow> Inl e | Inr x \<Rightarrow> f x)"

lemma bindR_Inl [simp]: "bindR (Inl e) f = Inl e"
  by (simp add: bindR_def)

lemma bindR_Inr [simp]: "bindR (Inr x) f = f x"
  by (simp add: bindR_def)

lemma bindR_eq_Inr: "bindR m f = Inr y \<longleftrightarrow> (\<exists>x. m = Inr x \<and> f x = Inr y)"
  by (cases m) auto

lemma bindR_eq_Inl: "bindR m f = Inl e \<longleftrightarrow> m = Inl e \<or> (\<exists>x. m = Inr x \<and> f x = Inl e)"
  by (cases m) auto

lemma bindR_cong [fundef_cong]:
  "m = m' \<Longrightarrow> (\<And>x. m' = Inr x \<Longrightarrow> f x = g x) \<Longrightarrow> bindR m f = bindR m' g"
  by (cases m') auto

section \<open>State-passing computations that may throw\<close>

text \<open>
  \<open>('e, 's, 'a) op\<close> is an operation on an object of type \<open>'s\<close> that returns an \<open>'a\<close> or
  throws an \<open>'e\<close>; \<open>bindS\<close> is the semicolon.
\<close>

type_synonym ('e, 's, 'a) op = "'s \<Rightarrow> 'e + 'a \<times> 's"

definition retS :: "'a \<Rightarrow> ('e, 's, 'a) op" where
  "retS x s = Inr (x, s)"

definition bindS :: "('e, 's, 'a) op \<Rightarrow> ('a \<Rightarrow> ('e, 's, 'b) op) \<Rightarrow> ('e, 's, 'b) op" where
  "bindS m f s = (case m s of Inl e \<Rightarrow> Inl e | Inr (x, s') \<Rightarrow> f x s')"

lemma retS_eq_Inr [simp]: "retS x s = Inr (y, s') \<longleftrightarrow> y = x \<and> s' = s"
  by (auto simp: retS_def)

lemma bindS_eq_Inr:
  "bindS m f s = Inr (y, s') \<longleftrightarrow> (\<exists>x s1. m s = Inr (x, s1) \<and> f x s1 = Inr (y, s'))"
  by (auto simp: bindS_def split: sum.splits)

lemma bindS_Inr: "m s = Inr (x, s1) \<Longrightarrow> bindS m f s = f x s1"
  by (simp add: bindS_def)

lemma bindS_Inl: "m s = Inl e \<Longrightarrow> bindS m f s = Inl e"
  by (simp add: bindS_def)

lemma bindS_eq_Inl:
  "bindS m f s = Inl e \<longleftrightarrow> m s = Inl e \<or> (\<exists>x s1. m s = Inr (x, s1) \<and> f x s1 = Inl e)"
  by (auto simp: bindS_def split: sum.splits)

section \<open>Characters\<close>

abbreviation nl_char :: char where
  "nl_char \<equiv> CHR 0x0A"

text \<open>A string of one single quote and one of one newline, for messages and generated text.\<close>

abbreviation sq :: string where
  "sq \<equiv> [CHR 0x27]"

abbreviation nl :: string where
  "nl \<equiv> [CHR 0x0A]"

abbreviation nul_char :: char where
  "nul_char \<equiv> CHR 0x00"

text \<open>
  \<^verbatim>\<open>isspace\<close>, \<^verbatim>\<open>isdigit\<close>, \<^verbatim>\<open>isalpha\<close> and \<^verbatim>\<open>isalnum\<close> of \<^verbatim>\<open><cctype>\<close> in the C locale, over the
  value of the character as an unsigned byte. Bytes of 128 and above belong to no class.
\<close>

definition isspace :: "char \<Rightarrow> bool" where
  "isspace c = (let n = (of_char c :: nat) in n = 32 \<or> 9 \<le> n \<and> n \<le> 13)"

definition isdigit :: "char \<Rightarrow> bool" where
  "isdigit c = (let n = (of_char c :: nat) in 48 \<le> n \<and> n \<le> 57)"

definition isalpha :: "char \<Rightarrow> bool" where
  "isalpha c = (let n = (of_char c :: nat) in 65 \<le> n \<and> n \<le> 90 \<or> 97 \<le> n \<and> n \<le> 122)"

definition isalnum :: "char \<Rightarrow> bool" where
  "isalnum c = (isalpha c \<or> isdigit c)"

lemmas char_class_defs = isspace_def isdigit_def isalpha_def isalnum_def

lemma isspace_not_alnum: "isspace c \<Longrightarrow> \<not> isalnum c"
  by (auto simp: char_class_defs Let_def)

lemma isdigit_not_alpha: "isdigit c \<Longrightarrow> \<not> isalpha c"
  by (auto simp: char_class_defs Let_def)

section \<open>Decimal numbers\<close>

definition digit_value :: "char \<Rightarrow> nat" where
  "digit_value c = of_char c - 48"

definition digit_char :: "nat \<Rightarrow> char" where
  "digit_char d = char_of (48 + d)"

lemma digit_char_isdigit [simp]: "d < 10 \<Longrightarrow> isdigit (digit_char d)"
  by (simp add: digit_char_def isdigit_def Let_def)

lemma digit_value_char [simp]: "d < 10 \<Longrightarrow> digit_value (digit_char d) = d"
  by (simp add: digit_char_def digit_value_def)

text \<open>The value of a run of digits, most significant first.\<close>

fun digits_value :: "nat \<Rightarrow> string \<Rightarrow> nat" where
  "digits_value acc [] = acc"
| "digits_value acc (c # cs) = digits_value (10 * acc + digit_value c) cs"

text \<open>Decimal output of a non-negative and of a signed integer by an \<^verbatim>\<open>ostream\<close>.\<close>

fun show_nat :: "nat \<Rightarrow> string" where
  "show_nat n = (if n < 10 then [digit_char n] else show_nat (n div 10) @ [digit_char (n mod 10)])"

declare show_nat.simps [simp del]

definition show_int :: "int \<Rightarrow> string" where
  "show_int i = (if i < 0 then CHR ''-'' # show_nat (nat (- i)) else show_nat (nat i))"

lemma digits_value_append: "digits_value acc (xs @ ys) = digits_value (digits_value acc xs) ys"
  by (induction xs arbitrary: acc) auto

lemma show_nat_nonempty [simp]: "show_nat n \<noteq> []"
  by (subst show_nat.simps) simp

lemma show_nat_digits: "list_all isdigit (show_nat n)"
proof (induction n rule: show_nat.induct)
  case (1 n)
  then show ?case by (cases "n < 10") (auto simp: show_nat.simps [of n])
qed

lemma digits_value_show_nat: "digits_value 0 (show_nat n) = n"
proof (induction n rule: show_nat.induct)
  case (1 n)
  then show ?case by (cases "n < 10") (auto simp: show_nat.simps [of n] digits_value_append)
qed

section \<open>\<^verbatim>\<open>std::stoi\<close>\<close>

text \<open>
  \<^verbatim>\<open>std::stoi\<close> with base 10: leading white space, an optional sign and the longest run of
  digits; \<^verbatim>\<open>std::invalid_argument\<close> when there is no digit, \<^verbatim>\<open>std::out_of_range\<close> when the value
  does not fit an \<^verbatim>\<open>int\<close>, which has 32 bits.
\<close>

abbreviation INT_MAX :: int where
  "INT_MAX \<equiv> 2147483647"

abbreviation INT_MIN :: int where
  "INT_MIN \<equiv> - 2147483648"

definition in_int :: "int \<Rightarrow> bool" where
  "in_int v \<longleftrightarrow> INT_MIN \<le> v \<and> v \<le> INT_MAX"

definition stoi :: "string \<Rightarrow> int may_throw" where
  "stoi s =
     (let t = dropWhile isspace s;
          neg = (t \<noteq> [] \<and> hd t = CHR ''-'');
          u = (if t \<noteq> [] \<and> (hd t = CHR ''-'' \<or> hd t = CHR ''+'') then tl t else t);
          ds = takeWhile isdigit u;
          v = (if neg then - int (digits_value 0 ds) else int (digits_value 0 ds))
      in if ds = [] then Inl (Invalid_argument ''stoi'')
         else if in_int v then Inr v else Inl (Out_of_range ''stoi''))"

lemma stoi_range: "stoi s = Inr v \<Longrightarrow> in_int v"
  by (auto simp: stoi_def Let_def split: if_splits)

lemma takeWhile_all: "list_all P xs \<Longrightarrow> takeWhile P xs = xs"
  by (induction xs) auto

lemma dropWhile_hd_stop: "xs = [] \<or> \<not> P (hd xs) \<Longrightarrow> dropWhile P xs = xs"
  by (cases xs) auto

lemma isdigit_not_space: "isdigit c \<Longrightarrow> \<not> isspace c"
  by (auto simp: char_class_defs Let_def)

lemma isdigit_not_sign: "isdigit c \<Longrightarrow> c \<noteq> CHR ''-'' \<and> c \<noteq> CHR ''+''"
  by (auto simp: isdigit_def Let_def)

lemma show_nat_hd_digit: "isdigit (hd (show_nat n))"
  using show_nat_digits [of n] by (cases "show_nat n") auto

lemma stoi_show_int:
  assumes "in_int v"
  shows "stoi (show_int v) = Inr v"
proof (cases "v < 0")
  case True
  then have "show_int v = CHR ''-'' # show_nat (nat (- v))" by (simp add: show_int_def)
  moreover have "\<not> isspace CHR ''-''" by (simp add: isspace_def)
  ultimately show ?thesis
    using assms True by (simp add: stoi_def takeWhile_all show_nat_digits digits_value_show_nat)
next
  case False
  let ?s = "show_nat (nat v)"
  have "dropWhile isspace ?s = ?s"
    by (simp add: dropWhile_hd_stop isdigit_not_space show_nat_hd_digit)
  moreover have "hd ?s \<noteq> CHR ''-''" "hd ?s \<noteq> CHR ''+''"
    using isdigit_not_sign [OF show_nat_hd_digit] by auto
  ultimately show ?thesis
    using assms False
    by (simp add: stoi_def show_int_def takeWhile_all show_nat_digits digits_value_show_nat)
qed

section \<open>Lists\<close>

lemma drop_nth_Cons: "i < length xs \<Longrightarrow> drop i xs = xs ! i # drop (Suc i) xs"
  by (simp add: Cons_nth_drop_Suc)

lemma take_Suc_nth: "i < length xs \<Longrightarrow> take (Suc i) xs = take i xs @ [xs ! i]"
  by (simp add: take_Suc_conv_app_nth)

lemma take_append_le: "take (i + k) xs = take i xs @ take k (drop i xs)"
  by (simp add: take_add)

lemma length_takeWhile_le_length [simp]: "length (takeWhile P xs) \<le> length xs"
  by (simp add: length_takeWhile_le)

lemma take_length_takeWhile: "take (length (takeWhile p xs)) xs = takeWhile p xs"
  by (simp add: takeWhile_eq_take [symmetric])

section \<open>Words\<close>

lemma unat_ucast_eq: "unat (ucast w :: 'b::len word) = unat w mod 2 ^ LENGTH('b)"
  for w :: "'a::len word"
  by (simp add: unsigned_ucast_eq take_bit_eq_mod)

lemma unat_of_int_eq: "0 \<le> i \<Longrightarrow> unat (word_of_int i :: 'a::len word) = nat i mod 2 ^ LENGTH('a)"
  by (simp add: unsigned_of_int take_bit_eq_mod nat_mod_distrib nat_power_eq)

lemma unat_drop_bit: "unat (drop_bit k w) = unat w div 2 ^ k"
  for w :: "'a::len word"
  by (simp only: unat_drop_bit_eq drop_bit_eq_div [where 'a = nat])

lemma unat_and_mask: "unat (w AND mask k) = unat w mod 2 ^ k"
  for w :: "'a::len word"
  by (simp only: take_bit_eq_mask [symmetric] unsigned_take_bit_eq take_bit_eq_mod [where 'a = nat])

lemma word_bit_bound:
  fixes w :: "'a::len word"
  assumes "bit w i"
  shows "2 ^ i \<le> unat w"
proof -
  have "drop_bit i w \<noteq> 0" using assms by (auto simp: bit_iff_odd_drop_bit)
  then have "unat w div 2 ^ i \<noteq> 0" by (metis unat_drop_bit unat_eq_zero)
  then show ?thesis by (simp add: div_eq_0_iff not_less)
qed

lemma push_bit_or_eq_add:
  fixes a w :: "'a::len word"
  assumes "unat w < 2 ^ k"
  shows "push_bit k a OR w = push_bit k a + w"
proof -
  have "push_bit k a AND w = 0"
  proof (rule bit_eqI)
    fix i
    show "bit (push_bit k a AND w) i = bit (0 :: 'a word) i"
    proof (cases "i < k")
      case False
      then have "(2 :: nat) ^ k \<le> 2 ^ i" by simp
      with assms have "\<not> bit w i" using word_bit_bound [of w i] by linarith
      then show ?thesis by (simp add: bit_and_iff)
    qed (simp add: bit_and_iff bit_push_bit_iff)
  qed
  then show ?thesis by (simp add: disjunctive_add_eq_or)
qed

end
