(* ===== verification/Lexer_Spec.thy ===== *)
theory Lexer_Spec
  imports Lexer "HOL-Library.Sublist"
begin

text \<open>
  What the lexer computes, without positions: \<open>skip_text\<close>, \<open>lex_text\<close> and \<open>lex_all\<close> work on
  the remaining text only. Under the invariant a lexer state is \<open>reads s r k\<close>: source \<open>s\<close>, the
  suffix \<open>r\<close> still to read, lookahead \<open>k\<close>, and line, column and offset are functions of how
  much of \<open>s\<close> is consumed (\<open>location_of\<close>). Every operation of the lexer is refined to the text
  functions through \<open>reads\<close>.
\<close>

section \<open>The reference lexer\<close>

definition location_of :: "string \<Rightarrow> string \<Rightarrow> source_location" where
  "location_of s r =
     (let before = take (length s - length r) s
      in mk_loc (1 + length (filter (\<lambda>c. c = nl_char) before))
           (1 + length (takeWhile (\<lambda>c. c \<noteq> nl_char) (rev before)))
           (length before))"

definition reads :: "string \<Rightarrow> string \<Rightarrow> token option \<Rightarrow> lexer" where
  "reads s r k =
     \<lparr>lx_source = s, lx_position = length s - length r,
      lx_line = loc_line (location_of s r), lx_column = loc_column (location_of s r),
      lx_peeked = k\<rparr>"

definition lexer_inv :: "lexer \<Rightarrow> bool" where
  "lexer_inv lx \<longleftrightarrow>
     lx_position lx \<le> length (lx_source lx) \<and>
     lx = reads (lx_source lx) (drop (lx_position lx) (lx_source lx)) (lx_peeked lx)"

fun after_block :: "string \<Rightarrow> string" where
  "after_block [] = []"
| "after_block [c] = []"
| "after_block (c # d # cs) =
     (if c = CHR ''*'' \<and> d = CHR ''/'' then cs else after_block (d # cs))"

lemma length_after_block: "length (after_block r) \<le> length r"
  by (induction r rule: after_block.induct) auto

function skip_text :: "string \<Rightarrow> string" where
  "skip_text [] = []"
| "skip_text (c # cs) =
     (if isspace c then skip_text cs
      else if c = CHR ''/'' \<and> cs \<noteq> [] \<and> hd cs = CHR ''/''
           then skip_text (dropWhile (\<lambda>c. c \<noteq> nl_char) (tl cs))
      else if c = CHR ''/'' \<and> cs \<noteq> [] \<and> hd cs = CHR ''*'' then skip_text (after_block (tl cs))
      else c # cs)"
  by pat_completeness auto
termination
proof (relation "measure length")
  fix c :: char and cs :: string
  have "length (dropWhile (\<lambda>c. c \<noteq> nl_char) (tl cs)) \<le> length cs"
    using length_dropWhile_le [of "\<lambda>c. c \<noteq> nl_char" "tl cs"] by simp
  then show "(dropWhile (\<lambda>c. c \<noteq> nl_char) (tl cs), c # cs) \<in> measure length" by simp
  have "length (after_block (tl cs)) \<le> length cs"
    using length_after_block [of "tl cs"] by simp
  then show "(after_block (tl cs), c # cs) \<in> measure length" by simp
qed simp_all

text \<open>
  One token: its type, its characters, the text at its reported location and the text after it.
  A one-character token reports the location behind the character, the others their first one.
\<close>

definition symbol_type :: "char \<Rightarrow> token_type option" where
  "symbol_type c =
     (if c = CHR '';'' then Some T_SEMICOLON else if c = CHR ''='' then Some T_EQUALS
      else if c = CHR ''{'' then Some T_LBRACE else if c = CHR ''}'' then Some T_RBRACE
      else if c = CHR ''.'' then Some T_DOT else None)"

definition lex_text :: "string \<Rightarrow> (token_type \<times> string_view \<times> string) \<times> string" where
  "lex_text r =
     (case skip_text r of
        [] \<Rightarrow> ((T_END_OF_FILE, View [], []), [])
      | c # cs \<Rightarrow>
          (case symbol_type c of
             Some t \<Rightarrow> ((t, View [c], cs), cs)
           | None \<Rightarrow>
               if c = CHR ''-'' then
                 (if cs \<noteq> [] \<and> isdigit (hd cs)
                  then ((T_NUMBER, View (c # takeWhile isdigit cs), c # cs), dropWhile isdigit cs)
                  else ((T_INVALID, Dangling, cs), cs))
               else if is_identifier_start c then
                 (let w = takeWhile is_identifier_continue (c # cs)
                  in ((keyword_or_identifier w, View w, c # cs),
                      dropWhile is_identifier_continue (c # cs)))
               else if isdigit c then
                 ((T_NUMBER, View (takeWhile isdigit (c # cs)), c # cs), dropWhile isdigit (c # cs))
               else ((T_INVALID, Dangling, cs), cs)))"

definition at_location :: "string \<Rightarrow> token_type \<times> string_view \<times> string \<Rightarrow> token" where
  "at_location s x = (case x of (t, v, l) \<Rightarrow> mk_token t v (location_of s l))"

section \<open>The state of a lexer as the text left to read\<close>

lemma suffix_drop_length: "suffix r s \<Longrightarrow> drop (length s - length r) s = r"
  by (auto simp: suffix_def)

lemma suffix_ConsD': "suffix (c # r) s \<Longrightarrow> suffix r s"
  by (auto simp: suffix_def)

lemma suffix_dropWhile': "suffix r s \<Longrightarrow> suffix (dropWhile p r) s"
  using suffix_dropWhile suffix_order.trans by blast

lemma suffix_after_block: "suffix (after_block r) r"
  by (induction r rule: after_block.induct) (auto simp: suffix_Cons)

lemma suffix_skip_text: "suffix (skip_text r) r"
proof (induction r rule: skip_text.induct)
  case (2 c cs)
  have "suffix (dropWhile (\<lambda>c. c \<noteq> nl_char) (tl cs)) (c # cs)"
    by (metis suffix_ConsI suffix_dropWhile suffix_order.trans suffix_tl)
  moreover have "suffix (after_block (tl cs)) (c # cs)"
    by (metis suffix_ConsI suffix_after_block suffix_order.trans suffix_tl)
  ultimately show ?case
    using 2 by (auto simp: suffix_ConsI intro: suffix_order.trans)
qed simp

lemma suffix_skip_text': "suffix r s \<Longrightarrow> suffix (skip_text r) s"
  using suffix_skip_text suffix_order.trans by blast

lemma lexer_inv_reads: "suffix r s \<Longrightarrow> lexer_inv (reads s r k)"
  by (simp add: lexer_inv_def reads_def suffix_drop_length)

lemma lexer_inv_reads_iff:
  "lexer_inv lx \<longleftrightarrow> (\<exists>s r k. suffix r s \<and> lx = reads s r k)"
  using lexer_inv_reads suffix_drop unfolding lexer_inv_def by blast

lemma new_lexer_reads: "new_lexer s = reads s s None"
  by (simp add: new_lexer_def reads_def location_of_def mk_loc_def)

lemma reads_peeked [simp]: "lx_peeked (reads s r k) = k"
  by (simp add: reads_def)

lemma reads_at_end [refines]: "suffix r s \<Longrightarrow> is_at_end (reads s r k) \<longleftrightarrow> r = []"
  using suffix_length_le [of r s] by (cases r) (auto simp: is_at_end_def reads_def)

lemma reads_current_Cons [refines]: "suffix (c # r) s \<Longrightarrow> current_char (reads s (c # r) k) = c"
  by (auto simp: current_char_def reads_at_end) (auto simp: reads_def suffix_def)

lemma reads_peek [refines]:
  "suffix (c # r) s \<Longrightarrow> peek_char (reads s (c # r) k) (Suc 0) = (if r = [] then nul_char else hd r)"
  by (cases r) (auto simp: peek_char_def reads_def suffix_def nth_append)

lemma reads_location [refines]: "suffix r s \<Longrightarrow> current_location (reads s r k) = location_of s r"
  by (auto simp: current_location_def reads_def location_of_def Let_def mk_loc_def suffix_def)

lemma consumed_Cons:
  "suffix (c # r) s \<Longrightarrow> take (length s - length r) s = take (length s - length (c # r)) s @ [c]"
  by (auto simp: suffix_def)

lemma reads_advance [refines]: "suffix (c # r) s \<Longrightarrow> advance (reads s (c # r) k) = reads s r k"
  by (frule consumed_Cons)
    (auto simp: advance_def reads_at_end reads_current_Cons Let_def,
     auto simp: reads_def location_of_def mk_loc_def Let_def suffix_def)

lemma reads_advance_tl [refines]: "suffix r s \<Longrightarrow> r \<noteq> [] \<Longrightarrow> advance (reads s r k) = reads s (tl r) k"
  by (cases r) (simp_all add: reads_advance)

lemma reads_advance_end [refines]: "advance (reads s [] k) = reads s [] k"
  by (simp add: advance_def reads_at_end)

section \<open>Refinement of the lexer's operations\<close>

lemma reads_advance_while [refines]:
  "suffix r s \<Longrightarrow> advance_while p (reads s r k) = reads s (dropWhile p r) k"
proof (induction r)
  case Nil
  then show ?case by (subst advance_while.simps) (simp add: reads_at_end)
next
  case (Cons c r)
  then show ?case
    using suffix_ConsD' [of c r s]
    by (subst advance_while.simps) (simp add: refines)
qed

lemma reads_block_loop [refines]:
  "suffix r s \<Longrightarrow> block_comment_loop (reads s r k) = reads s (after_block r) k"
proof (induction r rule: after_block.induct)
  case 1
  then show ?case by (subst block_comment_loop.simps) (simp add: reads_at_end)
next
  case (2 c)
  then show ?case
    by (subst block_comment_loop.simps, subst block_comment_loop.simps) (simp add: refines)
next
  case (3 c d cs)
  note suf = 3(2) suffix_ConsD' [OF 3(2)]
  with 3(1) show ?case
    by (subst block_comment_loop.simps) (auto simp: refines)
qed

lemma reads_skip [refines]:
  "suffix r s \<Longrightarrow> skip_whitespace_and_comments (reads s r k) = reads s (skip_text r) k"
proof (induction r rule: skip_text.induct)
  case 1
  then show ?case by (subst skip_whitespace_and_comments.simps) (simp add: reads_at_end)
next
  case (2 c cs)
  note suf = 2(4) suffix_ConsD' [OF 2(4)]
  have suf_tl: "suffix (tl cs) s"
    using suf by (metis suffix_order.trans suffix_tl)
  then have sufs: "suffix (dropWhile (\<lambda>c. c \<noteq> nl_char) (tl cs)) s" "suffix (after_block (tl cs)) s"
    by (auto simp: suffix_dropWhile' intro: suffix_order.trans [OF suffix_after_block])
  show ?case
    using 2(1-3) suf sufs suf_tl
    by (subst skip_whitespace_and_comments.simps)
      (auto simp: refines Let_def skip_line_comment_def skip_block_comment_def
        split: if_splits)
qed

lemma word_of_suffix:
  assumes "suffix u s"
  shows "sv_substr s (length s - length u) (length s - length (dropWhile p u) - (length s - length u))
           = takeWhile p u"
proof -
  have len: "length (takeWhile p u) + length (dropWhile p u) = length u"
    by (metis length_append takeWhile_dropWhile_id)
  have "length s - length (dropWhile p u) - (length s - length u) = length (takeWhile p u)"
    using len suffix_length_le [OF assms] by linarith
  then show ?thesis
    using suffix_drop_length [OF assms] by (simp add: sv_substr_def takeWhile_eq_take [symmetric])
qed

lemma reads_read_word [refines]:
  assumes "suffix u s"
  shows "read_identifier_or_keyword (reads s u k) =
    (let w = takeWhile is_identifier_continue u
     in (mk_token (keyword_or_identifier w) (View w) (location_of s u),
         reads s (dropWhile is_identifier_continue u) k))"
proof -
  let ?d = "dropWhile is_identifier_continue u"
  have "lx_source (reads s ?d k) = s" "lx_position (reads s ?d k) = length s - length ?d"
    "lx_position (reads s u k) = length s - length u"
    by (simp_all add: reads_def)
  then show ?thesis
    using assms word_of_suffix [OF assms]
    by (simp add: read_identifier_or_keyword_def Let_def refines)
qed

lemma reads_read_number [refines]:
  assumes "suffix (c # cs) s"
  shows "read_number (reads s (c # cs) k) =
    (if c = CHR ''-'' then
       (mk_token T_NUMBER (View (c # takeWhile isdigit cs)) (location_of s (c # cs)),
        reads s (dropWhile isdigit cs) k)
     else
       (mk_token T_NUMBER (View (takeWhile isdigit (c # cs))) (location_of s (c # cs)),
        reads s (dropWhile isdigit (c # cs)) k))"
proof (cases "c = CHR ''-''")
  case False
  let ?d = "dropWhile isdigit (c # cs)"
  have "lx_source (reads s ?d k) = s" "lx_position (reads s ?d k) = length s - length ?d"
    "lx_position (reads s (c # cs) k) = length s - length (c # cs)"
    by (simp_all add: reads_def)
  moreover have "is_digit = isdigit" by (simp add: is_digit_def fun_eq_iff)
  ultimately show ?thesis
    using False assms word_of_suffix [OF assms, of isdigit]
    by (simp only: read_number_def Let_def refines if_False prod.inject simp_thms)
next
  case True
  let ?d = "dropWhile isdigit cs" and ?p = "\<lambda>x. isdigit x \<or> x = CHR ''-''"
  have suf: "suffix cs s" using assms by (rule suffix_ConsD')
  have len: "length (takeWhile isdigit cs) + length ?d = length cs"
    by (metis length_append takeWhile_dropWhile_id)
  have "length s - length ?d - (length s - length (c # cs)) = Suc (length (takeWhile isdigit cs))"
    using len suffix_length_le [OF assms] by simp
  moreover have "lx_source (reads s ?d k) = s" "lx_position (reads s ?d k) = length s - length ?d"
    "lx_position (reads s (c # cs) k) = length s - length (c # cs)"
    by (simp_all add: reads_def)
  moreover have "is_digit = isdigit" by (simp add: is_digit_def fun_eq_iff)
  moreover have "sv_substr s (length s - length (c # cs)) (Suc (length (takeWhile isdigit cs)))
      = c # takeWhile isdigit cs"
    using suffix_drop_length [OF assms] by (simp add: sv_substr_def takeWhile_eq_take [symmetric])
  ultimately show ?thesis
    using True assms suf
    by (simp only: read_number_def Let_def refines if_True prod.inject simp_thms)
qed

lemma reads_scan [refines]:
  assumes "suffix r s"
  shows "scan_token (reads s r k) =
    (at_location s (fst (lex_text r)), reads s (snd (lex_text r)) k)"
proof (cases "skip_text r")
  case Nil
  then show ?thesis
    using assms suffix_skip_text' [OF assms]
    by (simp add: scan_token_def lex_text_def refines make_token_def at_location_def)
next
  case (Cons c cs)
  have suf: "suffix (c # cs) s" "suffix cs s"
    using suffix_skip_text' [OF assms] Cons by (auto dest: suffix_ConsD')
  have pk: "peek_char (reads s (c # cs) k) (Suc 0) \<noteq> nul_char \<and>
      is_digit (peek_char (reads s (c # cs) k) (Suc 0)) \<longleftrightarrow> cs \<noteq> [] \<and> isdigit (hd cs)"
    using suf by (auto simp: reads_peek is_digit_def isdigit_def)
  note ops = scan_token_def lex_text_def make_token_def at_location_def symbol_type_def Let_def
    reads_skip reads_at_end reads_current_Cons reads_advance reads_location reads_read_number
    reads_read_word Cons
  show ?thesis
  proof (cases "c = CHR ''-''")
    case True
    with assms suf pk show ?thesis by (simp add: ops)
  next
    case False
    with assms suf show ?thesis by (simp add: ops is_digit_def)
  qed
qed

lemma suffix_lex_text: "suffix (snd (lex_text r)) (skip_text r)"
proof (cases "skip_text r")
  case (Cons c cs)
  have "suffix (dropWhile isdigit cs) (c # cs)"
    by (metis suffix_ConsI suffix_dropWhile)
  then show ?thesis
    using suffix_dropWhile [of is_identifier_continue "c # cs"] suffix_dropWhile [of isdigit "c # cs"]
    by (auto simp: lex_text_def Cons Let_def suffix_ConsI split: option.splits)
qed (simp add: lex_text_def)

lemma suffix_lex_text': "suffix r s \<Longrightarrow> suffix (snd (lex_text r)) s"
  using suffix_lex_text suffix_skip_text suffix_order.trans by blast

lemma lex_text_EOF: "fst (fst (lex_text r)) = T_END_OF_FILE \<longleftrightarrow> skip_text r = []"
proof (cases "skip_text r")
  case (Cons c cs)
  have "keyword_or_identifier w \<noteq> T_END_OF_FILE" for w
    by (auto simp: keyword_or_identifier_def keyword_table_def split: option.splits if_splits)
  moreover have "symbol_type c \<noteq> Some T_END_OF_FILE" by (simp add: symbol_type_def)
  ultimately show ?thesis
    by (auto simp: lex_text_def Cons Let_def split: option.splits)
qed (simp add: lex_text_def)

lemma lex_text_progress:
  assumes "fst (fst (lex_text r)) \<noteq> T_END_OF_FILE"
  shows "length (snd (lex_text r)) < length (skip_text r)"
proof -
  obtain c cs where "skip_text r = c # cs"
    using assms lex_text_EOF [of r] by (cases "skip_text r") auto
  moreover have "is_identifier_start c \<Longrightarrow> is_identifier_continue c"
    by (auto simp: is_identifier_start_def is_identifier_continue_def isalnum_def)
  ultimately show ?thesis
    using length_dropWhile_le [of is_identifier_continue cs] length_dropWhile_le [of isdigit cs]
    by (auto simp: lex_text_def Let_def split: option.splits)
qed

section \<open>The whole stream\<close>

function lex_all :: "string \<Rightarrow> (token_type \<times> string_view \<times> string) list" where
  "lex_all r =
     (let x = lex_text r
      in if fst (fst x) = T_END_OF_FILE then [fst x] else fst x # lex_all (snd x))"
  by pat_completeness auto
termination
proof (relation "measure length")
  fix r :: string and x
  assume "x = lex_text r" and "fst (fst x) \<noteq> T_END_OF_FILE"
  then have "length (snd x) < length (skip_text r)" using lex_text_progress by simp
  also have "\<dots> \<le> length r" using suffix_skip_text by (rule suffix_length_le)
  finally show "(snd x, r) \<in> measure length" by simp
qed simp

declare lex_all.simps [simp del]

lemma at_location_type [simp]: "tk_type (at_location s x) = fst x"
  by (cases x) (simp add: at_location_def mk_token_def)

lemma tokens_from_reads [refines]:
  "suffix r s \<Longrightarrow> tokens_from (reads s r None) = map (at_location s) (lex_all r)"
proof (induction r rule: lex_all.induct)
  case (1 r)
  have nxt: "next_token (reads s r None) =
      (at_location s (fst (lex_text r)), reads s (snd (lex_text r)) None)"
    using 1(2) by (simp add: next_token_def reads_scan)
  show ?case
  proof (cases "fst (fst (lex_text r)) = T_END_OF_FILE")
    case True
    then show ?thesis
      by (subst tokens_from.simps, subst lex_all.simps) (simp add: nxt)
  next
    case False
    then show ?thesis
      using 1(1) [OF refl] suffix_lex_text' [OF 1(2)]
      by (subst tokens_from.simps, subst lex_all.simps) (simp add: nxt Let_def)
  qed
qed

section \<open>The interface to the parser\<close>

text \<open>
  What a consumer of tokens relies on: a token other than end-of-file makes the source smaller,
  and under the source's invariant an end-of-file token is delivered again and again.
\<close>

locale token_source =
  fixes nxt :: "'s \<Rightarrow> token \<times> 's"
    and left :: "'s \<Rightarrow> nat"
    and src_inv :: "'s \<Rightarrow> bool"
  assumes nxt_left: "nxt s = (t, s') \<Longrightarrow> tk_type t \<noteq> T_END_OF_FILE \<Longrightarrow> left s' < left s"
    and nxt_inv: "src_inv s \<Longrightarrow> nxt s = (t, s') \<Longrightarrow> src_inv s'"
    and eof_again:
      "src_inv s \<Longrightarrow> nxt s = (t, s') \<Longrightarrow> tk_type t = T_END_OF_FILE \<Longrightarrow> nxt s' = (t, s')"
begin

text \<open>A consumer that holds one token in hand: what it and its source have left.\<close>

definition ahead :: "token \<Rightarrow> 's \<Rightarrow> nat" where
  "ahead cur s = (if tk_type cur = T_END_OF_FILE then 0 else Suc (left s))"

lemma ahead_decreases:
  assumes "tk_type cur \<noteq> T_END_OF_FILE" and "nxt s = (t, s')"
  shows "ahead t s' < ahead cur s"
  using assms nxt_left [OF assms(2)] by (simp add: ahead_def)

text \<open>After enough calls the source delivers end-of-file.\<close>

lemma eof_reached: "\<exists>n \<le> left s. tk_type (fst (nxt (((snd \<circ> nxt) ^^ n) s))) = T_END_OF_FILE"
proof (induction "left s" arbitrary: s rule: less_induct)
  case less
  obtain t s' where nx: "nxt s = (t, s')" by (cases "nxt s")
  show ?case
  proof (cases "tk_type t = T_END_OF_FILE")
    case True
    with nx show ?thesis by (intro exI [of _ 0]) simp
  next
    case False
    then have lt: "left s' < left s" using nx nxt_left by blast
    from less [OF lt] obtain n where n: "n \<le> left s'"
      "tk_type (fst (nxt (((snd \<circ> nxt) ^^ n) s'))) = T_END_OF_FILE" by blast
    then have "tk_type (fst (nxt (((snd \<circ> nxt) ^^ Suc n) s))) = T_END_OF_FILE"
      using nx by (simp add: funpow_Suc_right del: funpow.simps)
    then show ?thesis using lt n(1) by (intro exI [of _ "Suc n"]) simp
  qed
qed

lemma eof_forever:
  assumes "src_inv s" and "nxt s = (t, s')" and "tk_type t = T_END_OF_FILE"
  shows "nxt (((snd \<circ> nxt) ^^ n) s') = (t, s')"
  using eof_again [OF assms] by (induction n) simp_all

end

text \<open>The lexer's invariant as a source: well located, and nothing looked ahead.\<close>

definition lexer_src_inv :: "lexer \<Rightarrow> bool" where
  "lexer_src_inv lx \<longleftrightarrow> lexer_inv lx \<and> lx_peeked lx = None"

lemma lexer_src_inv_iff: "lexer_src_inv lx \<longleftrightarrow> (\<exists>s r. suffix r s \<and> lx = reads s r None)"
  unfolding lexer_src_inv_def lexer_inv_reads_iff by (metis reads_peeked)

lemma next_token_reads [refines]:
  "suffix r s \<Longrightarrow> next_token (reads s r None) =
    (at_location s (fst (lex_text r)), reads s (snd (lex_text r)) None)"
  by (simp add: next_token_def reads_scan)

lemma lex_text_at_end:
  assumes "fst (fst (lex_text r)) = T_END_OF_FILE"
  shows "lex_text r = ((T_END_OF_FILE, View [], []), [])"
  using assms by (simp add: lex_text_EOF) (simp add: lex_text_def)

interpretation lexer_source: token_source next_token lexer_left lexer_src_inv
proof
  fix lx t lx'
  assume nx: "next_token lx = (t, lx')"
  show "tk_type t \<noteq> T_END_OF_FILE \<Longrightarrow> lexer_left lx' < lexer_left lx"
    using nx by (rule lexer_left_next)
  assume "lexer_src_inv lx"
  then obtain s r where r: "suffix r s" "lx = reads s r None"
    by (auto simp: lexer_src_inv_iff)
  with nx show "lexer_src_inv lx'"
    by (auto simp: lexer_src_inv_iff next_token_reads intro: suffix_lex_text')
  assume "tk_type t = T_END_OF_FILE"
  with nx r have "lex_text r = ((T_END_OF_FILE, View [], []), [])"
    by (auto simp: next_token_reads intro: lex_text_at_end)
  moreover have "lex_text [] = ((T_END_OF_FILE, View [], []), [])" by (simp add: lex_text_def)
  ultimately show "next_token lx' = (t, lx')"
    using nx r by (auto simp: next_token_reads)
qed

section \<open>Spelling tokens\<close>

text \<open>
  The words of a token stream: what a well-spelled token looks like, and the text that spells a
  list of them, each followed by a blank.
\<close>

definition is_number_word :: "string \<Rightarrow> bool" where
  "is_number_word v \<longleftrightarrow>
     (let ds = (if v \<noteq> [] \<and> hd v = CHR ''-'' then tl v else v) in ds \<noteq> [] \<and> list_all isdigit ds)"

definition is_word :: "string \<Rightarrow> bool" where
  "is_word v \<longleftrightarrow> v \<noteq> [] \<and> is_identifier_start (hd v) \<and> list_all is_identifier_continue v"

definition well_spelled :: "token_type \<times> string \<Rightarrow> bool" where
  "well_spelled x \<longleftrightarrow>
     (case x of (t, v) \<Rightarrow>
        (\<exists>c \<in> set v. v = [c] \<and> symbol_type c = Some t) \<or>
        t = T_NUMBER \<and> is_number_word v \<or>
        is_word v \<and> t = keyword_or_identifier v)"

definition spell :: "(token_type \<times> string) list \<Rightarrow> string" where
  "spell ts = concat (map (\<lambda>x. snd x @ '' '') ts)"

definition token_text :: "token \<Rightarrow> token_type \<times> string_view" where
  "token_text t = (tk_type t, tk_value t)"

lemma is_digit_classes:
  assumes "isdigit c"
  shows "\<not> isspace c" "c \<noteq> CHR ''/''" "symbol_type c = None" "c \<noteq> CHR ''-''"
    "\<not> is_identifier_start c"
  using assms
  by (auto simp: isdigit_def isspace_def Let_def symbol_type_def is_identifier_start_def isalpha_def)

lemma is_start_classes:
  assumes "is_identifier_start c"
  shows "\<not> isspace c" "c \<noteq> CHR ''/''" "symbol_type c = None" "c \<noteq> CHR ''-''"
  using assms
  by (auto simp: isspace_def Let_def symbol_type_def is_identifier_start_def isalpha_def)

lemma symbol_classes:
  assumes "symbol_type c = Some t"
  shows "\<not> isspace c" "c \<noteq> CHR ''/''"
  using assms by (auto simp: symbol_type_def isspace_def split: if_splits)

lemma skip_text_stop: "\<not> isspace c \<Longrightarrow> c \<noteq> CHR ''/'' \<Longrightarrow> skip_text (c # cs) = c # cs"
  by simp

lemma takeWhile_blank: "list_all p v \<Longrightarrow> \<not> p CHR '' '' \<Longrightarrow> takeWhile p (v @ '' '' @ r) = v"
  by (induction v) auto

lemma dropWhile_blank:
  "list_all p v \<Longrightarrow> \<not> p CHR '' '' \<Longrightarrow> dropWhile p (v @ '' '' @ r) = '' '' @ r"
  by (induction v) auto

lemma blank_classes:
  "\<not> isdigit CHR '' ''" "\<not> is_identifier_continue CHR '' ''" "isspace CHR '' ''"
  "\<not> isspace CHR ''-''" "symbol_type CHR ''-'' = None"
  by (simp_all add: isdigit_def is_identifier_continue_def isspace_def isalnum_def isalpha_def
      symbol_type_def)

lemma skip_text_blank: "skip_text ('' '' @ r) = skip_text r"
  by (simp add: blank_classes)

lemma lex_text_spelled:
  assumes "well_spelled (t, v)"
  shows "\<exists>l. lex_text (v @ '' '' @ r) = ((t, View v, l), '' '' @ r)"
proof -
  consider (sym) c where "v = [c]" "symbol_type c = Some t"
    | (neg) ds where "t = T_NUMBER" "v = CHR ''-'' # ds" "ds \<noteq> []" "list_all isdigit ds"
    | (pos) "t = T_NUMBER" "v \<noteq> []" "list_all isdigit v"
    | (word) "is_word v" "t = keyword_or_identifier v"
    using assms unfolding well_spelled_def is_number_word_def Let_def
    by (cases v) (auto split: if_splits)
  then show ?thesis
  proof cases
    case sym
    then show ?thesis
      using symbol_classes [OF sym(2)] by (simp add: lex_text_def skip_text_stop)
  next
    case neg
    then show ?thesis
      using takeWhile_blank [OF neg(4)] dropWhile_blank [OF neg(4)]
      by (cases ds) (simp_all add: lex_text_def skip_text_stop blank_classes)
  next
    case pos
    then obtain c cs where "v = c # cs" "isdigit c" by (cases v) auto
    then show ?thesis
      using pos is_digit_classes [of c] takeWhile_blank [OF pos(3)] dropWhile_blank [OF pos(3)]
      by (simp add: lex_text_def skip_text_stop blank_classes)
  next
    case word
    then obtain c cs where v: "v = c # cs" "is_identifier_start c"
      "list_all is_identifier_continue v" by (cases v) (auto simp: is_word_def)
    then show ?thesis
      using word is_start_classes [of c] takeWhile_blank [OF v(3)] dropWhile_blank [OF v(3)]
      by (simp add: lex_text_def skip_text_stop blank_classes Let_def)
  qed
qed

lemma lex_text_blank: "lex_text ('' '' @ r) = lex_text r"
  by (simp only: lex_text_def skip_text_blank)

lemma lex_all_blank: "lex_all ('' '' @ r) = lex_all r"
  by (subst (1 2) lex_all.simps) (simp only: lex_text_blank)

lemma well_spelled_not_EOF: "well_spelled (t, v) \<Longrightarrow> t \<noteq> T_END_OF_FILE"
  by (auto simp: well_spelled_def symbol_type_def keyword_or_identifier_def keyword_table_def
      split: if_splits option.splits)

lemma lex_all_spell:
  "list_all well_spelled ts \<Longrightarrow>
   map (\<lambda>x. (fst x, fst (snd x))) (lex_all (spell ts)) =
   map (\<lambda>x. (fst x, View (snd x))) ts @ [(T_END_OF_FILE, View [])]"
proof (induction ts)
  case Nil
  show ?case by (subst lex_all.simps) (simp add: spell_def lex_text_def)
next
  case (Cons x ts)
  obtain t v where x: "x = (t, v)" by (cases x)
  then obtain l where l: "lex_text (v @ '' '' @ spell ts) = ((t, View v, l), '' '' @ spell ts)"
    using Cons.prems lex_text_spelled by fastforce
  have "spell (x # ts) = v @ '' '' @ spell ts" by (simp add: spell_def x)
  then show ?case
    using l Cons x well_spelled_not_EOF [of t v]
    by (subst lex_all.simps) (simp add: lex_all_blank del: append_Cons)
qed

section \<open>Where a token stands\<close>

definition is_symbol :: "token_type \<Rightarrow> bool" where
  "is_symbol t \<longleftrightarrow> t \<in> {T_SEMICOLON, T_EQUALS, T_LBRACE, T_RBRACE, T_DOT}"

lemma keyword_not_symbol: "\<not> is_symbol (keyword_or_identifier w)"
  by (auto simp: keyword_or_identifier_def keyword_table_def is_symbol_def
      split: option.splits if_splits)

lemma symbol_type_is_symbol: "symbol_type c = Some t \<Longrightarrow> is_symbol t"
  by (auto simp: symbol_type_def is_symbol_def split: if_splits)

lemma number_not_symbol: "\<not> is_symbol T_NUMBER"
  by (simp add: is_symbol_def)

lemma lex_text_stands:
  assumes "lex_text r = ((t, View v, l), r')" and "suffix r s"
  shows "suffix l s \<and> (if is_symbol t then \<exists>c. v = [c] \<and> suffix (v @ l) s else take (length v) l = v)"
proof (cases "skip_text r")
  case Nil
  with assms show ?thesis by (auto simp: lex_text_def is_symbol_def)
next
  case (Cons c cs)
  have suf: "suffix (c # cs) s" "suffix cs s"
    using suffix_skip_text' [OF assms(2)] Cons by (auto dest: suffix_ConsD')
  show ?thesis
    using assms(1) suf
    by (auto simp: lex_text_def Cons Let_def keyword_not_symbol number_not_symbol
        symbol_type_is_symbol take_length_takeWhile split: if_splits option.splits)
qed

lemma lex_all_stands:
  "suffix r s \<Longrightarrow> (t, View v, l) \<in> set (lex_all r) \<Longrightarrow>
   suffix l s \<and> (if is_symbol t then \<exists>c. v = [c] \<and> suffix (v @ l) s else take (length v) l = v)"
proof (induction r rule: lex_all.induct)
  case (1 r)
  obtain x r' where x: "lex_text r = (x, r')" by (cases "lex_text r")
  have "(t, View v, l) = x \<or> fst x \<noteq> T_END_OF_FILE \<and> (t, View v, l) \<in> set (lex_all r')"
    using 1(3) x by (subst (asm) lex_all.simps) (auto simp: Let_def split: if_splits)
  then show ?case
    using 1(1) [OF refl] 1(2) x lex_text_stands [of r t v l r' s] suffix_lex_text' [OF 1(2)]
    by auto
qed

lemma location_of_offset: "suffix l s \<Longrightarrow> loc_offset (location_of s l) = length s - length l"
  by (simp add: location_of_def Let_def mk_loc_def)

section \<open>Properties\<close>

text \<open>
  C1: The lexer implements the reference lexer. On every source text the tokens it delivers, up
  to end-of-file, are those of \<open>lex_all\<close> on the text (white space and comments skipped, longest
  words and numbers taken), each with the line, column and offset that the text before it
  determines.
\<close>

theorem lexer_refines_reference:
  "tokens_from (new_lexer s) = map (at_location s) (lex_all s)"
  by (simp add: new_lexer_reads tokens_from_reads)

text \<open>
  Every token keeps the lexer's invariant: the position stays inside the source, line and
  column stay those of the position, the source does not change, the position never goes back
  and the token's own location is inside the source.
\<close>

theorem next_token_keeps_invariant:
  assumes "lexer_inv lx" and "lx_peeked lx = None" and "next_token lx = (t, lx')"
  shows "lexer_inv lx' \<and> lx_source lx' = lx_source lx \<and> lx_position lx \<le> lx_position lx' \<and>
    lx_position lx' \<le> length (lx_source lx) \<and> loc_offset (tk_location t) \<le> length (lx_source lx)"
proof -
  obtain s r where r: "suffix r s" "lx = reads s r None"
    using assms(1,2) by (metis lexer_src_inv_def lexer_src_inv_iff)
  let ?r' = "snd (lex_text r)"
  have lx': "lx' = reads s ?r' None" "t = at_location s (fst (lex_text r))"
    using assms(3) r by (auto simp: next_token_reads)
  have suf: "suffix ?r' s" "suffix ?r' r"
    using suffix_lex_text' [OF r(1)] suffix_lex_text' [of r r] by auto
  have "loc_offset (tk_location t) \<le> length s"
    by (cases "lex_text r") (auto simp: lx' at_location_def mk_token_def location_of_def mk_loc_def
        Let_def split: prod.splits)
  then show ?thesis
    using lexer_inv_reads [OF suf(1)] suffix_length_le [OF suf(2)] suffix_length_le [OF r(1)]
    by (simp add: lx' r reads_def diff_le_mono2)
qed

text \<open>
  C18: Lexing terminates: after at most twice as many calls as the source has characters
  \<^verbatim>\<open>next_token\<close> delivers end-of-file, and from then on it delivers the same end-of-file token
  on every further call.
\<close>

theorem lexer_reaches_end_of_file:
  "\<exists>n e lx. n \<le> 2 * length s \<and> ((snd \<circ> next_token) ^^ n) (new_lexer s) = lx \<and>
     tk_type e = T_END_OF_FILE \<and> (\<forall>m. fst (next_token (((snd \<circ> next_token) ^^ m) lx)) = e)"
proof -
  obtain n where n: "n \<le> lexer_left (new_lexer s)"
    "tk_type (fst (next_token (((snd \<circ> next_token) ^^ n) (new_lexer s)))) = T_END_OF_FILE"
    using lexer_source.eof_reached by blast
  let ?lx = "((snd \<circ> next_token) ^^ n) (new_lexer s)"
  obtain e lx' where e: "next_token ?lx = (e, lx')" by (cases "next_token ?lx")
  have "lexer_src_inv (new_lexer s)"
    by (auto simp: lexer_src_inv_iff new_lexer_reads)
  then have "lexer_src_inv ?lx"
    by (induction n) (auto intro: lexer_source.nxt_inv [OF _ prod.collapse [symmetric]])
  then have fwd: "next_token (((snd \<circ> next_token) ^^ m) lx') = (e, lx')" for m
    using lexer_source.eof_forever [OF _ e] n(2) e by simp
  have "fst (next_token (((snd \<circ> next_token) ^^ m) ?lx)) = e" for m
    using fwd e by (cases m) (simp_all add: funpow_Suc_right del: funpow.simps)
  moreover have "lexer_left (new_lexer s) = 2 * length s"
    by (simp add: lexer_left_def new_lexer_def chars_left_def)
  ultimately show ?thesis using n e by auto
qed

text \<open>
  Looking ahead does not change what is read: after \<^verbatim>\<open>peek_token\<close> the next token is the
  peeked one, the lexer is then where it would be without the look-ahead, and peeking again
  gives the same token and state.
\<close>

theorem peek_token_transparent:
  assumes "peek_token lx = (t, lx1)"
  shows "next_token lx1 = next_token lx \<and> fst (next_token lx) = t \<and> peek_token lx1 = (t, lx1)"
proof (cases "lx_peeked lx")
  case (Some t')
  with assms show ?thesis by (auto simp: peek_token_def next_token_def)
next
  case None
  obtain u lx2 where u: "scan_token lx = (u, lx2)" by (cases "scan_token lx")
  with None have "lx_peeked lx2 = None" using scan_peeked [OF u] by simp
  then have "lx2\<lparr>lx_peeked := None\<rparr> = lx2" by simp
  with assms None u show ?thesis
    by (auto simp: peek_token_def next_token_def)
qed

text \<open>
  C19: A token's characters stand in the source at its reported offset. A keyword, an identifier
  or a number is the source text that starts there; a one-character symbol is the character just
  before the reported offset. Line and column are those of the offset.
\<close>

theorem token_stands_in_source:
  assumes "t \<in> set (tokens_from (new_lexer s))" and "tk_value t = View v"
  shows "tk_location t = location_of s (drop (loc_offset (tk_location t)) s) \<and>
    (if is_symbol (tk_type t)
     then 1 \<le> loc_offset (tk_location t) \<and> [s ! (loc_offset (tk_location t) - 1)] = v
     else take (length v) (drop (loc_offset (tk_location t)) s) = v)"
proof -
  obtain ty l where x: "(ty, View v, l) \<in> set (lex_all s)" "t = at_location s (ty, View v, l)"
    using assms by (auto simp: new_lexer_reads tokens_from_reads at_location_def mk_token_def)
  have st: "suffix l s" "if is_symbol ty then \<exists>c. v = [c] \<and> suffix (v @ l) s else take (length v) l = v"
    using lex_all_stands [OF suffix_order.refl x(1)] by blast+
  have loc: "tk_location t = location_of s l" "tk_type t = ty"
    by (simp_all add: x(2) at_location_def mk_token_def)
  then have "drop (loc_offset (tk_location t)) s = l"
    using suffix_drop_length [OF st(1)] location_of_offset [OF st(1)] by simp
  with st(2) loc show ?thesis
    by (auto simp: location_of_offset [OF st(1)] suffix_def split: if_splits)
qed

theorem token_stands_in_source_witness:
  "\<exists>t \<in> set (tokens_from (new_lexer ''enum E'')). \<exists>v. tk_value t = View v \<and>
     tk_location t = location_of ''enum E'' (drop (loc_offset (tk_location t)) ''enum E'')"
proof -
  have "View ''enum'' \<in> tk_value ` set (tokens_from (new_lexer ''enum E''))"
    by code_simp
  then obtain t where t: "t \<in> set (tokens_from (new_lexer ''enum E''))" "tk_value t = View ''enum''"
    by auto
  show ?thesis using token_stands_in_source [OF t] t by blast
qed

text \<open>
  C20: Spelling a list of well-formed tokens, a blank after each, and lexing the text gives the
  tokens back: their types and their characters, then end-of-file.
\<close>

theorem lexer_spell_roundtrip:
  assumes "list_all well_spelled ts"
  shows "map token_text (tokens_from (new_lexer (spell ts))) =
    map (\<lambda>x. (fst x, View (snd x))) ts @ [(T_END_OF_FILE, View [])]"
proof -
  have "token_text \<circ> at_location s = (\<lambda>x. (fst x, fst (snd x)))" for s
    by (auto simp: fun_eq_iff token_text_def at_location_def mk_token_def)
  then show ?thesis
    using lex_all_spell [OF assms] by (simp add: new_lexer_reads tokens_from_reads)
qed

theorem lexer_spell_roundtrip_witness:
  "map token_text (tokens_from (new_lexer (spell [(T_ENUM, ''enum''), (T_NUMBER, ''-5'')]))) =
     [(T_ENUM, View ''enum''), (T_NUMBER, View ''-5''), (T_END_OF_FILE, View [])]"
proof -
  have "list_all well_spelled [(T_ENUM, ''enum''), (T_NUMBER, ''-5'')]"
    by code_simp
  from lexer_spell_roundtrip [OF this] show ?thesis by simp
qed

end
