(* ===== verification/Lexer_Session.thy ===== *)
theory Lexer_Session
  imports Lexer_Spec
begin

text \<open>
  A lexer object in use. A client may call \<^verbatim>\<open>next_token\<close>, \<^verbatim>\<open>peek_token\<close> and \<^verbatim>\<open>has_more_tokens\<close> in any order
  and as often as it likes; each call is a labelled step, and a session is a run of such steps from a
  fresh lexer. What the calls answer depends on the source and on the number of tokens taken so far only.
\<close>

section \<open>Sessions\<close>

datatype lexer_event = Took token | Peeked token | Asked bool

inductive lexer_step :: "lexer \<Rightarrow> lexer_event \<Rightarrow> lexer \<Rightarrow> bool" where
  take_step: "next_token lx = (t, lx') \<Longrightarrow> lexer_step lx (Took t) lx'"
| peek_step: "peek_token lx = (t, lx') \<Longrightarrow> lexer_step lx (Peeked t) lx'"
| ask_step: "lexer_step lx (Asked (has_more_tokens lx)) lx"

inductive lexer_run :: "lexer \<Rightarrow> lexer_event list \<Rightarrow> lexer \<Rightarrow> bool" where
  run_Nil: "lexer_run lx [] lx"
| run_snoc: "lexer_run lx es lx' \<Longrightarrow> lexer_step lx' e lx'' \<Longrightarrow> lexer_run lx (es @ [e]) lx''"

inductive_cases took_cases: "lexer_step lx (Took t) lx'"
inductive_cases peeked_cases: "lexer_step lx (Peeked t) lx'"
inductive_cases asked_cases: "lexer_step lx (Asked b) lx'"

declare lexer_step.intros [intro] lexer_run.intros [intro]

section \<open>The specification\<close>

text \<open>
  The tokens of a source, numbered: those of the reference lexer with their locations, and then the last
  one, end-of-file, for ever.
\<close>

definition token_number :: "string \<Rightarrow> nat \<Rightarrow> token" where
  "token_number s n = at_location s (if n < length (lex_all s) then lex_all s ! n else last (lex_all s))"

fun taken :: "lexer_event list \<Rightarrow> nat" where
  "taken [] = 0"
| "taken (Took t # es) = Suc (taken es)"
| "taken (e # es) = taken es"

text \<open>Every answer of a session, given how many tokens were taken before it.\<close>

fun answers_from :: "string \<Rightarrow> nat \<Rightarrow> lexer_event list \<Rightarrow> bool" where
  "answers_from s n [] \<longleftrightarrow> True"
| "answers_from s n (Took t # es) \<longleftrightarrow> t = token_number s n \<and> answers_from s (Suc n) es"
| "answers_from s n (Peeked t # es) \<longleftrightarrow> t = token_number s n \<and> answers_from s n es"
| "answers_from s n (Asked b # es) \<longleftrightarrow> answers_from s n es"

lemma taken_append [simp]: "taken (es @ es') = taken es + taken es'"
  by (induction es rule: taken.induct) simp_all

lemma answers_append [simp]:
  "answers_from s n (es @ es') \<longleftrightarrow> answers_from s n es \<and> answers_from s (n + taken es) es'"
  by (induction s n es rule: answers_from.induct) auto

section \<open>The text behind the tokens that were taken\<close>

definition text_after :: "string \<Rightarrow> nat \<Rightarrow> string" where
  "text_after s n = ((snd \<circ> lex_text) ^^ n) s"

lemma text_after_0 [simp]: "text_after s 0 = s"
  by (simp add: text_after_def)

lemma text_after_Suc: "text_after s (Suc n) = snd (lex_text (text_after s n))"
  by (simp add: text_after_def)

lemma text_after_Suc': "text_after s (Suc n) = text_after (snd (lex_text s)) n"
  by (simp add: text_after_def funpow_Suc_right del: funpow.simps)

lemma suffix_text_after: "suffix (text_after s n) s"
  by (induction n) (auto simp: text_after_Suc intro: suffix_lex_text')

lemma text_after_end:
  assumes "fst (fst (lex_text r)) = T_END_OF_FILE"
  shows "lex_text (text_after r n) = lex_text r"
proof -
  have eof: "lex_text r = ((T_END_OF_FILE, View [], []), [])" by (rule lex_text_at_end [OF assms])
  have "lex_text [] = ((T_END_OF_FILE, View [], []), [])" by (simp add: lex_text_def)
  with eof show ?thesis by (induction n) (simp_all add: text_after_Suc)
qed

lemma lex_all_numbered:
  "fst (lex_text (text_after r n)) = (if n < length (lex_all r) then lex_all r ! n else last (lex_all r))"
proof (induction r arbitrary: n rule: lex_all.induct)
  case (1 r)
  show ?case
  proof (cases "fst (fst (lex_text r)) = T_END_OF_FILE")
    case True
    then have "lex_all r = [fst (lex_text r)]" by (subst lex_all.simps) simp
    with text_after_end [OF True] show ?thesis by simp
  next
    case False
    then have all: "lex_all r = fst (lex_text r) # lex_all (snd (lex_text r))"
      by (subst lex_all.simps) (simp add: Let_def)
    have "lex_all q \<noteq> []" for q by (subst lex_all.simps) (simp add: Let_def)
    with 1 [OF refl False] show ?thesis
      by (cases n) (simp_all add: all text_after_Suc')
  qed
qed

lemma token_number_text: "token_number s n = at_location s (fst (lex_text (text_after s n)))"
  by (simp add: token_number_def lex_all_numbered)

section \<open>The invariant of a session\<close>

text \<open>
  With \<open>n\<close> tokens taken the lexer stands behind them, or behind one more token that it holds.
\<close>

definition stands_at :: "string \<Rightarrow> nat \<Rightarrow> lexer \<Rightarrow> bool" where
  "stands_at s n lx \<longleftrightarrow>
     lx = reads s (text_after s n) None \<or> lx = reads s (text_after s (Suc n)) (Some (token_number s n))"

lemma reads_drop_peeked: "(reads s r k)\<lparr>lx_peeked := k'\<rparr> = reads s r k'"
  by (simp add: reads_def)

lemma stands_next:
  assumes "stands_at s n lx" "next_token lx = (t, lx')"
  shows "t = token_number s n \<and> stands_at s (Suc n) lx'"
  using assms(1) [unfolded stands_at_def]
proof
  assume "lx = reads s (text_after s n) None"
  with assms(2) show ?thesis
    using next_token_reads [OF suffix_text_after [of s n]]
    by (simp add: stands_at_def token_number_text text_after_Suc)
next
  assume "lx = reads s (text_after s (Suc n)) (Some (token_number s n))"
  with assms(2) show ?thesis
    by (auto simp: next_token_def stands_at_def reads_drop_peeked)
qed

lemma stands_peek:
  assumes "stands_at s n lx" "peek_token lx = (t, lx')"
  shows "t = token_number s n \<and> stands_at s n lx'"
  using assms(1) [unfolded stands_at_def]
proof
  assume "lx = reads s (text_after s n) None"
  with assms(2) show ?thesis
    using next_token_reads [OF suffix_text_after [of s n]]
    by (auto simp: peek_token_def stands_at_def token_number_text text_after_Suc reads_drop_peeked)
next
  assume "lx = reads s (text_after s (Suc n)) (Some (token_number s n))"
  with assms(2) show ?thesis by (auto simp: peek_token_def stands_at_def)
qed

lemma session_invariant:
  "lexer_run lx es lx' \<Longrightarrow> lx = new_lexer s \<Longrightarrow> answers_from s 0 es \<and> stands_at s (taken es) lx'"
proof (induction rule: lexer_run.induct)
  case (run_Nil lx)
  then show ?case by (simp add: stands_at_def new_lexer_reads)
next
  case (run_snoc lx es lx' e lx'')
  then have st: "answers_from s 0 es" "stands_at s (taken es) lx'" by simp_all
  from run_snoc.hyps(2) show ?case
    by cases (use st stands_next [OF st(2)] stands_peek [OF st(2)] in auto)
qed

lemma stands_inv: "stands_at s n lx \<Longrightarrow> lexer_inv lx \<and> lx_source lx = s"
  unfolding stands_at_def using lexer_inv_reads [OF suffix_text_after] by (auto simp: reads_def)

lemma stands_no_more:
  assumes "stands_at s n lx" "lx_peeked lx = None" "\<not> has_more_tokens lx"
  shows "tk_type (token_number s n) = T_END_OF_FILE"
proof -
  have "lx = reads s (text_after s n) None" using assms(1,2) by (auto simp: stands_at_def)
  with assms(3) have "text_after s n = []"
    by (simp add: has_more_tokens_def reads_at_end suffix_text_after)
  then show ?thesis by (simp add: token_number_text lex_text_def)
qed

section \<open>Properties\<close>

text \<open>
  C9: In every session with a lexer, whatever the order of the calls, the \<open>n\<close>-th token taken is the
  \<open>n\<close>-th token of the source, a token that was looked at is the next one to be taken, and asking changes
  nothing. After every session the position, line and column are those of the text read and the source
  is unchanged, and if no token is held and \<^verbatim>\<open>has_more_tokens\<close> is false, only end-of-file is left.
\<close>

theorem lexer_session_correct:
  assumes "lexer_run (new_lexer s) es lx"
  shows "answers_from s 0 es \<and> lexer_inv lx \<and> lx_source lx = s \<and>
    (lx_peeked lx = None \<longrightarrow> \<not> has_more_tokens lx \<longrightarrow> tk_type (fst (next_token lx)) = T_END_OF_FILE)"
proof -
  have st: "answers_from s 0 es" "stands_at s (taken es) lx"
    using session_invariant [OF assms refl] by simp_all
  have "fst (next_token lx) = token_number s (taken es)"
    using stands_next [OF st(2)] by (cases "next_token lx") auto
  with st stands_inv [OF st(2)] stands_no_more [OF st(2)] show ?thesis by simp
qed

theorem lexer_session_correct_witness:
  "\<exists>t u lx. lexer_run (new_lexer ''; x'') [Peeked t, Asked True, Took t, Took u] lx \<and>
     answers_from ''; x'' 0 [Peeked t, Asked True, Took t, Took u] \<and> lexer_inv lx"
proof -
  let ?lx = "new_lexer ''; x''"
  obtain t lx1 where peek: "peek_token ?lx = (t, lx1)" by (cases "peek_token ?lx")
  obtain t' lx2 where took: "next_token lx1 = (t', lx2)" by (cases "next_token lx1")
  obtain u lx3 where u: "next_token lx2 = (u, lx3)" by (cases "next_token lx2")
  have "has_more_tokens (snd (peek_token ?lx))" by code_simp
  then have ask: "has_more_tokens lx1" by (simp add: peek)
  have "fst (next_token (snd (peek_token ?lx))) = fst (peek_token ?lx)" by code_simp
  then have "t' = t" using peek took by simp
  have ask_step': "lexer_step lx1 (Asked True) lx1" using ask_step [of lx1] ask by simp
  note step = run_snoc [OF run_snoc [OF run_snoc [OF run_snoc [OF run_Nil
          peek_step [OF peek]] ask_step'] take_step [OF took]] take_step [OF u]]
  have run: "lexer_run ?lx [Peeked t, Asked True, Took t, Took u] lx3"
    using step by (simp only: append_Nil append_Cons \<open>t' = t\<close>)
  from lexer_session_correct [OF run] run show ?thesis by blast
qed

text \<open>
  A token that was looked at is still to come although \<^verbatim>\<open>has_more_tokens\<close> is false.
\<close>

theorem has_more_tokens_misses_peeked:
  "\<not> has_more_tokens (snd (peek_token (new_lexer '';''))) \<and>
   tk_type (fst (next_token (snd (peek_token (new_lexer '';''))))) = T_SEMICOLON"
  by code_simp

end
