(* ===== verification/Ast.thy ===== *)
theory Ast
  imports Lexer
begin

unbundle bit_operations_syntax

text \<open>
  The abstract syntax of \<^verbatim>\<open>compiler/include/ast.hpp\<close> and \<^verbatim>\<open>compiler/source/ast.cpp\<close>: types,
  fields with their modifier byte, enums, models and the schema, with the look-ups by name. The
  class hierarchy (\<^verbatim>\<open>Type\<close>, \<^verbatim>\<open>Declaration\<close>) becomes datatypes, so a \<^verbatim>\<open>dynamic_cast\<close> is a case
  distinction.
\<close>

section \<open>Types\<close>

datatype primitive_type_kind =
    K_INT8 | K_INT16 | K_INT32 | K_INT64 | K_UINT8 | K_UINT16 | K_UINT32 | K_UINT64
  | K_FLOAT | K_DOUBLE | K_BOOL | K_STRING | K_BYTE

datatype ast_type =
    PrimitiveType primitive_type_kind source_location
  | UserType string source_location

fun kind_name :: "primitive_type_kind \<Rightarrow> string" where
  "kind_name K_INT8 = ''int8''"
| "kind_name K_INT16 = ''int16''"
| "kind_name K_INT32 = ''int32''"
| "kind_name K_INT64 = ''int64''"
| "kind_name K_UINT8 = ''uint8''"
| "kind_name K_UINT16 = ''uint16''"
| "kind_name K_UINT32 = ''uint32''"
| "kind_name K_UINT64 = ''uint64''"
| "kind_name K_FLOAT = ''float''"
| "kind_name K_DOUBLE = ''double''"
| "kind_name K_BOOL = ''bool''"
| "kind_name K_STRING = ''string''"
| "kind_name K_BYTE = ''byte''"

fun get_name :: "ast_type \<Rightarrow> string" where
  "get_name (PrimitiveType k l) = kind_name k"
| "get_name (UserType n l) = n"

fun is_primitive :: "ast_type \<Rightarrow> bool" where
  "is_primitive (PrimitiveType k l) = True"
| "is_primitive (UserType n l) = False"

fun token_to_primitive_type :: "token_type \<Rightarrow> primitive_type_kind may_throw" where
  "token_to_primitive_type T_INT8 = Inr K_INT8"
| "token_to_primitive_type T_INT16 = Inr K_INT16"
| "token_to_primitive_type T_INT32 = Inr K_INT32"
| "token_to_primitive_type T_INT64 = Inr K_INT64"
| "token_to_primitive_type T_UINT8 = Inr K_UINT8"
| "token_to_primitive_type T_UINT16 = Inr K_UINT16"
| "token_to_primitive_type T_UINT32 = Inr K_UINT32"
| "token_to_primitive_type T_UINT64 = Inr K_UINT64"
| "token_to_primitive_type T_FLOAT = Inr K_FLOAT"
| "token_to_primitive_type T_DOUBLE = Inr K_DOUBLE"
| "token_to_primitive_type T_BOOL = Inr K_BOOL"
| "token_to_primitive_type T_STRING = Inr K_STRING"
| "token_to_primitive_type T_BYTE = Inr K_BYTE"
| "token_to_primitive_type t = Inl (Runtime_error ''Invalid primitive type token'')"

section \<open>Fields and their modifiers\<close>

type_synonym modifiers = "8 word"

definition MOD_NONE :: modifiers where "MOD_NONE = 0"
definition MOD_OPTIONAL :: modifiers where "MOD_OPTIONAL = push_bit 0 1"
definition MOD_REPEATED :: modifiers where "MOD_REPEATED = push_bit 1 1"
definition MOD_PACKED :: modifiers where "MOD_PACKED = push_bit 2 1"
definition MOD_INTERNED :: modifiers where "MOD_INTERNED = push_bit 3 1"
definition MOD_BITMAP :: modifiers where "MOD_BITMAP = push_bit 4 1"

lemmas mod_defs =
  MOD_NONE_def MOD_OPTIONAL_def MOD_REPEATED_def MOD_PACKED_def MOD_INTERNED_def MOD_BITMAP_def

record field =
  fd_type :: ast_type
  fd_name :: string
  fd_number :: int
  fd_modifiers :: modifiers
  fd_location :: source_location

definition new_field :: "ast_type \<Rightarrow> string \<Rightarrow> int \<Rightarrow> source_location \<Rightarrow> field" where
  "new_field t n num loc =
     \<lparr>fd_type = t, fd_name = n, fd_number = num, fd_modifiers = MOD_NONE, fd_location = loc\<rparr>"

definition add_modifier :: "modifiers \<Rightarrow> field \<Rightarrow> field" where
  "add_modifier m f = f\<lparr>fd_modifiers := fd_modifiers f OR m\<rparr>"

definition has_modifier :: "field \<Rightarrow> modifiers \<Rightarrow> bool" where
  "has_modifier f m \<longleftrightarrow> fd_modifiers f AND m \<noteq> 0"

definition is_optional :: "field \<Rightarrow> bool" where "is_optional f = has_modifier f MOD_OPTIONAL"
definition is_repeated :: "field \<Rightarrow> bool" where "is_repeated f = has_modifier f MOD_REPEATED"
definition is_packed :: "field \<Rightarrow> bool" where "is_packed f = has_modifier f MOD_PACKED"
definition is_interned :: "field \<Rightarrow> bool" where "is_interned f = has_modifier f MOD_INTERNED"
definition is_bitmap :: "field \<Rightarrow> bool" where "is_bitmap f = has_modifier f MOD_BITMAP"

lemmas is_mod_defs =
  is_optional_def is_repeated_def is_packed_def is_interned_def is_bitmap_def

section \<open>Declarations and the schema\<close>

record enum_value =
  ev_name :: string
  ev_value :: int
  ev_location :: source_location

record enum_decl =
  en_name :: string
  en_values :: "enum_value list"
  en_location :: source_location

record model_decl =
  md_name :: string
  md_fields :: "field list"
  md_location :: source_location

datatype decl = EnumDecl enum_decl | ModelDecl model_decl

fun decl_name :: "decl \<Rightarrow> string" where
  "decl_name (EnumDecl e) = en_name e"
| "decl_name (ModelDecl m) = md_name m"

fun decl_location :: "decl \<Rightarrow> source_location" where
  "decl_location (EnumDecl e) = en_location e"
| "decl_location (ModelDecl m) = md_location m"

record schema =
  sc_namespace :: string
  sc_declarations :: "decl list"
  sc_location :: source_location

fun find_enum_in :: "decl list \<Rightarrow> string \<Rightarrow> enum_decl option" where
  "find_enum_in [] name = None"
| "find_enum_in (EnumDecl e # ds) name = (if en_name e = name then Some e else find_enum_in ds name)"
| "find_enum_in (ModelDecl m # ds) name = find_enum_in ds name"

definition find_enum :: "schema \<Rightarrow> string \<Rightarrow> enum_decl option" where
  "find_enum s name = find_enum_in (sc_declarations s) name"

fun find_model_in :: "decl list \<Rightarrow> string \<Rightarrow> model_decl option" where
  "find_model_in [] name = None"
| "find_model_in (EnumDecl e # ds) name = find_model_in ds name"
| "find_model_in (ModelDecl m # ds) name = (if md_name m = name then Some m else find_model_in ds name)"

definition find_model :: "schema \<Rightarrow> string \<Rightarrow> model_decl option" where
  "find_model s name = find_model_in (sc_declarations s) name"

section \<open>Lemmas\<close>

text \<open>A modifier byte and the set of modifiers it stands for.\<close>

datatype modifier = Optional | Repeated | Packed | Interned | Bitmap

fun mod_bit :: "modifier \<Rightarrow> modifiers" where
  "mod_bit Optional = MOD_OPTIONAL"
| "mod_bit Repeated = MOD_REPEATED"
| "mod_bit Packed = MOD_PACKED"
| "mod_bit Interned = MOD_INTERNED"
| "mod_bit Bitmap = MOD_BITMAP"

definition modifier_set :: "modifiers \<Rightarrow> modifier set" where
  "modifier_set w = {m. w AND mod_bit m \<noteq> 0}"

lemma mod_bit_and: "mod_bit m AND mod_bit n \<noteq> 0 \<longleftrightarrow> m = n"
  by (cases m; cases n) (simp_all add: mod_defs)

lemma mod_bit_single: "\<exists>i < 5. mod_bit m = push_bit i 1"
  by (cases m) (auto simp: mod_defs intro: exI [of _ 0] exI [of _ 1] exI [of _ 2] exI [of _ 3]
      exI [of _ 4])

lemma modifier_set_none [simp]: "modifier_set MOD_NONE = {}"
  by (simp add: modifier_set_def MOD_NONE_def)

lemma word_or_and_nonzero: "(a OR b) AND c \<noteq> 0 \<longleftrightarrow> a AND c \<noteq> 0 \<or> b AND c \<noteq> 0"
  for a b c :: "'a::len word"
proof -
  have "(a OR b) AND c = (a AND c) OR (b AND c)" by (rule bit.conj_disj_distrib2)
  then show ?thesis by (simp add: or_eq_0_iff)
qed

lemma modifier_set_or [simp]: "modifier_set (w OR mod_bit m) = insert m (modifier_set w)"
  by (auto simp: modifier_set_def word_or_and_nonzero mod_bit_and)

lemma find_enum_in_Some:
  "find_enum_in ds name = Some e \<Longrightarrow> EnumDecl e \<in> set ds \<and> en_name e = name"
  by (induction ds name rule: find_enum_in.induct) (auto split: if_splits)

lemma find_enum_in_None:
  "find_enum_in ds name = None \<longleftrightarrow> (\<forall>e. EnumDecl e \<in> set ds \<longrightarrow> en_name e \<noteq> name)"
  by (induction ds name rule: find_enum_in.induct) auto

lemma find_model_in_Some:
  "find_model_in ds name = Some m \<Longrightarrow> ModelDecl m \<in> set ds \<and> md_name m = name"
  by (induction ds name rule: find_model_in.induct) (auto split: if_splits)

lemma find_model_in_None:
  "find_model_in ds name = None \<longleftrightarrow> (\<forall>m. ModelDecl m \<in> set ds \<longrightarrow> md_name m \<noteq> name)"
  by (induction ds name rule: find_model_in.induct) auto

end
