(* ===== verification/Parser.thy ===== *)
theory Parser
  imports Ast Lexer_Spec
begin

unbundle bit_operations_syntax

text \<open>
  The recursive-descent parser of \<^verbatim>\<open>compiler/source/parser.cpp\<close>. Its state is the lexer it pulls
  tokens from and the current token; every method is an operation that may throw. The loops end
  because each round consumes a token (\<open>parser_left\<close>, from the lexer's interface
  \<open>token_source\<close>), so all parsing functions are total.
\<close>

section \<open>State and exceptions\<close>

record parser =
  ps_lexer :: lexer
  ps_current :: token

text \<open>
  What a parsing function may throw: the parser's own \<^verbatim>\<open>ParseError\<close> with its location, or an
  exception of the standard library. \<open>Dangling_read\<close> marks a read through a dangling
  \<^verbatim>\<open>string_view\<close>, which has no defined behaviour.
\<close>

datatype parse_exn = ParseError string source_location | Std_exn std_exn | Dangling_read

type_synonym 'a parse = "(parse_exn, parser, 'a) op"

definition new_parser :: "lexer \<Rightarrow> parser" where
  "new_parser lx = (let (t, lx1) = next_token lx in \<lparr>ps_lexer = lx1, ps_current = t\<rparr>)"

definition p_advance :: "unit parse" where
  "p_advance p =
     (let (t, lx) = next_token (ps_lexer p) in Inr ((), p\<lparr>ps_lexer := lx, ps_current := t\<rparr>))"

definition check :: "parser \<Rightarrow> token_type \<Rightarrow> bool" where
  "check p t \<longleftrightarrow> tk_type (ps_current p) = t"

definition parse_error :: "string \<Rightarrow> 'a parse" where
  "parse_error message p =
     (let loc = tk_location (ps_current p)
      in Inl (ParseError
           (''Parse error at line '' @ show_nat (loc_line loc) @ '', column '' @
            show_nat (loc_column loc) @ '': '' @ message) loc))"

definition p_match :: "token_type \<Rightarrow> bool parse" where
  "p_match t p = (if check p t then bindS p_advance (\<lambda>_. retS True) p else Inr (False, p))"

definition consume :: "token_type \<Rightarrow> string \<Rightarrow> token parse" where
  "consume t error_message p =
     (if \<not> check p t then parse_error error_message p
      else let tok = ps_current p in bindS p_advance (\<lambda>_. retS tok) p)"

text \<open>\<^verbatim>\<open>std::string(view)\<close>: copying the characters of a view out of a token.\<close>

definition string_of_view :: "string_view \<Rightarrow> string parse" where
  "string_of_view v p = (case v of View s \<Rightarrow> Inr (s, p) | Dangling \<Rightarrow> Inl Dangling_read)"

definition stoi_view :: "string_view \<Rightarrow> int parse" where
  "stoi_view v = bindS (string_of_view v)
     (\<lambda>s p. case stoi s of Inl e \<Rightarrow> Inl (Std_exn e) | Inr n \<Rightarrow> Inr (n, p))"

definition current_loc :: "source_location parse" where
  "current_loc p = Inr (tk_location (ps_current p), p)"

definition consume_string :: "token_type \<Rightarrow> string \<Rightarrow> string parse" where
  "consume_string t msg = bindS (consume t msg) (\<lambda>tok. string_of_view (tk_value tok))"

definition is_primitive_type :: "token_type \<Rightarrow> bool" where
  "is_primitive_type t \<longleftrightarrow>
     t \<in> {T_INT8, T_INT16, T_INT32, T_INT64, T_UINT8, T_UINT16, T_UINT32, T_UINT64,
          T_FLOAT, T_DOUBLE, T_BOOL, T_STRING, T_BYTE}"

definition is_field_modifier :: "token_type \<Rightarrow> bool" where
  "is_field_modifier t \<longleftrightarrow> t \<in> {T_OPTIONAL, T_REPEATED, T_PACKED, T_INTERNED, T_BITMAP}"

section \<open>Progress of the elementary operations\<close>

definition parser_left :: "parser \<Rightarrow> nat" where
  "parser_left p = lexer_source.ahead (ps_current p) (ps_lexer p)"

text \<open>An operation that, when it returns, has consumed input, or at least not gained any.\<close>

definition consumes :: "'a parse \<Rightarrow> bool" where
  "consumes m \<longleftrightarrow> (\<forall>p x p'. m p = Inr (x, p') \<longrightarrow> parser_left p' < parser_left p)"

definition gains_none :: "'a parse \<Rightarrow> bool" where
  "gains_none m \<longleftrightarrow> (\<forall>p x p'. m p = Inr (x, p') \<longrightarrow> parser_left p' \<le> parser_left p)"

lemma consumesD: "consumes m \<Longrightarrow> m p = Inr (x, p') \<Longrightarrow> parser_left p' < parser_left p"
  by (auto simp: consumes_def)

lemma gains_noneD: "gains_none m \<Longrightarrow> m p = Inr (x, p') \<Longrightarrow> parser_left p' \<le> parser_left p"
  by (auto simp: gains_none_def)

lemma consumes_gains_none [progress]: "consumes m \<Longrightarrow> gains_none m"
  by (auto simp: consumes_def gains_none_def intro: less_imp_le)

lemma consumes_bind1 [progress]:
  "consumes m \<Longrightarrow> (\<And>x. gains_none (f x)) \<Longrightarrow> consumes (bindS m f)"
  by (fastforce simp: consumes_def gains_none_def bindS_eq_Inr)

lemma consumes_bind2 [progress]:
  "gains_none m \<Longrightarrow> (\<And>x. consumes (f x)) \<Longrightarrow> consumes (bindS m f)"
  by (fastforce simp: consumes_def gains_none_def bindS_eq_Inr)

lemma gains_none_bind [progress]:
  "gains_none m \<Longrightarrow> (\<And>x. gains_none (f x)) \<Longrightarrow> gains_none (bindS m f)"
  by (fastforce simp: gains_none_def bindS_eq_Inr)

lemma gains_none_ret [progress]: "gains_none (retS x)"
  by (simp add: gains_none_def)

lemma p_advance_left:
  assumes "p_advance p = Inr (u, p')" and "tk_type (ps_current p) \<noteq> T_END_OF_FILE"
  shows "parser_left p' < parser_left p"
  using assms lexer_source.ahead_decreases [of "ps_current p" "ps_lexer p"]
  by (auto simp: p_advance_def parser_left_def split: prod.splits)

lemma consumes_consume [progress]: "t \<noteq> T_END_OF_FILE \<Longrightarrow> consumes (consume t msg)"
  by (auto simp: consumes_def consume_def check_def bindS_eq_Inr parse_error_def Let_def
      dest!: p_advance_left split: if_splits)

lemma p_match_left:
  "p_match t p = Inr (True, p') \<Longrightarrow> t \<noteq> T_END_OF_FILE \<Longrightarrow> parser_left p' < parser_left p"
  by (auto simp: p_match_def check_def bindS_eq_Inr dest!: p_advance_left split: if_splits)

lemma gains_none_view [progress]: "gains_none (string_of_view v)"
  by (auto simp: gains_none_def string_of_view_def split: string_view.splits)

lemma gains_none_stoi [progress]: "gains_none (stoi_view v)"
  by (auto simp: gains_none_def stoi_view_def bindS_eq_Inr string_of_view_def
      split: string_view.splits sum.splits)

lemma gains_none_loc [progress]: "gains_none current_loc"
  by (simp add: gains_none_def current_loc_def)

lemma consumes_consume_string [progress]: "t \<noteq> T_END_OF_FILE \<Longrightarrow> consumes (consume_string t msg)"
  by (simp add: consume_string_def progress)

lemma bindS_cong [fundef_cong]:
  assumes "s = s'" and "m s' = m' s'" and "\<And>x t. m' s' = Inr (x, t) \<Longrightarrow> f x t = g x t"
  shows "bindS m f s = bindS m' g s'"
  using assms by (auto simp: bindS_def split: sum.splits)

section \<open>The namespace\<close>

function namespace_loop :: "string \<Rightarrow> string parse" where
  "namespace_loop ns_name p =
     bindS (p_match T_DOT)
       (\<lambda>more p1.
          if more
          then bindS (consume_string T_IDENTIFIER (''Expected identifier after '.'' @ sq))
                 (\<lambda>name p2. namespace_loop (ns_name @ ''.'' @ name) p2) p1
          else Inr (ns_name, p1)) p"
  by pat_completeness auto
termination
proof (relation "measure (parser_left \<circ> snd)")
  fix ns_name more name p p1 p2
  assume m: "p_match T_DOT p = Inr (more, p1)" more
    and c: "consume_string T_IDENTIFIER (''Expected identifier after '.'' @ sq) p1 = Inr (name, p2)"
  have "parser_left p1 < parser_left p"
    by (rule p_match_left [of T_DOT]) (use m in simp_all)
  moreover have "parser_left p2 < parser_left p1"
    by (rule consumesD [OF consumes_consume_string c]) simp
  ultimately show "((ns_name @ ''.'' @ name, p2), ns_name, p) \<in> measure (parser_left \<circ> snd)" by simp
qed simp

declare namespace_loop.simps [simp del]

definition parse_namespace :: "schema \<Rightarrow> schema parse" where
  "parse_namespace sch =
     bindS (consume T_NAMESPACE ''Expected 'namespace' at the beginning of file'') (\<lambda>_.
     bindS (consume_string T_IDENTIFIER ''Expected namespace name'') (\<lambda>first.
     bindS (namespace_loop first) (\<lambda>ns_name.
     bindS (consume T_SEMICOLON ''Expected ';' after namespace declaration'') (\<lambda>_.
     retS (sch\<lparr>sc_namespace := ns_name\<rparr>)))))"

section \<open>Enums\<close>

definition parse_enum_value :: "enum_value parse" where
  "parse_enum_value =
     bindS current_loc (\<lambda>value_loc.
     bindS (consume_string T_IDENTIFIER ''Expected enum value name'') (\<lambda>value_name.
     bindS (consume T_EQUALS ''Expected '=' after enum value name'') (\<lambda>_.
     bindS (consume T_NUMBER (''Expected number after '='' @ sq)) (\<lambda>number_token.
     bindS (stoi_view (tk_value number_token)) (\<lambda>value.
     bindS (consume T_SEMICOLON ''Expected ';' after enum value'') (\<lambda>_.
     retS \<lparr>ev_name = value_name, ev_value = value, ev_location = value_loc\<rparr>))))))"

lemma consumes_enum_value [progress]: "consumes parse_enum_value"
  by (simp add: parse_enum_value_def progress)

function enum_values_loop :: "enum_value list \<Rightarrow> enum_value list parse" where
  "enum_values_loop vs p =
     (if check p T_RBRACE \<or> check p T_END_OF_FILE then Inr (vs, p)
      else bindS parse_enum_value (\<lambda>v p1. enum_values_loop (vs @ [v]) p1) p)"
  by pat_completeness auto
termination
  by (relation "measure (parser_left \<circ> snd)")
    (auto dest: consumesD [OF consumes_enum_value])

declare enum_values_loop.simps [simp del]

definition parse_enum :: "enum_decl parse" where
  "parse_enum =
     bindS current_loc (\<lambda>loc.
     bindS (consume T_ENUM (''Expected 'enum'' @ sq)) (\<lambda>_.
     bindS (consume_string T_IDENTIFIER ''Expected enum name'') (\<lambda>name.
     bindS (consume T_LBRACE ''Expected '{' after enum name'') (\<lambda>_.
     bindS (enum_values_loop []) (\<lambda>values.
     bindS (consume T_RBRACE ''Expected '}' after enum body'') (\<lambda>_.
     retS \<lparr>en_name = name, en_values = values, en_location = loc\<rparr>))))))"

section \<open>Models\<close>

definition parse_type :: "ast_type parse" where
  "parse_type p =
     bindS current_loc (\<lambda>loc.
       if is_primitive_type (tk_type (ps_current p)) then
         (case token_to_primitive_type (tk_type (ps_current p)) of
            Inl e \<Rightarrow> (\<lambda>_. Inl (Std_exn e))
          | Inr kind \<Rightarrow> bindS p_advance (\<lambda>_. retS (PrimitiveType kind loc)))
       else if check p T_IDENTIFIER then
         bindS (string_of_view (tk_value (ps_current p))) (\<lambda>name.
         bindS p_advance (\<lambda>_. retS (UserType name loc)))
       else parse_error ''Expected type name'') p"

fun modifier_flag :: "token_type \<Rightarrow> modifiers" where
  "modifier_flag T_OPTIONAL = MOD_OPTIONAL"
| "modifier_flag T_REPEATED = MOD_REPEATED"
| "modifier_flag T_PACKED = MOD_PACKED"
| "modifier_flag T_INTERNED = MOD_INTERNED"
| "modifier_flag T_BITMAP = MOD_BITMAP"
| "modifier_flag _ = MOD_NONE"

function modifiers_loop :: "modifiers \<Rightarrow> modifiers parse" where
  "modifiers_loop modifiers p =
     (if is_field_modifier (tk_type (ps_current p))
      then bindS p_advance
             (\<lambda>_ p1. modifiers_loop (modifiers OR modifier_flag (tk_type (ps_current p))) p1) p
      else Inr (modifiers, p))"
  by pat_completeness auto
termination
  by (relation "measure (parser_left \<circ> snd)")
    (auto simp: is_field_modifier_def dest!: p_advance_left)

declare modifiers_loop.simps [simp del]

definition parse_modifiers :: "modifiers parse" where
  "parse_modifiers = modifiers_loop MOD_NONE"

definition parse_field :: "field parse" where
  "parse_field =
     bindS current_loc (\<lambda>loc.
     bindS parse_modifiers (\<lambda>modifiers.
     bindS parse_type (\<lambda>type.
     bindS (consume_string T_IDENTIFIER ''Expected field name'') (\<lambda>field_name.
     bindS (consume T_EQUALS ''Expected '=' after field name'') (\<lambda>_.
     bindS (consume T_NUMBER ''Expected field number'') (\<lambda>number_token.
     bindS (stoi_view (tk_value number_token)) (\<lambda>field_number.
     bindS (consume T_SEMICOLON ''Expected ';' after field declaration'') (\<lambda>_.
     retS ((new_field type field_name field_number loc)\<lparr>fd_modifiers := modifiers\<rparr>)))))))))"

lemma gains_none_modifiers [progress]: "gains_none (modifiers_loop ms)"
proof -
  have "modifiers_loop ms p = Inr (x, p') \<Longrightarrow> parser_left p' \<le> parser_left p" for x p p'
  proof (induction ms p rule: modifiers_loop.induct)
    case (1 ms p)
    show ?case
    proof (cases "is_field_modifier (tk_type (ps_current p))")
      case True
      then have "tk_type (ps_current p) \<noteq> T_END_OF_FILE" by (auto simp: is_field_modifier_def)
      then show ?thesis
        using 1 True by (subst (asm) (2) modifiers_loop.simps)
          (fastforce simp: bindS_eq_Inr dest: p_advance_left)
    next
      case False
      with 1(2) show ?thesis by (subst (asm) modifiers_loop.simps) simp
    qed
  qed
  then show ?thesis by (simp add: gains_none_def)
qed

lemma consumes_type [progress]: "consumes parse_type"
  by (auto simp: consumes_def parse_type_def bindS_eq_Inr current_loc_def string_of_view_def
      is_primitive_type_def check_def parse_error_def Let_def dest!: p_advance_left
      split: if_splits string_view.splits)

lemma consumes_field [progress]: "consumes parse_field"
  by (simp add: parse_field_def parse_modifiers_def progress)

function fields_loop :: "field list \<Rightarrow> field list parse" where
  "fields_loop fs p =
     (if check p T_RBRACE \<or> check p T_END_OF_FILE then Inr (fs, p)
      else bindS parse_field (\<lambda>f p1. fields_loop (fs @ [f]) p1) p)"
  by pat_completeness auto
termination
  by (relation "measure (parser_left \<circ> snd)") (auto dest: consumesD [OF consumes_field])

declare fields_loop.simps [simp del]

definition parse_model :: "model_decl parse" where
  "parse_model =
     bindS current_loc (\<lambda>loc.
     bindS (consume T_MODEL (''Expected 'model'' @ sq)) (\<lambda>_.
     bindS (consume_string T_IDENTIFIER ''Expected model name'') (\<lambda>name.
     bindS (consume T_LBRACE ''Expected '{' after model name'') (\<lambda>_.
     bindS (fields_loop []) (\<lambda>fields.
     bindS (consume T_RBRACE ''Expected '}' after model body'') (\<lambda>_.
     retS \<lparr>md_name = name, md_fields = fields, md_location = loc\<rparr>))))))"

section \<open>The schema\<close>

definition parse_declaration :: "decl parse" where
  "parse_declaration p =
     (if check p T_ENUM then bindS parse_enum (\<lambda>e. retS (EnumDecl e)) p
      else if check p T_MODEL then bindS parse_model (\<lambda>m. retS (ModelDecl m)) p
      else parse_error ''Expected 'enum' or 'model' declaration'' p)"

lemma gains_none_enum_values [progress]: "gains_none (enum_values_loop vs)"
proof -
  have "enum_values_loop vs p = Inr (x, p') \<Longrightarrow> parser_left p' \<le> parser_left p" for x p p'
  proof (induction vs p rule: enum_values_loop.induct)
    case (1 vs p)
    then show ?case
      by (subst (asm) (2) enum_values_loop.simps)
        (fastforce simp: bindS_eq_Inr dest: consumesD [OF consumes_enum_value] split: if_splits)
  qed
  then show ?thesis by (simp add: gains_none_def)
qed

lemma gains_none_fields [progress]: "gains_none (fields_loop fs)"
proof -
  have "fields_loop fs p = Inr (x, p') \<Longrightarrow> parser_left p' \<le> parser_left p" for x p p'
  proof (induction fs p rule: fields_loop.induct)
    case (1 fs p)
    then show ?case
      by (subst (asm) (2) fields_loop.simps)
        (fastforce simp: bindS_eq_Inr dest: consumesD [OF consumes_field] split: if_splits)
  qed
  then show ?thesis by (simp add: gains_none_def)
qed

lemma consumes_enum [progress]: "consumes parse_enum"
  by (simp add: parse_enum_def progress)

lemma consumes_model [progress]: "consumes parse_model"
  by (simp add: parse_model_def progress)

lemma consumes_declaration [progress]: "consumes parse_declaration"
  using consumesD [OF consumes_enum] consumesD [OF consumes_model]
  by (auto simp: consumes_def parse_declaration_def bindS_eq_Inr parse_error_def Let_def
      split: if_splits)

function declarations_loop :: "schema \<Rightarrow> schema parse" where
  "declarations_loop sch p =
     (if check p T_END_OF_FILE then Inr (sch, p)
      else bindS parse_declaration
             (\<lambda>d p1. declarations_loop (sch\<lparr>sc_declarations := sc_declarations sch @ [d]\<rparr>) p1) p)"
  by pat_completeness auto
termination
  by (relation "measure (parser_left \<circ> snd)") (auto dest: consumesD [OF consumes_declaration])

declare declarations_loop.simps [simp del]

definition parse_schema :: "schema parse" where
  "parse_schema =
     bindS current_loc (\<lambda>loc.
     bindS (parse_namespace \<lparr>sc_namespace = [], sc_declarations = [], sc_location = loc\<rparr>) (\<lambda>sch.
     declarations_loop sch))"

text \<open>\<^verbatim>\<open>Lexer lexer(source); Parser parser(lexer); parser.parse_schema()\<close>.\<close>

definition parse_source :: "string \<Rightarrow> parse_exn + schema" where
  "parse_source source =
     bindR (parse_schema (new_parser (new_lexer source))) (\<lambda>r. Inr (fst r))"

end
