(* ===== verification/Grammar.thy ===== *)
theory Grammar
  imports Parser
begin

unbundle bit_operations_syntax

text \<open>
  The schema language as a grammar over tokens, and the parser's correctness against it: the
  parser succeeds exactly on the token sequences the grammar derives, with exactly the tree the
  derivation builds (\<open>parse_sound\<close>, \<open>parse_complete\<close> and the properties at the end). A parser
  state is abstracted to the tokens it will still see (\<open>pending\<close>).
\<close>

section \<open>The grammar\<close>

definition ident :: "token \<Rightarrow> string \<Rightarrow> bool" where
  "ident t n \<longleftrightarrow> tk_type t = T_IDENTIFIER \<and> tk_value t = View n"

definition number :: "token \<Rightarrow> int \<Rightarrow> bool" where
  "number t v \<longleftrightarrow> tk_type t = T_NUMBER \<and> (\<exists>s. tk_value t = View s \<and> stoi s = Inr v)"

definition modifiers_of :: "token list \<Rightarrow> modifiers" where
  "modifiers_of ms = foldl (\<lambda>w t. w OR modifier_flag (tk_type t)) MOD_NONE ms"

inductive g_type :: "token \<Rightarrow> ast_type \<Rightarrow> bool" where
  g_primitive: "token_to_primitive_type (tk_type t) = Inr k \<Longrightarrow>
     g_type t (PrimitiveType k (tk_location t))"
| g_user: "ident t n \<Longrightarrow> g_type t (UserType n (tk_location t))"

inductive g_enum_value :: "token list \<Rightarrow> enum_value \<Rightarrow> bool" where
  "ident a n \<Longrightarrow> tk_type b = T_EQUALS \<Longrightarrow> number c v \<Longrightarrow> tk_type d = T_SEMICOLON \<Longrightarrow>
   g_enum_value [a, b, c, d] \<lparr>ev_name = n, ev_value = v, ev_location = tk_location a\<rparr>"

inductive g_field :: "token list \<Rightarrow> field \<Rightarrow> bool" where
  "list_all (\<lambda>t. is_field_modifier (tk_type t)) ms \<Longrightarrow> g_type ty T \<Longrightarrow> ident a n \<Longrightarrow>
   tk_type b = T_EQUALS \<Longrightarrow> number c v \<Longrightarrow> tk_type d = T_SEMICOLON \<Longrightarrow>
   g_field (ms @ [ty, a, b, c, d])
     \<lparr>fd_type = T, fd_name = n, fd_number = v, fd_modifiers = modifiers_of ms,
      fd_location = tk_location (hd (ms @ [ty]))\<rparr>"

inductive g_list :: "(token list \<Rightarrow> 'a \<Rightarrow> bool) \<Rightarrow> token list \<Rightarrow> 'a list \<Rightarrow> bool"
  for g :: "token list \<Rightarrow> 'a \<Rightarrow> bool" where
  g_Nil: "g_list g [] []"
| g_Cons: "g ts x \<Longrightarrow> g_list g us xs \<Longrightarrow> g_list g (ts @ us) (x # xs)"

inductive g_decl :: "token list \<Rightarrow> decl \<Rightarrow> bool" where
  g_enum: "tk_type k = T_ENUM \<Longrightarrow> ident a n \<Longrightarrow> tk_type l = T_LBRACE \<Longrightarrow>
     g_list g_enum_value body vs \<Longrightarrow> tk_type r = T_RBRACE \<Longrightarrow>
     g_decl ([k, a, l] @ body @ [r])
       (EnumDecl \<lparr>en_name = n, en_values = vs, en_location = tk_location k\<rparr>)"
| g_model: "tk_type k = T_MODEL \<Longrightarrow> ident a n \<Longrightarrow> tk_type l = T_LBRACE \<Longrightarrow>
     g_list g_field body fs \<Longrightarrow> tk_type r = T_RBRACE \<Longrightarrow>
     g_decl ([k, a, l] @ body @ [r])
       (ModelDecl \<lparr>md_name = n, md_fields = fs, md_location = tk_location k\<rparr>)"

fun dotted :: "string list \<Rightarrow> string" where
  "dotted [] = []"
| "dotted (n # ns) = ''.'' @ n @ dotted ns"

inductive g_dotted :: "token list \<Rightarrow> string \<Rightarrow> bool" where
  "tk_type d = T_DOT \<Longrightarrow> ident a n \<Longrightarrow> g_dotted [d, a] n"

inductive g_schema :: "token list \<Rightarrow> schema \<Rightarrow> bool" where
  "tk_type k = T_NAMESPACE \<Longrightarrow> ident a n \<Longrightarrow> g_list g_dotted dots ns \<Longrightarrow>
   tk_type c = T_SEMICOLON \<Longrightarrow> g_list g_decl body ds \<Longrightarrow>
   g_schema ([k, a] @ dots @ [c] @ body)
     \<lparr>sc_namespace = n @ dotted ns, sc_declarations = ds,
      sc_location = tk_location k\<rparr>"

inductive_cases g_type_E: "g_type t T"
inductive_cases g_enum_value_E: "g_enum_value ts v"
inductive_cases g_field_E: "g_field ts f"
inductive_cases g_list_Nil_E: "g_list g ts []"
inductive_cases g_list_Cons_E: "g_list g ts (x # xs)"
inductive_cases g_decl_E: "g_decl ts d"
inductive_cases g_schema_E: "g_schema ts s"

section \<open>A parser state as the tokens it will see\<close>

definition pending :: "parser \<Rightarrow> token list" where
  "pending p = ps_current p #
     (if tk_type (ps_current p) = T_END_OF_FILE then [] else tokens_from (ps_lexer p))"

lemma pending_nonempty [simp]: "pending p \<noteq> []"
  by (simp add: pending_def)

lemma pending_hd [simp]: "hd (pending p) = ps_current p"
  by (simp add: pending_def)

lemma pending_new [refines]: "pending (new_parser lx) = tokens_from lx"
  by (subst tokens_from.simps) (simp add: pending_def new_parser_def Let_def split: prod.split)

lemma p_advance_total: "\<exists>p'. p_advance p = Inr ((), p')"
  by (simp add: p_advance_def split: prod.split)

lemma p_advance_pending:
  assumes "p_advance p = Inr (u, p')" and "tk_type (ps_current p) \<noteq> T_END_OF_FILE"
  shows "pending p = ps_current p # pending p'"
proof -
  have "new_parser (ps_lexer p) = p'"
    using assms(1) by (auto simp: p_advance_def new_parser_def split: prod.splits)
  then have "pending p' = tokens_from (ps_lexer p)" using pending_new by blast
  with assms(2) show ?thesis by (simp add: pending_def)
qed

text \<open>
  Soundness and completeness of an operation against a grammar symbol. Completeness has a
  condition on the token that follows, where the operation looks at it to stop.
\<close>

definition sound_for :: "'a parse \<Rightarrow> (token list \<Rightarrow> 'a \<Rightarrow> bool) \<Rightarrow> bool" where
  "sound_for m g \<longleftrightarrow>
     (\<forall>p x p'. m p = Inr (x, p') \<longrightarrow> (\<exists>ts. pending p = ts @ pending p' \<and> g ts x))"

definition complete_for ::
  "(token \<Rightarrow> bool) \<Rightarrow> 'a parse \<Rightarrow> (token list \<Rightarrow> 'a \<Rightarrow> bool) \<Rightarrow> bool" where
  "complete_for follow m g \<longleftrightarrow>
     (\<forall>p ts rest x. pending p = ts @ rest \<longrightarrow> rest \<noteq> [] \<longrightarrow> follow (hd rest) \<longrightarrow> g ts x \<longrightarrow>
        (\<exists>p'. m p = Inr (x, p') \<and> pending p' = rest))"

lemma sound_forD: "sound_for m g \<Longrightarrow> m p = Inr (x, p') \<Longrightarrow> \<exists>ts. pending p = ts @ pending p' \<and> g ts x"
  by (auto simp: sound_for_def)

lemma complete_forD:
  "complete_for follow m g \<Longrightarrow> pending p = ts @ rest \<Longrightarrow> rest \<noteq> [] \<Longrightarrow> follow (hd rest) \<Longrightarrow> g ts x \<Longrightarrow>
   \<exists>p'. m p = Inr (x, p') \<and> pending p' = rest"
  by (auto simp: complete_for_def)

section \<open>Elementary operations\<close>

lemma pending_current: "pending p = t # rest \<Longrightarrow> ps_current p = t"
  by (simp add: pending_def)

lemma consume_sound:
  assumes "consume t msg p = Inr (tok, p')" and "t \<noteq> T_END_OF_FILE"
  shows "pending p = tok # pending p' \<and> tk_type tok = t"
  using assms p_advance_pending
  by (fastforce simp: consume_def check_def bindS_eq_Inr parse_error_def Let_def split: if_splits)

lemma advance_complete:
  assumes "pending p = tok # rest" and "tk_type tok \<noteq> T_END_OF_FILE"
  shows "\<exists>p'. p_advance p = Inr ((), p') \<and> pending p' = rest"
proof -
  obtain p' where p': "p_advance p = Inr ((), p')" using p_advance_total by blast
  have "ps_current p = tok" using assms(1) by (rule pending_current)
  then have "pending p = tok # pending p'" using p_advance_pending [OF p'] assms(2) by simp
  with assms(1) p' show ?thesis by simp
qed

lemma consume_complete:
  assumes "pending p = tok # rest" and "tk_type tok = t" and "t \<noteq> T_END_OF_FILE"
  shows "\<exists>p'. consume t msg p = Inr (tok, p') \<and> pending p' = rest"
  using advance_complete [OF assms(1)] assms pending_current [OF assms(1)]
  by (auto simp: consume_def check_def bindS_def retS_def Let_def)

lemma string_of_view_Inr [simp]:
  "string_of_view v p = Inr (s, p') \<longleftrightarrow> v = View s \<and> p' = p"
  by (auto simp: string_of_view_def split: string_view.splits)

lemma stoi_view_Inr [simp]:
  "stoi_view v p = Inr (n, p') \<longleftrightarrow> (\<exists>s. v = View s \<and> stoi s = Inr n) \<and> p' = p"
  by (cases v) (auto simp: stoi_view_def bindS_def string_of_view_def split: sum.splits)

lemma consume_string_sound:
  assumes "consume_string T_IDENTIFIER msg p = Inr (n, p')"
  shows "\<exists>a. pending p = a # pending p' \<and> ident a n"
  using assms consume_sound [of T_IDENTIFIER]
  by (fastforce simp: consume_string_def bindS_eq_Inr ident_def)

lemma consume_string_complete:
  assumes "pending p = a # rest" and "ident a n"
  shows "\<exists>p'. consume_string T_IDENTIFIER msg p = Inr (n, p') \<and> pending p' = rest"
  using consume_complete [OF assms(1), of T_IDENTIFIER msg] assms(2)
  by (auto simp: consume_string_def bindS_def string_of_view_def ident_def)

lemma consume_number_sound:
  assumes "consume T_NUMBER msg p = Inr (c, p1)" and "stoi_view (tk_value c) p1 = Inr (v, p')"
  shows "pending p = c # pending p' \<and> number c v"
  using assms consume_sound [OF assms(1)] by (auto simp: number_def)

lemma current_loc_Inr [simp]:
  "current_loc p = Inr (l, p') \<longleftrightarrow> l = tk_location (ps_current p) \<and> p' = p"
  by (auto simp: current_loc_def)

text \<open>Running one step of a chain of binds forward.\<close>

lemma step_consume:
  assumes "pending p = tok # rest" and "tk_type tok = t" and "t \<noteq> T_END_OF_FILE"
    and "\<And>p1. pending p1 = rest \<Longrightarrow> \<exists>p'. f tok p1 = Inr (x, p') \<and> pending p' = r"
  shows "\<exists>p'. bindS (consume t msg) f p = Inr (x, p') \<and> pending p' = r"
  using consume_complete [OF assms(1-3)] assms(4) bindS_Inr by metis

lemma step_ident:
  assumes "pending p = a # rest" and "ident a n"
    and "\<And>p1. pending p1 = rest \<Longrightarrow> \<exists>p'. f n p1 = Inr (x, p') \<and> pending p' = r"
  shows "\<exists>p'. bindS (consume_string T_IDENTIFIER msg) f p = Inr (x, p') \<and> pending p' = r"
  using consume_string_complete [OF assms(1,2)] assms(3) bindS_Inr by metis

lemma step_number:
  assumes "pending p = c # rest" and "number c v"
    and "\<And>p1. pending p1 = rest \<Longrightarrow> \<exists>p'. f v p1 = Inr (x, p') \<and> pending p' = r"
  shows "\<exists>p'. bindS (consume T_NUMBER msg) (\<lambda>t. bindS (stoi_view (tk_value t)) f) p = Inr (x, p')
    \<and> pending p' = r"
proof (rule step_consume [OF assms(1)])
  show "tk_type c = T_NUMBER" using assms(2) by (simp add: number_def)
  fix p1 assume p1: "pending p1 = rest"
  have "stoi_view (tk_value c) p1 = Inr (v, p1)" using assms(2) by (auto simp: number_def)
  then show "\<exists>p'. bindS (stoi_view (tk_value c)) f p1 = Inr (x, p') \<and> pending p' = r"
    using assms(3) [OF p1] by (simp add: bindS_Inr)
qed simp

lemma step_loc:
  assumes "pending p = t # rest"
    and "\<exists>p'. f (tk_location t) p = Inr (x, p') \<and> pending p' = r"
  shows "\<exists>p'. bindS current_loc f p = Inr (x, p') \<and> pending p' = r"
  using assms pending_current [OF assms(1)] by (simp add: current_loc_def bindS_def)

lemma step_ret: "pending p = r \<Longrightarrow> \<exists>p'. retS x p = Inr (x, p') \<and> pending p' = r"
  by simp

lemma step_sub:
  assumes "complete_for follow m g" and "pending p = ts @ rest" and "rest \<noteq> []"
    and "follow (hd rest)" and "g ts y"
    and "\<And>p1. pending p1 = rest \<Longrightarrow> \<exists>p'. f y p1 = Inr (x, p') \<and> pending p' = r"
  shows "\<exists>p'. bindS m f p = Inr (x, p') \<and> pending p' = r"
  using complete_forD [OF assms(1-5)] assms(6) bindS_Inr by metis

section \<open>Repetition\<close>

text \<open>
  The contract of the parser's loops \<^verbatim>\<open>while (!check(...)) { item }\<close>: the loop stops at a token
  that satisfies \<open>stop\<close>, otherwise parses one item and adds it to what it has.
\<close>

locale repetition =
  fixes loop :: "'b \<Rightarrow> 'b parse"
    and item :: "'a parse"
    and stop :: "token_type \<Rightarrow> bool"
    and add :: "'a \<Rightarrow> 'b \<Rightarrow> 'b"
    and g :: "token list \<Rightarrow> 'a \<Rightarrow> bool"
  assumes loop_unfold: "loop acc p =
      (if stop (tk_type (ps_current p)) then Inr (acc, p)
       else bindS item (\<lambda>x p1. loop (add x acc) p1) p)"
    and item_consumes: "consumes item"
    and item_sound: "sound_for item g"
    and item_complete: "complete_for (\<lambda>_. True) item g"
    and item_start: "g ts x \<Longrightarrow> ts \<noteq> [] \<and> \<not> stop (tk_type (hd ts))"
begin

lemma loop_sound:
  "loop acc p = Inr (acc', p') \<Longrightarrow>
   \<exists>ts xs. pending p = ts @ pending p' \<and> g_list g ts xs \<and> acc' = fold add xs acc \<and>
     stop (tk_type (ps_current p'))"
proof (induction "parser_left p" arbitrary: acc p rule: less_induct)
  case less
  show ?case
  proof (cases "stop (tk_type (ps_current p))")
    case True
    with less.prems show ?thesis
      by (subst (asm) loop_unfold) (auto intro!: exI [of _ "[]"] g_Nil)
  next
    case False
    with less.prems obtain x p1 where x: "item p = Inr (x, p1)" "loop (add x acc) p1 = Inr (acc', p')"
      by (subst (asm) loop_unfold) (auto simp: bindS_eq_Inr)
    from less.hyps [OF consumesD [OF item_consumes x(1)] x(2)] obtain us xs where
      us: "pending p1 = us @ pending p'" "g_list g us xs" "acc' = fold add xs (add x acc)"
        "stop (tk_type (ps_current p'))" by blast
    from sound_forD [OF item_sound x(1)] obtain ts where "pending p = ts @ pending p1" "g ts x"
      by blast
    with us show ?thesis
      by (intro exI [of _ "ts @ us"] exI [of _ "x # xs"]) (auto intro: g_Cons)
  qed
qed

lemma loop_complete:
  "g_list g ts xs \<Longrightarrow> pending p = ts @ rest \<Longrightarrow> rest \<noteq> [] \<Longrightarrow> stop (tk_type (hd rest)) \<Longrightarrow>
   \<exists>p'. loop acc p = Inr (fold add xs acc, p') \<and> pending p' = rest"
proof (induction arbitrary: p acc rule: g_list.induct)
  case g_Nil
  then have "stop (tk_type (ps_current p))" by (metis append_Nil pending_hd)
  with g_Nil show ?case by (subst loop_unfold) simp
next
  case (g_Cons ts x us xs)
  obtain p1 where p1: "item p = Inr (x, p1)" "pending p1 = us @ rest"
    using complete_forD [OF item_complete, of p ts "us @ rest" x] g_Cons by auto
  have "ps_current p = hd ts"
    using g_Cons.prems(1) item_start [OF g_Cons.hyps(1)]
    by (metis append_assoc hd_append2 pending_hd)
  then have "\<not> stop (tk_type (ps_current p))" using item_start [OF g_Cons.hyps(1)] by simp
  then show ?case
    using g_Cons.IH [OF p1(2) g_Cons.prems(2,3), of "add x acc"] p1(1)
    by (subst loop_unfold) (simp add: bindS_Inr)
qed

end

section \<open>Types, modifiers, fields\<close>

lemma primitive_token: "is_primitive_type t \<longleftrightarrow> (\<exists>k. token_to_primitive_type t = Inr k)"
  by (cases t) (simp_all add: is_primitive_type_def)

lemma primitive_token_kinds:
  "token_to_primitive_type t = Inr k \<Longrightarrow> t \<noteq> T_END_OF_FILE \<and> \<not> is_field_modifier t \<and> t \<noteq> T_RBRACE"
  by (cases t) (simp_all add: is_field_modifier_def)

lemma g_type_first: "g_type t T \<Longrightarrow>
  tk_type t \<noteq> T_END_OF_FILE \<and> \<not> is_field_modifier (tk_type t) \<and> tk_type t \<noteq> T_RBRACE"
  by (auto elim!: g_type_E dest: primitive_token_kinds simp: ident_def is_field_modifier_def)

lemma parse_type_sound:
  assumes "parse_type p = Inr (T, p')"
  shows "\<exists>t. pending p = t # pending p' \<and> g_type t T"
proof -
  let ?t = "ps_current p"
  consider (prim) k where "token_to_primitive_type (tk_type ?t) = Inr k"
      "p_advance p = Inr ((), p')" "T = PrimitiveType k (tk_location ?t)"
    | (user) n where "ident ?t n" "p_advance p = Inr ((), p')" "T = UserType n (tk_location ?t)"
    using assms
    by (auto simp: parse_type_def bindS_eq_Inr current_loc_def parse_error_def Let_def check_def
        ident_def primitive_token split: if_splits)
  then show ?thesis
  proof cases
    case prim
    then show ?thesis
      using p_advance_pending [OF prim(2)] primitive_token_kinds [OF prim(1)] g_primitive by blast
  next
    case user
    then show ?thesis
      using p_advance_pending [OF user(2)] g_user by (fastforce simp: ident_def)
  qed
qed

lemma parse_type_complete:
  assumes "pending p = t # rest" and "g_type t T"
  shows "\<exists>p'. parse_type p = Inr (T, p') \<and> pending p' = rest"
  using assms(2) advance_complete [OF assms(1)] pending_current [OF assms(1)] g_type_first
  by (auto elim!: g_type_E simp: parse_type_def bindS_def retS_def current_loc_def primitive_token
      check_def ident_def string_of_view_def)

lemma modifiers_sound:
  "modifiers_loop w p = Inr (w', p') \<Longrightarrow>
   \<exists>ms. pending p = ms @ pending p' \<and> list_all (\<lambda>t. is_field_modifier (tk_type t)) ms \<and>
     w' = foldl (\<lambda>w t. w OR modifier_flag (tk_type t)) w ms"
proof (induction w p rule: modifiers_loop.induct)
  case (1 w p)
  show ?case
  proof (cases "is_field_modifier (tk_type (ps_current p))")
    case False
    with 1(2) show ?thesis
      by (subst (asm) modifiers_loop.simps) (auto intro: exI [of _ "[]"])
  next
    case True
    with 1(2) obtain p1 where p1: "p_advance p = Inr ((), p1)"
      "modifiers_loop (w OR modifier_flag (tk_type (ps_current p))) p1 = Inr (w', p')"
      by (subst (asm) modifiers_loop.simps) (auto simp: bindS_eq_Inr)
    have "pending p = ps_current p # pending p1"
      using p_advance_pending [OF p1(1)] True by (auto simp: is_field_modifier_def)
    moreover obtain ms where "pending p1 = ms @ pending p'"
      "list_all (\<lambda>t. is_field_modifier (tk_type t)) ms"
      "w' = foldl (\<lambda>w t. w OR modifier_flag (tk_type t))
        (w OR modifier_flag (tk_type (ps_current p))) ms"
      using 1(1) [OF True p1] by blast
    ultimately show ?thesis
      using True by (intro exI [of _ "ps_current p # ms"]) simp
  qed
qed

lemma modifiers_complete:
  "pending p = ms @ rest \<Longrightarrow> rest \<noteq> [] \<Longrightarrow> \<not> is_field_modifier (tk_type (hd rest)) \<Longrightarrow>
   list_all (\<lambda>t. is_field_modifier (tk_type t)) ms \<Longrightarrow>
   \<exists>p'. modifiers_loop w p = Inr (foldl (\<lambda>w t. w OR modifier_flag (tk_type t)) w ms, p') \<and>
     pending p' = rest"
proof (induction ms arbitrary: w p)
  case Nil
  then have "\<not> is_field_modifier (tk_type (ps_current p))" by (metis append_Nil pending_hd)
  with Nil show ?case by (subst modifiers_loop.simps) simp
next
  case (Cons m ms)
  have m: "ps_current p = m" "is_field_modifier (tk_type m)"
    using Cons.prems(1,4) pending_current [of p m] by auto
  then obtain p1 where "p_advance p = Inr ((), p1)" "pending p1 = ms @ rest"
    using advance_complete [of p m "ms @ rest"] Cons.prems(1)
    by (auto simp: is_field_modifier_def)
  with Cons m show ?case by (subst modifiers_loop.simps) (simp add: bindS_Inr)
qed

lemma enum_value_sound: "sound_for parse_enum_value g_enum_value"
  unfolding sound_for_def parse_enum_value_def
  by (auto simp: bindS_eq_Inr number_def pending_current intro!: g_enum_value.intros
      dest!: consume_sound consume_string_sound)

lemma enum_value_complete: "complete_for (\<lambda>_. True) parse_enum_value g_enum_value"
  unfolding complete_for_def parse_enum_value_def
  by (auto elim!: g_enum_value_E intro!: step_loc step_ident step_consume step_number step_ret)

lemma field_sound: "sound_for parse_field g_field"
proof -
  have "\<exists>ts. pending p = ts @ pending p' \<and> g_field ts f" if "parse_field p = Inr (f, p')" for p f p'
  proof -
    from that obtain p1 p2 p3 p4 p5 w T n eq c v sc where
      ops: "modifiers_loop MOD_NONE p = Inr (w, p1)" "parse_type p1 = Inr (T, p2)"
        "consume_string T_IDENTIFIER ''Expected field name'' p2 = Inr (n, p3)"
        "consume T_EQUALS ''Expected '=' after field name'' p3 = Inr (eq, p4)"
        "consume T_NUMBER ''Expected field number'' p4 = Inr (c, p5)"
        "stoi_view (tk_value c) p5 = Inr (v, p5)"
        "consume T_SEMICOLON ''Expected ';' after field declaration'' p5 = Inr (sc, p')"
      and f: "f = (new_field T n v (tk_location (ps_current p)))\<lparr>fd_modifiers := w\<rparr>"
      by (auto simp: parse_field_def parse_modifiers_def bindS_eq_Inr)
    from modifiers_sound [OF ops(1)] parse_type_sound [OF ops(2)] consume_string_sound [OF ops(3)]
      consume_sound [OF ops(4)] consume_number_sound [OF ops(5,6)] consume_sound [OF ops(7)]
    obtain ms ty a where
      toks: "pending p = (ms @ [ty, a, eq, c, sc]) @ pending p'"
        "list_all (\<lambda>t. is_field_modifier (tk_type t)) ms" "w = modifiers_of ms" "g_type ty T"
        "ident a n" "tk_type eq = T_EQUALS" "number c v" "tk_type sc = T_SEMICOLON"
      by (auto simp: modifiers_of_def)
    have "ps_current p = hd (ms @ [ty])"
      using toks(1) by (cases ms) (auto dest: pending_current)
    then have "f = \<lparr>fd_type = T, fd_name = n, fd_number = v, fd_modifiers = modifiers_of ms,
        fd_location = tk_location (hd (ms @ [ty]))\<rparr>"
      by (simp add: f new_field_def toks(3))
    with toks show ?thesis using g_field.intros by blast
  qed
  then show ?thesis by (simp add: sound_for_def)
qed

lemma field_complete: "complete_for (\<lambda>_. True) parse_field g_field"
proof -
  have "\<exists>p'. parse_field p = Inr (f, p') \<and> pending p' = rest"
    if pend: "pending p = ts @ rest" and g: "g_field ts f" for p ts rest f
  proof -
    from g obtain ms ty T a n b c v d where
      toks: "ts = ms @ [ty, a, b, c, d]" "list_all (\<lambda>t. is_field_modifier (tk_type t)) ms"
        "g_type ty T" "ident a n" "tk_type b = T_EQUALS" "number c v" "tk_type d = T_SEMICOLON"
      and f: "f = \<lparr>fd_type = T, fd_name = n, fd_number = v, fd_modifiers = modifiers_of ms,
        fd_location = tk_location (hd (ms @ [ty]))\<rparr>"
      by (auto elim!: g_field_E)
    have cur: "ps_current p = hd (ms @ [ty])"
      using pend toks(1) by (cases ms) (auto dest: pending_current)
    obtain p1 where p1: "modifiers_loop MOD_NONE p = Inr (modifiers_of ms, p1)"
      "pending p1 = ty # a # b # c # d # rest"
      using modifiers_complete [of p ms "ty # a # b # c # d # rest" MOD_NONE] pend toks(1,2)
        g_type_first [OF toks(3)] by (auto simp: modifiers_of_def)
    obtain p2 where p2: "parse_type p1 = Inr (T, p2)" "pending p2 = a # b # c # d # rest"
      using parse_type_complete [OF p1(2) toks(3)] by blast
    have fld: "f = (new_field T n v (tk_location (ps_current p)))\<lparr>fd_modifiers := modifiers_of ms\<rparr>"
      by (simp add: f cur new_field_def)
    have loc: "current_loc p = Inr (tk_location (ps_current p), p)" by simp
    show ?thesis
      unfolding parse_field_def parse_modifiers_def fld bindS_Inr [of current_loc, OF loc]
        bindS_Inr [of "modifiers_loop MOD_NONE", OF p1(1)] bindS_Inr [of parse_type, OF p2(1)]
      by (rule step_ident [OF p2(2) toks(4)], rule step_consume [OF _ toks(5)], assumption, simp,
          rule step_number [OF _ toks(6)], assumption, rule step_consume [OF _ toks(7)], assumption,
          simp, erule step_ret)
  qed
  then show ?thesis by (simp add: complete_for_def)
qed

section \<open>Declarations and the schema\<close>

lemma fold_snoc: "fold (\<lambda>x acc. acc @ [x]) xs acc = acc @ xs"
  by (induction xs arbitrary: acc) auto

lemma g_field_first:
  assumes "g_field ts f"
  shows "ts \<noteq> [] \<and> tk_type (hd ts) \<noteq> T_RBRACE \<and> tk_type (hd ts) \<noteq> T_END_OF_FILE"
proof -
  from assms obtain ms ty T us where "ts = ms @ ty # us" "g_type ty T"
    "list_all (\<lambda>t. is_field_modifier (tk_type t)) ms"
    by (auto elim!: g_field_E)
  then show ?thesis
    using g_type_first [of ty T] by (cases ms) (auto simp: is_field_modifier_def)
qed

definition body_end :: "token_type \<Rightarrow> bool" where
  "body_end t \<longleftrightarrow> t = T_RBRACE \<or> t = T_END_OF_FILE"

interpretation enum_values: repetition enum_values_loop parse_enum_value body_end
  "\<lambda>v vs. vs @ [v]" g_enum_value
proof
  show "enum_values_loop acc p =
      (if body_end (tk_type (ps_current p)) then Inr (acc, p)
       else bindS parse_enum_value (\<lambda>x p1. enum_values_loop (acc @ [x]) p1) p)" for acc p
    by (subst enum_values_loop.simps) (simp add: check_def body_end_def)
  show "g_enum_value ts x \<Longrightarrow> ts \<noteq> [] \<and> \<not> body_end (tk_type (hd ts))" for ts x
    by (auto elim!: g_enum_value_E simp: ident_def body_end_def)
qed (fact consumes_enum_value enum_value_sound enum_value_complete)+

interpretation model_fields: repetition fields_loop parse_field body_end
  "\<lambda>f fs. fs @ [f]" g_field
proof
  show "fields_loop acc p =
      (if body_end (tk_type (ps_current p)) then Inr (acc, p)
       else bindS parse_field (\<lambda>x p1. fields_loop (acc @ [x]) p1) p)" for acc p
    by (subst fields_loop.simps) (simp add: check_def body_end_def)
  show "g_field ts x \<Longrightarrow> ts \<noteq> [] \<and> \<not> body_end (tk_type (hd ts))" for ts x
    using g_field_first by (simp add: body_end_def)
qed (fact consumes_field field_sound field_complete)+

lemma declaration_sound: "sound_for parse_declaration g_decl"
proof -
  have en: "\<exists>ts. pending p = ts @ pending p' \<and> g_decl ts (EnumDecl e)"
    if op: "parse_enum p = Inr (e, p')" for p e p'
  proof -
    from op obtain k p1 n p2 l p3 vs p4 r where
      ops: "consume T_ENUM (''Expected 'enum'' @ sq) p = Inr (k, p1)"
        "consume_string T_IDENTIFIER ''Expected enum name'' p1 = Inr (n, p2)"
        "consume T_LBRACE ''Expected '{' after enum name'' p2 = Inr (l, p3)"
        "enum_values_loop [] p3 = Inr (vs, p4)"
        "consume T_RBRACE ''Expected '}' after enum body'' p4 = Inr (r, p')"
      and e: "e = \<lparr>en_name = n, en_values = vs, en_location = tk_location (ps_current p)\<rparr>"
      by (auto simp: parse_enum_def bindS_eq_Inr)
    from consume_sound [OF ops(1)] consume_string_sound [OF ops(2)] consume_sound [OF ops(3)]
      enum_values.loop_sound [OF ops(4)] consume_sound [OF ops(5)]
    obtain a body where "pending p = ([k, a, l] @ body @ [r]) @ pending p'"
      "tk_type k = T_ENUM" "ident a n" "tk_type l = T_LBRACE" "g_list g_enum_value body vs"
      "tk_type r = T_RBRACE"
      by (auto simp: fold_snoc)
    then show ?thesis using e g_enum pending_current [of p k] by fastforce
  qed
  have md: "\<exists>ts. pending p = ts @ pending p' \<and> g_decl ts (ModelDecl m)"
    if op: "parse_model p = Inr (m, p')" for p m p'
  proof -
    from op obtain k p1 n p2 l p3 fs p4 r where
      ops: "consume T_MODEL (''Expected 'model'' @ sq) p = Inr (k, p1)"
        "consume_string T_IDENTIFIER ''Expected model name'' p1 = Inr (n, p2)"
        "consume T_LBRACE ''Expected '{' after model name'' p2 = Inr (l, p3)"
        "fields_loop [] p3 = Inr (fs, p4)"
        "consume T_RBRACE ''Expected '}' after model body'' p4 = Inr (r, p')"
      and m: "m = \<lparr>md_name = n, md_fields = fs, md_location = tk_location (ps_current p)\<rparr>"
      by (auto simp: parse_model_def bindS_eq_Inr)
    from consume_sound [OF ops(1)] consume_string_sound [OF ops(2)] consume_sound [OF ops(3)]
      model_fields.loop_sound [OF ops(4)] consume_sound [OF ops(5)]
    obtain a body where "pending p = ([k, a, l] @ body @ [r]) @ pending p'"
      "tk_type k = T_MODEL" "ident a n" "tk_type l = T_LBRACE" "g_list g_field body fs"
      "tk_type r = T_RBRACE"
      by (auto simp: fold_snoc)
    then show ?thesis using m g_model pending_current [of p k] by fastforce
  qed
  show ?thesis
    using en md
    by (auto simp: sound_for_def parse_declaration_def bindS_eq_Inr parse_error_def Let_def
        split: if_splits)
qed

lemma enum_complete:
  assumes "pending p = [k, a, l] @ body @ [r] @ rest" and "tk_type k = T_ENUM" and "ident a n"
    and "tk_type l = T_LBRACE" and "g_list g_enum_value body vs" and "tk_type r = T_RBRACE"
  shows "\<exists>p'. parse_enum p = Inr (\<lparr>en_name = n, en_values = vs, en_location = tk_location k\<rparr>, p') \<and>
    pending p' = rest"
proof -
  have body: "\<exists>p'. bindS (enum_values_loop []) f p1 = Inr (x, p') \<and> pending p' = rest"
    if "pending p1 = body @ r # rest"
      "\<And>p2. pending p2 = r # rest \<Longrightarrow> \<exists>p'. f vs p2 = Inr (x, p') \<and> pending p' = rest"
    for p1 and x :: enum_decl and f
    using enum_values.loop_complete [OF assms(5) that(1), of "[]"] assms(6) that(2)
    by (auto simp: fold_snoc body_end_def bindS_Inr)
  have pend: "pending p = k # a # l # body @ r # rest" using assms(1) by simp
  show ?thesis
    unfolding parse_enum_def
    by (rule step_loc [OF pend], rule step_consume [OF pend assms(2)], simp,
        rule step_ident [OF _ assms(3)], assumption, rule step_consume [OF _ assms(4)], assumption,
        simp, erule body, rule step_consume [OF _ assms(6)], assumption, simp, erule step_ret)
qed

lemma model_complete:
  assumes "pending p = [k, a, l] @ body @ [r] @ rest" and "tk_type k = T_MODEL" and "ident a n"
    and "tk_type l = T_LBRACE" and "g_list g_field body fs" and "tk_type r = T_RBRACE"
  shows "\<exists>p'. parse_model p = Inr (\<lparr>md_name = n, md_fields = fs, md_location = tk_location k\<rparr>, p') \<and>
    pending p' = rest"
proof -
  have body: "\<exists>p'. bindS (fields_loop []) f p1 = Inr (x, p') \<and> pending p' = rest"
    if "pending p1 = body @ r # rest"
      "\<And>p2. pending p2 = r # rest \<Longrightarrow> \<exists>p'. f fs p2 = Inr (x, p') \<and> pending p' = rest"
    for p1 and x :: model_decl and f
    using model_fields.loop_complete [OF assms(5) that(1), of "[]"] assms(6) that(2)
    by (auto simp: fold_snoc body_end_def bindS_Inr)
  have pend: "pending p = k # a # l # body @ r # rest" using assms(1) by simp
  show ?thesis
    unfolding parse_model_def
    by (rule step_loc [OF pend], rule step_consume [OF pend assms(2)], simp,
        rule step_ident [OF _ assms(3)], assumption, rule step_consume [OF _ assms(4)], assumption,
        simp, erule body, rule step_consume [OF _ assms(6)], assumption, simp, erule step_ret)
qed

lemma declaration_complete: "complete_for (\<lambda>_. True) parse_declaration g_decl"
proof -
  have "\<exists>p'. parse_declaration p = Inr (d, p') \<and> pending p' = rest"
    if pend: "pending p = ts @ rest" and g: "g_decl ts d" for p ts rest d
    using g
  proof (cases rule: g_decl.cases)
    case (g_enum k a n l body vs r)
    with pend have "pending p = [k, a, l] @ body @ [r] @ rest" by simp
    from enum_complete [OF this g_enum(3-7)] pending_current [of p k] g_enum pend show ?thesis
      by (auto simp: parse_declaration_def check_def bindS_Inr)
  next
    case (g_model k a n l body fs r)
    with pend have "pending p = [k, a, l] @ body @ [r] @ rest" by simp
    from model_complete [OF this g_model(3-7)] pending_current [of p k] g_model pend show ?thesis
      by (auto simp: parse_declaration_def check_def bindS_Inr)
  qed
  then show ?thesis by (simp add: complete_for_def)
qed

definition add_decl :: "decl \<Rightarrow> schema \<Rightarrow> schema" where
  "add_decl d sch = sch\<lparr>sc_declarations := sc_declarations sch @ [d]\<rparr>"

lemma fold_add_decl:
  "fold add_decl ds sch = sch\<lparr>sc_declarations := sc_declarations sch @ ds\<rparr>"
  by (induction ds arbitrary: sch) (auto simp: add_decl_def)

interpretation schema_decls: repetition declarations_loop parse_declaration
  "\<lambda>t. t = T_END_OF_FILE" add_decl g_decl
proof
  show "declarations_loop acc p =
      (if tk_type (ps_current p) = T_END_OF_FILE then Inr (acc, p)
       else bindS parse_declaration (\<lambda>x p1. declarations_loop (add_decl x acc) p1) p)" for acc p
    by (subst declarations_loop.simps) (simp add: check_def add_decl_def)
  show "g_decl ts x \<Longrightarrow> ts \<noteq> [] \<and> tk_type (hd ts) \<noteq> T_END_OF_FILE" for ts x
    by (auto elim!: g_decl_E)
qed (fact consumes_declaration declaration_sound declaration_complete)+

lemma namespace_loop_sound:
  "namespace_loop n p = Inr (m, p') \<Longrightarrow>
   \<exists>ts ns. pending p = ts @ pending p' \<and> g_list g_dotted ts ns \<and>
     m = n @ dotted ns"
proof (induction n p rule: namespace_loop.induct)
  case (1 n p)
  from 1(2) consider (stop) "\<not> check p T_DOT" "m = n" "p' = p"
    | (more) p1 x p2 where "check p T_DOT" "p_advance p = Inr ((), p1)"
        "consume_string T_IDENTIFIER (''Expected identifier after '.'' @ sq) p1 = Inr (x, p2)"
        "namespace_loop (n @ ''.'' @ x) p2 = Inr (m, p')"
    by (subst (asm) namespace_loop.simps)
      (auto simp: bindS_eq_Inr p_match_def split: if_splits)
  then show ?case
  proof cases
    case stop
    then show ?thesis by (intro exI [of _ "[]"]) (auto intro: g_Nil)
  next
    case more
    have m: "p_match T_DOT p = Inr (True, p1)"
      using more(1,2) by (simp add: p_match_def bindS_Inr retS_def)
    obtain us ns where us: "pending p2 = us @ pending p'" "g_list g_dotted us ns"
      "m = (n @ ''.'' @ x) @ dotted ns"
      using 1(1) [OF m _ more(3,4)] by blast
    obtain a where a: "pending p1 = a # pending p2" "ident a x"
      using consume_string_sound [OF more(3)] by blast
    let ?d = "ps_current p"
    have d: "tk_type ?d = T_DOT" "pending p = ?d # pending p1"
      using more(1) p_advance_pending [OF more(2)] by (auto simp: check_def)
    have "g_list g_dotted ([?d, a] @ us) (x # ns)"
      using g_dotted.intros [OF d(1) a(2)] us(2) by (rule g_Cons)
    with us a d show ?thesis
      by (intro exI [of _ "[?d, a] @ us"] exI [of _ "x # ns"]) simp
  qed
qed

lemma namespace_loop_complete:
  "g_list g_dotted ts ns \<Longrightarrow> pending p = ts @ rest \<Longrightarrow> rest \<noteq> [] \<Longrightarrow> tk_type (hd rest) \<noteq> T_DOT \<Longrightarrow>
   \<exists>p'. namespace_loop n p = Inr (n @ dotted ns, p') \<and> pending p' = rest"
proof (induction arbitrary: p n rule: g_list.induct)
  case g_Nil
  then have "\<not> check p T_DOT" by (metis append_Nil pending_hd check_def)
  with g_Nil show ?case
    by (subst namespace_loop.simps) (simp add: p_match_def bindS_def)
next
  case (g_Cons ts x us ns)
  then obtain d a where da: "ts = [d, a]" "tk_type d = T_DOT" "ident a x"
    by (auto elim: g_dotted.cases)
  with g_Cons.prems have pend: "pending p = d # a # us @ rest" by simp
  obtain p1 where p1: "p_advance p = Inr ((), p1)" "pending p1 = a # us @ rest"
    using advance_complete [OF pend] da(2) by auto
  obtain p2 where p2: "consume_string T_IDENTIFIER (''Expected identifier after '.'' @ sq) p1
      = Inr (x, p2)" "pending p2 = us @ rest"
    using consume_string_complete [OF p1(2) da(3)] by blast
  have "p_match T_DOT p = Inr (True, p1)"
    using p1(1) da(2) pending_current [OF pend] by (simp add: p_match_def check_def bindS_Inr retS_def)
  then show ?case
    using g_Cons.IH [OF p2(2) g_Cons.prems(2,3), of "n @ ''.'' @ x"] p2(1)
    by (subst namespace_loop.simps) (simp add: bindS_Inr)
qed

lemma parse_schema_sound:
  assumes "parse_schema p = Inr (sch, p')"
  shows "\<exists>ts. pending p = ts @ pending p' \<and> g_schema ts sch \<and> tk_type (ps_current p') = T_END_OF_FILE"
proof -
  let ?init = "\<lparr>sc_namespace = [], sc_declarations = [], sc_location = tk_location (ps_current p)\<rparr>"
  from assms obtain k p1 n p2 m p3 c p4 where
    ops: "consume T_NAMESPACE ''Expected 'namespace' at the beginning of file'' p = Inr (k, p1)"
      "consume_string T_IDENTIFIER ''Expected namespace name'' p1 = Inr (n, p2)"
      "namespace_loop n p2 = Inr (m, p3)"
      "consume T_SEMICOLON ''Expected ';' after namespace declaration'' p3 = Inr (c, p4)"
      "declarations_loop (?init\<lparr>sc_namespace := m\<rparr>) p4 = Inr (sch, p')"
    by (auto simp: parse_schema_def parse_namespace_def bindS_eq_Inr)
  from consume_sound [OF ops(1)] consume_string_sound [OF ops(2)] namespace_loop_sound [OF ops(3)]
    consume_sound [OF ops(4)] schema_decls.loop_sound [OF ops(5)]
  obtain a dots ns body ds where
    toks: "pending p = ([k, a] @ dots @ [c] @ body) @ pending p'" "tk_type k = T_NAMESPACE"
      "ident a n" "g_list g_dotted dots ns" "m = n @ dotted ns" "tk_type c = T_SEMICOLON"
      "g_list g_decl body ds" "sch = fold add_decl ds (?init\<lparr>sc_namespace := m\<rparr>)"
      "tk_type (ps_current p') = T_END_OF_FILE"
    by auto
  have "ps_current p = k" using toks(1) pending_current [of p k] by simp
  with toks(5,8) have "sch = \<lparr>sc_namespace = n @ dotted ns, sc_declarations = ds,
      sc_location = tk_location k\<rparr>"
    by (simp add: fold_add_decl)
  then have "g_schema ([k, a] @ dots @ [c] @ body) sch"
    using g_schema.intros [OF toks(2-4,6,7)] by simp
  with toks(1,9) show ?thesis by blast
qed

lemma parse_schema_complete:
  assumes "pending p = ts @ [e]" and "tk_type e = T_END_OF_FILE" and "g_schema ts sch"
  shows "\<exists>p'. parse_schema p = Inr (sch, p') \<and> pending p' = [e]"
proof -
  from assms(3) obtain k a n dots ns c body ds where
    g: "ts = [k, a] @ dots @ [c] @ body" "tk_type k = T_NAMESPACE" "ident a n"
      "g_list g_dotted dots ns" "tk_type c = T_SEMICOLON" "g_list g_decl body ds"
      "sch = \<lparr>sc_namespace = n @ dotted ns, sc_declarations = ds, sc_location = tk_location k\<rparr>"
    by (auto elim: g_schema_E)
  let ?init = "\<lparr>sc_namespace = [], sc_declarations = [], sc_location = tk_location k\<rparr>"
  have pend: "pending p = k # a # dots @ c # body @ [e]" using assms(1) g(1) by simp
  have dots: "\<exists>p'. bindS (namespace_loop n) f p1 = Inr (x, p') \<and> pending p' = body @ [e]"
    if "pending p1 = dots @ c # body @ [e]"
      "\<And>p2. pending p2 = c # body @ [e] \<Longrightarrow>
         \<exists>p'. f (n @ dotted ns) p2 = Inr (x, p') \<and> pending p' = body @ [e]"
    for p1 and x :: schema and f
    using namespace_loop_complete [OF g(4) that(1), of n] g(5) that(2) by (auto simp: bindS_Inr)
  have "\<exists>p1. parse_namespace ?init p = Inr (?init\<lparr>sc_namespace := n @ dotted ns\<rparr>, p1) \<and>
      pending p1 = body @ [e]"
    unfolding parse_namespace_def
    by (rule step_consume [OF pend g(2)], simp, rule step_ident [OF _ g(3)], assumption, erule dots,
        rule step_consume [OF _ g(5)], assumption, simp, erule step_ret)
  then obtain p1 where p1: "parse_namespace ?init p = Inr (?init\<lparr>sc_namespace := n @ dotted ns\<rparr>, p1)"
    "pending p1 = body @ [e]" by blast
  obtain p2 where "declarations_loop (?init\<lparr>sc_namespace := n @ dotted ns\<rparr>) p1 = Inr (sch, p2)"
    "pending p2 = [e]"
    using schema_decls.loop_complete [OF g(6) p1(2), of "?init\<lparr>sc_namespace := n @ dotted ns\<rparr>"]
      assms(2) g(7) by (auto simp: fold_add_decl)
  moreover have "ps_current p = k" using pend by (rule pending_current)
  ultimately show ?thesis
    using p1(1) by (simp add: parse_schema_def current_loc_def bindS_def)
qed

lemma tokens_from_shape:
  "\<exists>ts e. tokens_from lx = ts @ [e] \<and> tk_type e = T_END_OF_FILE \<and>
     (\<forall>t \<in> set ts. tk_type t \<noteq> T_END_OF_FILE)"
proof (induction lx rule: tokens_from.induct)
  case (1 lx)
  show ?case
  proof (cases "tk_type (fst (next_token lx)) = T_END_OF_FILE")
    case True
    then show ?thesis
      by (subst tokens_from.simps) (auto simp: Let_def intro: exI [of _ "[]"])
  next
    case False
    then obtain ts e where "tokens_from (snd (next_token lx)) = ts @ [e]"
      "tk_type e = T_END_OF_FILE" "\<forall>t \<in> set ts. tk_type t \<noteq> T_END_OF_FILE"
      using 1 by blast
    with False show ?thesis
      by (subst tokens_from.simps)
        (auto simp: Let_def intro!: exI [of _ "fst (next_token lx) # ts"])
  qed
qed

lemma tokens_from_last:
  "tokens_from lx = ts @ [e] \<Longrightarrow> tk_type e = T_END_OF_FILE"
  using tokens_from_shape [of lx] by auto

lemma parse_source_iff:
  "parse_source s = Inr sch \<longleftrightarrow> (\<exists>ts e. tokens_from (new_lexer s) = ts @ [e] \<and> g_schema ts sch)"
proof -
  let ?p = "new_parser (new_lexer s)"
  have pend: "pending ?p = tokens_from (new_lexer s)" by (rule pending_new)
  have res: "parse_source s = Inr sch \<longleftrightarrow> (\<exists>p'. parse_schema ?p = Inr (sch, p'))"
    by (auto simp: parse_source_def bindR_eq_Inr)
  show ?thesis
  proof
    assume "parse_source s = Inr sch"
    then obtain p' where "parse_schema ?p = Inr (sch, p')" using res by blast
    from parse_schema_sound [OF this] obtain ts where
      ts: "pending ?p = ts @ pending p'" "g_schema ts sch" "tk_type (ps_current p') = T_END_OF_FILE"
      by blast
    then have "pending p' = [ps_current p']" by (simp add: pending_def)
    with ts pend show "\<exists>ts e. tokens_from (new_lexer s) = ts @ [e] \<and> g_schema ts sch" by metis
  next
    assume "\<exists>ts e. tokens_from (new_lexer s) = ts @ [e] \<and> g_schema ts sch"
    then obtain ts e where "pending ?p = ts @ [e]" "tk_type e = T_END_OF_FILE" "g_schema ts sch"
      using pend tokens_from_last by metis
    from parse_schema_complete [OF this] show "parse_source s = Inr sch" using res by blast
  qed
qed

end
