(* ===== verification/Parser_Spec.thy ===== *)
theory Parser_Spec
  imports Grammar
begin

unbundle bit_operations_syntax

text \<open>
  What can go wrong while parsing and what comes out of it: the exceptions a source text can
  raise, the well-formedness every parsed schema has (\<open>wf_schema\<close>: identifiers, numbers in the
  range of an \<^verbatim>\<open>int\<close>, modifier bytes), and a printer for schemas that parsing inverts.
\<close>

section \<open>Tokens as the lexer delivers them\<close>

definition ident_name :: "string \<Rightarrow> bool" where
  "ident_name n \<longleftrightarrow> is_word n \<and> keyword_or_identifier n = T_IDENTIFIER"

definition good_token :: "token \<Rightarrow> bool" where
  "good_token t \<longleftrightarrow>
     (tk_type t = T_IDENTIFIER \<longrightarrow> (\<exists>n. tk_value t = View n \<and> ident_name n)) \<and>
     (tk_type t = T_NUMBER \<longrightarrow> (\<exists>s. tk_value t = View s \<and> is_number_word s))"

lemma keyword_not_number: "keyword_or_identifier w \<noteq> T_NUMBER"
  by (auto simp: keyword_or_identifier_def keyword_table_def split: option.splits if_splits)

lemma symbol_type_kinds: "symbol_type c \<noteq> Some T_IDENTIFIER" "symbol_type c \<noteq> Some T_NUMBER"
  by (simp_all add: symbol_type_def)

lemma takeWhile_list_all: "list_all p (takeWhile p xs)"
  by (induction xs) auto

lemma good_lex_text: "good_token (at_location s (fst (lex_text r)))"
proof (cases "skip_text r")
  case Nil
  then show ?thesis by (simp add: lex_text_def good_token_def)
next
  case (Cons c cs)
  have word: "is_identifier_start c \<Longrightarrow> is_word (takeWhile is_identifier_continue (c # cs))"
    by (auto simp: is_word_def is_identifier_start_def is_identifier_continue_def isalnum_def
        takeWhile_list_all)
  have num: "isdigit c \<Longrightarrow> is_number_word (takeWhile isdigit (c # cs))"
    using is_digit_classes(4) by (auto simp: is_number_word_def takeWhile_list_all)
  have neg: "cs \<noteq> [] \<Longrightarrow> isdigit (hd cs) \<Longrightarrow> is_number_word (CHR ''-'' # takeWhile isdigit cs)"
    by (cases cs) (auto simp: is_number_word_def takeWhile_list_all)
  have type: "is_identifier_start c \<Longrightarrow> ident_name (takeWhile is_identifier_continue (c # cs))"
    if "keyword_or_identifier (takeWhile is_identifier_continue (c # cs)) = T_IDENTIFIER"
    using word that by (simp add: ident_name_def)
  show ?thesis
    using num neg type symbol_type_kinds keyword_not_number
    unfolding lex_text_def Cons good_token_def at_location_def mk_token_def
    by (auto simp: Let_def split: option.splits if_splits)
qed

lemma good_lex_all: "x \<in> set (lex_all r) \<Longrightarrow> good_token (at_location s x)"
proof (induction r rule: lex_all.induct)
  case (1 r)
  then show ?case
    using good_lex_text [of s r] by (subst (asm) (2) lex_all.simps) (auto simp: Let_def split: if_splits)
qed

lemma good_tokens: "t \<in> set (tokens_from (new_lexer s)) \<Longrightarrow> good_token t"
  by (auto simp: new_lexer_reads tokens_from_reads intro: good_lex_all)

lemma number_word_stoi:
  assumes "is_number_word s"
  shows "(\<exists>v. stoi s = Inr v \<and> in_int v) \<or> stoi s = Inl (Out_of_range ''stoi'')"
proof -
  let ?ds = "if s \<noteq> [] \<and> hd s = CHR ''-'' then tl s else s"
  have ds: "?ds \<noteq> []" "list_all isdigit ?ds"
    using assms by (simp_all add: is_number_word_def Let_def)
  have sp: "dropWhile isspace s = s"
  proof (cases "s \<noteq> [] \<and> hd s = CHR ''-''")
    case True
    then show ?thesis by (simp add: dropWhile_hd_stop isspace_def)
  next
    case False
    with ds have "isdigit (hd s)" by (cases s) auto
    then show ?thesis by (simp add: dropWhile_hd_stop isdigit_not_space)
  qed
  have "s = [] \<or> hd s \<noteq> CHR ''+''"
    using ds by (cases s) (auto simp: isdigit_def split: if_splits)
  then have "takeWhile isdigit
      (if s \<noteq> [] \<and> (hd s = CHR ''-'' \<or> hd s = CHR ''+'') then tl s else s) = ?ds"
    using ds(2) by (auto simp: takeWhile_all simp del: takeWhile_eq_all_conv split: if_splits)
  then show ?thesis using ds(1) by (auto simp: stoi_def sp Let_def)
qed

section \<open>Which exceptions parsing raises\<close>

definition parser_inv :: "parser \<Rightarrow> bool" where
  "parser_inv p \<longleftrightarrow> lexer_src_inv (ps_lexer p) \<and> good_token (ps_current p)"

definition parse_message :: "source_location \<Rightarrow> string \<Rightarrow> string" where
  "parse_message loc msg =
     ''Parse error at line '' @ show_nat (loc_line loc) @ '', column '' @
     show_nat (loc_column loc) @ '': '' @ msg"

definition allowed_exn :: "parse_exn \<Rightarrow> bool" where
  "allowed_exn e \<longleftrightarrow>
     (\<exists>loc msg. e = ParseError (parse_message loc msg) loc) \<or> e = Std_exn (Out_of_range ''stoi'')"

text \<open>An operation that keeps the invariant, raises allowed exceptions only, and returns \<open>Q\<close>.\<close>

definition safe :: "'a parse \<Rightarrow> ('a \<Rightarrow> bool) \<Rightarrow> bool" where
  "safe m Q \<longleftrightarrow>
     (\<forall>p. parser_inv p \<longrightarrow>
        (case m p of Inl e \<Rightarrow> allowed_exn e | Inr (x, p') \<Rightarrow> parser_inv p' \<and> Q x))"

lemma safe_TrueI:
  "(\<And>p. parser_inv p \<Longrightarrow> case m p of Inl e \<Rightarrow> allowed_exn e | Inr (x, p') \<Rightarrow> parser_inv p') \<Longrightarrow>
   safe m (\<lambda>_. True)"
  by (fastforce simp: safe_def split: sum.splits)

lemma safe_TrueD:
  "safe m (\<lambda>_. True) \<Longrightarrow> parser_inv p \<Longrightarrow>
   case m p of Inl e \<Rightarrow> allowed_exn e | Inr (x, p') \<Rightarrow> parser_inv p'"
  by (fastforce simp: safe_def split: sum.splits)

lemma safe_bind:
  assumes "safe m Q" and "\<And>x. Q x \<Longrightarrow> safe (f x) R"
  shows "safe (bindS m f) R"
  unfolding safe_def
proof (intro allI impI)
  fix p assume inv: "parser_inv p"
  show "case bindS m f p of Inl e \<Rightarrow> allowed_exn e | Inr (x, p') \<Rightarrow> parser_inv p' \<and> R x"
  proof (cases "m p")
    case (Inl e)
    with assms(1) inv show ?thesis by (auto simp: safe_def bindS_Inl split: sum.splits)
  next
    case (Inr r)
    then obtain x p1 where r: "m p = Inr (x, p1)" by (cases r) auto
    with assms(1) inv have "parser_inv p1" "Q x" by (auto simp: safe_def split: sum.splits)
    with assms(2) r show ?thesis by (simp add: safe_def bindS_Inr)
  qed
qed

lemma safe_ret: "Q x \<Longrightarrow> safe (retS x) Q"
  by (simp add: safe_def retS_def)

lemma safe_weaken: "safe m Q \<Longrightarrow> safe m (\<lambda>_. True)"
  by (fastforce simp: safe_def split: sum.splits)

lemma safe_advance: "safe p_advance (\<lambda>_. True)"
proof -
  have "parser_inv p'" if inv: "parser_inv p" and adv: "p_advance p = Inr (u, p')" for p u p'
  proof -
    obtain t lx where nx: "next_token (ps_lexer p) = (t, lx)" by (cases "next_token (ps_lexer p)")
    then have p': "ps_lexer p' = lx" "ps_current p' = t"
      using adv by (auto simp: p_advance_def)
    obtain s r where "suffix r s" "ps_lexer p = reads s r None"
      using inv by (auto simp: parser_inv_def lexer_src_inv_iff)
    then have "good_token t" using nx by (auto simp: next_token_reads intro: good_lex_text)
    then show ?thesis
      using inv lexer_source.nxt_inv [OF _ nx] p' by (simp add: parser_inv_def)
  qed
  then show ?thesis
    by (auto simp: safe_def p_advance_def split: prod.splits)
qed

lemma safe_error: "safe (parse_error msg) Q"
  unfolding safe_def parse_error_def allowed_exn_def parse_message_def Let_def by auto

lemma safe_loc: "safe current_loc (\<lambda>_. True)"
  by (simp add: safe_def current_loc_def)

lemma safe_consume: "safe (consume t msg) (\<lambda>tok. good_token tok \<and> tk_type tok = t)"
proof -
  have "case consume t msg p of Inl e \<Rightarrow> allowed_exn e
      | Inr (x, p') \<Rightarrow> parser_inv p' \<and> good_token x \<and> tk_type x = t" if inv: "parser_inv p" for p
  proof (cases "check p t")
    case False
    then show ?thesis
      using safe_error [of msg "\<lambda>_. True"] inv
      by (auto simp: consume_def safe_def parse_error_def Let_def)
  next
    case True
    obtain p1 where p1: "p_advance p = Inr ((), p1)" using p_advance_total by blast
    then have "parser_inv p1" using safe_advance inv by (fastforce simp: safe_def)
    with True p1 inv show ?thesis
      by (simp add: consume_def bindS_Inr retS_def check_def parser_inv_def)
  qed
  then show ?thesis by (simp add: safe_def)
qed

lemma safe_view: "v = View n \<Longrightarrow> safe (string_of_view v) (\<lambda>_. True)"
  by (simp add: safe_def string_of_view_def)

lemma safe_ident: "safe (consume_string T_IDENTIFIER msg) (\<lambda>_. True)"
  unfolding consume_string_def
  by (rule safe_bind [OF safe_consume]) (auto simp: good_token_def intro: safe_view)

lemma safe_stoi: "good_token c \<Longrightarrow> tk_type c = T_NUMBER \<Longrightarrow> safe (stoi_view (tk_value c)) (\<lambda>_. True)"
  using number_word_stoi
  by (fastforce simp: safe_def good_token_def stoi_view_def bindS_def string_of_view_def
      allowed_exn_def split: sum.splits)

lemma safe_number:
  "(\<And>v. safe (f v) Q) \<Longrightarrow> safe (bindS (consume T_NUMBER msg) (\<lambda>c. bindS (stoi_view (tk_value c)) f)) Q"
  by (rule safe_bind [OF safe_consume]) (auto intro: safe_bind safe_stoi)

lemmas safe_intros = safe_bind [OF safe_loc] safe_bind [OF safe_ident] safe_number
  safe_bind [OF safe_consume] safe_ret safe_error

context repetition
begin

lemma safe_loop:
  assumes "safe item (\<lambda>_. True)"
  shows "safe (loop acc) (\<lambda>_. True)"
proof -
  have "case loop acc p of Inl e \<Rightarrow> allowed_exn e | Inr (x, p') \<Rightarrow> parser_inv p'"
    if "parser_inv p" for acc p
    using that
  proof (induction "parser_left p" arbitrary: acc p rule: less_induct)
    case less
    show ?case
    proof (cases "item p")
      case (Inl e)
      with less.prems assms show ?thesis
        by (subst loop_unfold) (auto simp: safe_def bindS_Inl split: sum.splits)
    next
      case (Inr r)
      obtain x p1 where r: "item p = Inr (x, p1)" using Inr by (cases r) auto
      then have "parser_inv p1" using less.prems assms by (fastforce simp: safe_def)
      then show ?thesis
        using less.hyps [OF consumesD [OF item_consumes r], of "add x acc"] less.prems r
        by (subst loop_unfold) (simp add: bindS_Inr)
    qed
  qed
  then show ?thesis by (rule safe_TrueI)
qed

end

lemma safe_enum_value: "safe parse_enum_value (\<lambda>_. True)"
  unfolding parse_enum_value_def by (intro safe_intros) simp_all

lemma safe_modifiers: "safe (modifiers_loop w) (\<lambda>_. True)"
proof -
  have "case modifiers_loop w p of Inl e \<Rightarrow> allowed_exn e | Inr (x, p') \<Rightarrow> parser_inv p'"
    if "parser_inv p" for w p
    using that
  proof (induction w p rule: modifiers_loop.induct)
    case (1 w p)
    obtain p1 where p1: "p_advance p = Inr ((), p1)" using p_advance_total by blast
    then have "parser_inv p1" using safe_advance 1(2) by (fastforce simp: safe_def)
    then show ?case
      using 1 p1 by (subst modifiers_loop.simps) (simp add: bindS_Inr)
  qed
  then show ?thesis by (rule safe_TrueI)
qed

lemma safe_type: "safe parse_type (\<lambda>_. True)"
proof -
  have "case parse_type p of Inl e \<Rightarrow> allowed_exn e | Inr (x, p') \<Rightarrow> parser_inv p'"
    if inv: "parser_inv p" for p
  proof -
    obtain p1 where p1: "p_advance p = Inr ((), p1)" using p_advance_total by blast
    then have "parser_inv p1" using safe_advance inv by (fastforce simp: safe_def)
    moreover have "check p T_IDENTIFIER \<Longrightarrow> \<exists>n. tk_value (ps_current p) = View n"
      using inv by (auto simp: parser_inv_def good_token_def check_def)
    ultimately show ?thesis
      using p1 inv safe_TrueD [OF safe_error [of "''Expected type name''"] inv]
      by (auto simp: parse_type_def bindS_def retS_def current_loc_def primitive_token
          string_of_view_def)
  qed
  then show ?thesis by (rule safe_TrueI)
qed

lemma safe_field: "safe parse_field (\<lambda>_. True)"
  unfolding parse_field_def parse_modifiers_def
  by (intro safe_intros safe_bind [OF safe_modifiers] safe_bind [OF safe_type]) simp_all

lemma safe_enum: "safe parse_enum (\<lambda>_. True)"
  unfolding parse_enum_def
  by (intro safe_intros safe_bind [OF enum_values.safe_loop [OF safe_enum_value]]) simp_all

lemma safe_model: "safe parse_model (\<lambda>_. True)"
  unfolding parse_model_def
  by (intro safe_intros safe_bind [OF model_fields.safe_loop [OF safe_field]]) simp_all

lemma safe_if: "(b \<Longrightarrow> safe m Q) \<Longrightarrow> (\<not> b \<Longrightarrow> safe n Q) \<Longrightarrow> safe (if b then m else n) Q"
  by simp

lemma safe_declaration: "safe parse_declaration (\<lambda>_. True)"
proof -
  have "safe (bindS parse_enum (\<lambda>e. retS (EnumDecl e))) (\<lambda>_. True)"
    "safe (bindS parse_model (\<lambda>m. retS (ModelDecl m))) (\<lambda>_. True)"
    by (auto intro: safe_bind [OF safe_enum] safe_bind [OF safe_model] safe_ret)
  from this [THEN safe_TrueD] show ?thesis
    using safe_TrueD [OF safe_error [of "''Expected 'enum' or 'model' declaration''"]]
    by (intro safe_TrueI) (auto simp only: parse_declaration_def split: if_split)
qed

lemma safe_namespace_loop: "safe (namespace_loop n) (\<lambda>_. True)"
proof -
  have "case namespace_loop n p of Inl e \<Rightarrow> allowed_exn e | Inr (x, p') \<Rightarrow> parser_inv p'"
    if "parser_inv p" for n p
    using that
  proof (induction n p rule: namespace_loop.induct)
    case (1 n p)
    let ?c = "consume_string T_IDENTIFIER (''Expected identifier after '.'' @ sq)"
    obtain p1 where p1: "p_advance p = Inr ((), p1)" using p_advance_total by blast
    then have inv1: "parser_inv p1" using safe_advance 1(2) by (fastforce simp: safe_def)
    show ?case
    proof (cases "check p T_DOT")
      case False
      with 1(2) show ?thesis by (subst namespace_loop.simps) (simp add: p_match_def bindS_def)
    next
      case True
      then have m: "p_match T_DOT p = Inr (True, p1)"
        using p1 by (simp add: p_match_def bindS_Inr retS_def)
      have c: "case ?c p1 of Inl e \<Rightarrow> allowed_exn e | Inr (x, p') \<Rightarrow> parser_inv p'"
        using safe_TrueD [OF safe_ident inv1] .
      have unf: "namespace_loop n p = bindS ?c (\<lambda>x p2. namespace_loop (n @ ''.'' @ x) p2) p1"
        by (subst namespace_loop.simps) (simp only: bindS_Inr [of "p_match T_DOT", OF m] if_True)
      show ?thesis
        using c 1(1) [OF m] by (auto simp: unf bindS_def split: sum.splits)
    qed
  qed
  then show ?thesis by (rule safe_TrueI)
qed

lemma safe_schema: "safe parse_schema (\<lambda>_. True)"
  unfolding parse_schema_def parse_namespace_def
  by (intro safe_bind [OF safe_loc] safe_bind [where Q = "\<lambda>_. True"] safe_ret
      safe_weaken [OF safe_consume] safe_ident safe_namespace_loop
      schema_decls.safe_loop [OF safe_declaration]) simp_all

lemma parser_inv_new: "parser_inv (new_parser (new_lexer s))"
proof -
  obtain t lx where nx: "next_token (new_lexer s) = (t, lx)" by (cases "next_token (new_lexer s)")
  have "lexer_src_inv (new_lexer s)" by (auto simp: lexer_src_inv_iff new_lexer_reads)
  moreover have "good_token t"
    using nx good_lex_text by (auto simp: new_lexer_reads next_token_reads)
  ultimately show ?thesis
    using nx lexer_source.nxt_inv by (auto simp: new_parser_def parser_inv_def)
qed

section \<open>Well-formed schemas\<close>

text \<open>
  What every parsed schema satisfies. \<open>split_dots\<close> cuts a dotted namespace name into its parts.
\<close>

fun split_dots :: "string \<Rightarrow> string list" where
  "split_dots [] = [[]]"
| "split_dots (c # cs) =
     (if c = CHR ''.'' then [] # split_dots cs
      else case split_dots cs of w # ws \<Rightarrow> (c # w) # ws | [] \<Rightarrow> [[c]])"

fun wf_type :: "ast_type \<Rightarrow> bool" where
  "wf_type (PrimitiveType k l) = True"
| "wf_type (UserType n l) = ident_name n"

definition wf_field :: "field \<Rightarrow> bool" where
  "wf_field f \<longleftrightarrow> wf_type (fd_type f) \<and> ident_name (fd_name f) \<and> in_int (fd_number f) \<and>
     fd_modifiers f < 32"

definition wf_enum_value :: "enum_value \<Rightarrow> bool" where
  "wf_enum_value v \<longleftrightarrow> ident_name (ev_name v) \<and> in_int (ev_value v)"

fun wf_decl :: "decl \<Rightarrow> bool" where
  "wf_decl (EnumDecl e) \<longleftrightarrow> ident_name (en_name e) \<and> list_all wf_enum_value (en_values e)"
| "wf_decl (ModelDecl m) \<longleftrightarrow> ident_name (md_name m) \<and> list_all wf_field (md_fields m)"

definition wf_schema :: "schema \<Rightarrow> bool" where
  "wf_schema s \<longleftrightarrow> list_all ident_name (split_dots (sc_namespace s)) \<and>
     list_all wf_decl (sc_declarations s)"

lemma split_dots_nonempty [simp]: "split_dots s \<noteq> []"
  by (induction s) (auto split: list.splits)

lemma split_dots_word: "CHR ''.'' \<notin> set n \<Longrightarrow> split_dots n = [n]"
  by (induction n) auto

lemma split_dots_append:
  "CHR ''.'' \<notin> set n \<Longrightarrow> split_dots (n @ CHR ''.'' # r) = n # split_dots r"
  by (induction n) auto

lemma split_dots_dotted:
  "list_all (\<lambda>n. CHR ''.'' \<notin> set n) (n # ns) \<Longrightarrow> split_dots (n @ dotted ns) = n # ns"
  by (induction ns arbitrary: n) (auto simp: split_dots_word split_dots_append)

lemma dotted_split: "\<exists>n ns. split_dots s = n # ns \<and> s = n @ dotted ns"
  by (induction s) (auto split: list.splits)

lemma ident_name_no_dot: "ident_name n \<Longrightarrow> CHR ''.'' \<notin> set n"
  by (auto simp: ident_name_def is_word_def list_all_iff is_identifier_continue_def isalnum_def
      isalpha_def isdigit_def)

lemma wf_namespace:
  "list_all ident_name (n # ns) \<Longrightarrow> list_all ident_name (split_dots (n @ dotted ns))"
  by (subst split_dots_dotted) (auto simp: list_all_iff dest: ident_name_no_dot)

lemma good_ident: "ident t n \<Longrightarrow> good_token t \<Longrightarrow> ident_name n"
  by (auto simp: ident_def good_token_def)

lemma number_in_int: "number t v \<Longrightarrow> in_int v"
  by (auto simp: number_def stoi_range)

lemma modifier_flag_small: "modifier_flag t < 32"
  by (cases t) (simp_all add: mod_defs)

lemma or_small:
  assumes "a < 32" and "b < 32"
  shows "a OR b < (32 :: 8 word)"
proof -
  have "a AND mask 5 = a" "b AND mask 5 = b"
    using assms less_mask_eq [of _ 5] by simp_all
  then have "(a OR b) AND mask 5 = a OR b"
    by (metis bit.conj_disj_distrib2)
  moreover have "(a OR b) AND mask 5 < 2 ^ 5"
    by (rule and_mask_less_size) (simp add: word_size)
  ultimately show ?thesis by simp
qed

lemma modifiers_of_small: "modifiers_of ms < 32"
proof -
  have "w < 32 \<Longrightarrow> foldl (\<lambda>w t. w OR modifier_flag (tk_type t)) w ms < 32" for w
    by (induction ms arbitrary: w) (auto intro: or_small modifier_flag_small)
  then show ?thesis by (simp add: modifiers_of_def MOD_NONE_def)
qed

lemma g_type_wf: "g_type t T \<Longrightarrow> good_token t \<Longrightarrow> wf_type T"
  by (auto elim!: g_type_E intro: good_ident)

lemma g_enum_value_wf: "g_enum_value ts v \<Longrightarrow> \<forall>t \<in> set ts. good_token t \<Longrightarrow> wf_enum_value v"
  by (auto elim!: g_enum_value_E simp: wf_enum_value_def intro: good_ident number_in_int)

lemma g_field_wf: "g_field ts f \<Longrightarrow> \<forall>t \<in> set ts. good_token t \<Longrightarrow> wf_field f"
  by (auto elim!: g_field_E simp: wf_field_def
      intro: good_ident number_in_int g_type_wf modifiers_of_small)

lemma g_list_wf:
  "g_list g ts xs \<Longrightarrow> (\<And>us x. g us x \<Longrightarrow> \<forall>t \<in> set us. good_token t \<Longrightarrow> Q x) \<Longrightarrow>
   \<forall>t \<in> set ts. good_token t \<Longrightarrow> list_all Q xs"
  by (induction rule: g_list.induct) auto

lemma g_decl_wf: "g_decl ts d \<Longrightarrow> \<forall>t \<in> set ts. good_token t \<Longrightarrow> wf_decl d"
  by (auto elim!: g_decl_E intro: good_ident g_list_wf [OF _ g_enum_value_wf]
      g_list_wf [OF _ g_field_wf])

lemma g_dotted_wf: "g_dotted ts n \<Longrightarrow> \<forall>t \<in> set ts. good_token t \<Longrightarrow> ident_name n"
  by (auto elim!: g_dotted.cases intro: good_ident)

lemma g_schema_wf:
  assumes "g_schema ts s" and "\<forall>t \<in> set ts. good_token t"
  shows "wf_schema s"
proof -
  from assms(1) obtain k a n dots ns c body ds where
    g: "ts = [k, a] @ dots @ [c] @ body" "ident a n" "g_list g_dotted dots ns"
      "g_list g_decl body ds" "sc_namespace s = n @ dotted ns" "sc_declarations s = ds"
    by (auto elim!: g_schema_E)
  have "ident_name n" using g(1,2) assms(2) by (auto intro: good_ident)
  moreover have "list_all ident_name ns"
    using g_list_wf [OF g(3) g_dotted_wf] g(1) assms(2) by auto
  moreover have "list_all wf_decl ds"
    using g_list_wf [OF g(4) g_decl_wf] g(1) assms(2) by auto
  ultimately show ?thesis using wf_namespace [of n ns] g(5,6) by (simp add: wf_schema_def)
qed

lemma parse_source_outcome:
  "(\<exists>sch. parse_source s = Inr sch) \<or>
   (\<exists>loc msg. parse_source s = Inl (ParseError (parse_message loc msg) loc)) \<or>
   parse_source s = Inl (Std_exn (Out_of_range ''stoi''))"
  using safe_TrueD [OF safe_schema parser_inv_new [of s]]
  by (auto simp: parse_source_def allowed_exn_def bindR_def split: sum.splits)

lemma parse_source_wf: "parse_source s = Inr sch \<Longrightarrow> wf_schema sch"
  using good_tokens [of _ s] by (auto simp: parse_source_iff intro!: g_schema_wf)

section \<open>Printing a schema\<close>

text \<open>
  A printer from schemas to token spellings: the modifiers of a field in the order of their bits,
  numbers in decimal. Locations are not printed; \<open>strip_schema\<close> forgets them.
\<close>

fun kind_token :: "primitive_type_kind \<Rightarrow> token_type" where
  "kind_token K_INT8 = T_INT8" | "kind_token K_INT16 = T_INT16"
| "kind_token K_INT32 = T_INT32" | "kind_token K_INT64 = T_INT64"
| "kind_token K_UINT8 = T_UINT8" | "kind_token K_UINT16 = T_UINT16"
| "kind_token K_UINT32 = T_UINT32" | "kind_token K_UINT64 = T_UINT64"
| "kind_token K_FLOAT = T_FLOAT" | "kind_token K_DOUBLE = T_DOUBLE"
| "kind_token K_BOOL = T_BOOL" | "kind_token K_STRING = T_STRING"
| "kind_token K_BYTE = T_BYTE"

fun print_type :: "ast_type \<Rightarrow> token_type \<times> string" where
  "print_type (PrimitiveType k l) = (kind_token k, kind_name k)"
| "print_type (UserType n l) = (T_IDENTIFIER, n)"

definition print_modifiers :: "modifiers \<Rightarrow> (token_type \<times> string) list" where
  "print_modifiers w =
     map snd (filter (\<lambda>x. w AND fst x \<noteq> 0)
       [(MOD_OPTIONAL, T_OPTIONAL, ''optional''), (MOD_REPEATED, T_REPEATED, ''repeated''),
        (MOD_PACKED, T_PACKED, ''packed''), (MOD_INTERNED, T_INTERNED, ''interned''),
        (MOD_BITMAP, T_BITMAP, ''bitmap'')])"

definition print_assign :: "string \<Rightarrow> int \<Rightarrow> (token_type \<times> string) list" where
  "print_assign n v =
     [(T_IDENTIFIER, n), (T_EQUALS, ''=''), (T_NUMBER, show_int v), (T_SEMICOLON, '';'')]"

definition print_field :: "field \<Rightarrow> (token_type \<times> string) list" where
  "print_field f =
     print_modifiers (fd_modifiers f) @ [print_type (fd_type f)] @
     print_assign (fd_name f) (fd_number f)"

definition print_enum_value :: "enum_value \<Rightarrow> (token_type \<times> string) list" where
  "print_enum_value v = print_assign (ev_name v) (ev_value v)"

fun print_decl :: "decl \<Rightarrow> (token_type \<times> string) list" where
  "print_decl (EnumDecl e) =
     [(T_ENUM, ''enum''), (T_IDENTIFIER, en_name e), (T_LBRACE, ''{'')] @
     concat (map print_enum_value (en_values e)) @ [(T_RBRACE, ''}'')]"
| "print_decl (ModelDecl m) =
     [(T_MODEL, ''model''), (T_IDENTIFIER, md_name m), (T_LBRACE, ''{'')] @
     concat (map print_field (md_fields m)) @ [(T_RBRACE, ''}'')]"

definition print_dotted :: "string \<Rightarrow> (token_type \<times> string) list" where
  "print_dotted n = [(T_DOT, ''.''), (T_IDENTIFIER, n)]"

definition print_schema :: "schema \<Rightarrow> (token_type \<times> string) list" where
  "print_schema s =
     [(T_NAMESPACE, ''namespace''), (T_IDENTIFIER, hd (split_dots (sc_namespace s)))] @
     concat (map print_dotted (tl (split_dots (sc_namespace s)))) @ [(T_SEMICOLON, '';'')] @
     concat (map print_decl (sc_declarations s))"

abbreviation no_loc :: source_location where
  "no_loc \<equiv> mk_loc 0 0 0"

fun strip_type :: "ast_type \<Rightarrow> ast_type" where
  "strip_type (PrimitiveType k l) = PrimitiveType k no_loc"
| "strip_type (UserType n l) = UserType n no_loc"

definition strip_field :: "field \<Rightarrow> field" where
  "strip_field f = f\<lparr>fd_type := strip_type (fd_type f), fd_location := no_loc\<rparr>"

definition strip_enum_value :: "enum_value \<Rightarrow> enum_value" where
  "strip_enum_value v = v\<lparr>ev_location := no_loc\<rparr>"

fun strip_decl :: "decl \<Rightarrow> decl" where
  "strip_decl (EnumDecl e) =
     EnumDecl (e\<lparr>en_values := map strip_enum_value (en_values e), en_location := no_loc\<rparr>)"
| "strip_decl (ModelDecl m) =
     ModelDecl (m\<lparr>md_fields := map strip_field (md_fields m), md_location := no_loc\<rparr>)"

definition strip_schema :: "schema \<Rightarrow> schema" where
  "strip_schema s = s\<lparr>sc_declarations := map strip_decl (sc_declarations s), sc_location := no_loc\<rparr>"

text \<open>Tokens that spell a list of printed tokens.\<close>

definition spells :: "token \<Rightarrow> token_type \<times> string \<Rightarrow> bool" where
  "spells t x \<longleftrightarrow> tk_type t = fst x \<and> tk_value t = View (snd x)"

lemma spells_ident: "spells t (T_IDENTIFIER, n) \<longleftrightarrow> ident t n"
  by (simp add: spells_def ident_def)

lemma spells_number: "in_int v \<Longrightarrow> spells t (T_NUMBER, show_int v) \<Longrightarrow> number t v"
  by (simp add: spells_def number_def stoi_show_int)

lemma spells_type:
  assumes "spells t (print_type T)"
  shows "\<exists>T'. g_type t T' \<and> strip_type T' = strip_type T"
proof (cases T)
  case (PrimitiveType k l)
  have "token_to_primitive_type (kind_token k) = Inr k" by (cases k) simp_all
  then have "g_type t (PrimitiveType k (tk_location t))"
    using assms PrimitiveType by (auto simp: spells_def intro: g_primitive)
  then show ?thesis using PrimitiveType by auto
next
  case (UserType n l)
  then have "g_type t (UserType n (tk_location t))"
    using assms by (auto simp: spells_ident intro: g_user)
  then show ?thesis using UserType by auto
qed

lemma spells_assign:
  assumes "list_all2 spells ts (print_assign n v)" and "in_int v"
  obtains a b c d where "ts = [a, b, c, d]" "ident a n" "tk_type b = T_EQUALS" "number c v"
    "tk_type d = T_SEMICOLON"
  using assms spells_number [OF assms(2)]
  by (auto simp: print_assign_def list_all2_Cons2 spells_ident) (simp add: spells_def)

lemma modifiers_by_type:
  "modifiers_of ms = foldl (\<lambda>w t. w OR modifier_flag t) MOD_NONE (map tk_type ms)"
  by (simp add: modifiers_of_def foldl_map)

lemma print_modifiers_all:
  "list_all (\<lambda>n. foldl (\<lambda>w t. w OR modifier_flag t) MOD_NONE
      (map fst (print_modifiers (word_of_nat n))) = word_of_nat n) [0..<32]"
  by code_simp

lemma print_modifiers_fold:
  assumes "w < 32"
  shows "foldl (\<lambda>w t. w OR modifier_flag t) MOD_NONE (map fst (print_modifiers w)) = w"
proof -
  have "unat w < 32" using assms by (simp add: word_less_nat_alt)
  then have "unat w \<in> set [0..<32]" by simp
  with print_modifiers_all have
    "foldl (\<lambda>w t. w OR modifier_flag t) MOD_NONE (map fst (print_modifiers (word_of_nat (unat w))))
      = word_of_nat (unat w)"
    unfolding list_all_iff by blast
  then show ?thesis by simp
qed

lemma spells_types: "list_all2 spells ts ps \<Longrightarrow> map tk_type ts = map fst ps"
  by (induction rule: list_all2_induct) (auto simp: spells_def)

lemma print_modifiers_types: "x \<in> set (print_modifiers w) \<Longrightarrow> is_field_modifier (fst x)"
  by (auto simp: print_modifiers_def is_field_modifier_def split: if_splits)

lemma spells_modifiers:
  assumes "list_all2 spells ms (print_modifiers w)" and "w < 32"
  shows "list_all (\<lambda>t. is_field_modifier (tk_type t)) ms \<and> modifiers_of ms = w"
proof -
  have "map tk_type ms = map fst (print_modifiers w)" using assms(1) by (rule spells_types)
  moreover have "list_all is_field_modifier (map fst (print_modifiers w))"
    using print_modifiers_types by (auto simp: list_all_iff)
  ultimately have "list_all is_field_modifier (map tk_type ms)"
    "modifiers_of ms = w"
    using print_modifiers_fold [OF assms(2)] by (simp_all add: modifiers_by_type)
  then show ?thesis by (simp add: list.pred_map comp_def)
qed

lemma spells_field:
  assumes "list_all2 spells ts (print_field f)" and "wf_field f"
  shows "\<exists>f'. g_field ts f' \<and> strip_field f' = strip_field f"
proof -
  from assms(1) obtain ms ty us where
    ts: "ts = ms @ ty # us" "list_all2 spells ms (print_modifiers (fd_modifiers f))"
      "spells ty (print_type (fd_type f))" "list_all2 spells us (print_assign (fd_name f) (fd_number f))"
    by (auto simp: print_field_def list_all2_append2 list_all2_Cons2)
  obtain T where T: "g_type ty T" "strip_type T = strip_type (fd_type f)"
    using spells_type [OF ts(3)] by blast
  obtain a b c d where us: "us = [a, b, c, d]" "ident a (fd_name f)" "tk_type b = T_EQUALS"
    "number c (fd_number f)" "tk_type d = T_SEMICOLON"
    using spells_assign [OF ts(4)] assms(2) unfolding wf_field_def by blast
  have ms: "list_all (\<lambda>t. is_field_modifier (tk_type t)) ms" "modifiers_of ms = fd_modifiers f"
    using spells_modifiers [OF ts(2)] assms(2) by (auto simp: wf_field_def)
  from g_field.intros [OF ms(1) T(1) us(2-5)] show ?thesis
    using T(2) ms(2) ts(1) us(1) by (intro exI conjI, simp) (simp add: strip_field_def)
qed

lemma spells_enum_value:
  assumes "list_all2 spells ts (print_enum_value v)" and "wf_enum_value v"
  shows "\<exists>v'. g_enum_value ts v' \<and> strip_enum_value v' = strip_enum_value v"
proof -
  obtain a b c d where ts: "ts = [a, b, c, d]" "ident a (ev_name v)" "tk_type b = T_EQUALS"
    "number c (ev_value v)" "tk_type d = T_SEMICOLON"
    using spells_assign [OF assms(1) [unfolded print_enum_value_def]] assms(2)
    unfolding wf_enum_value_def by blast
  show ?thesis
    using g_enum_value.intros [OF ts(2-5)] ts(1) by (intro exI conjI, simp) (simp add: strip_enum_value_def)
qed

lemma spells_list:
  "list_all2 spells ts (concat (map pr xs)) \<Longrightarrow>
   (\<And>us x. x \<in> set xs \<Longrightarrow> list_all2 spells us (pr x) \<Longrightarrow> \<exists>x'. g us x' \<and> st x' = st x) \<Longrightarrow>
   \<exists>xs'. g_list g ts xs' \<and> map st xs' = map st xs"
proof (induction xs arbitrary: ts)
  case Nil
  then show ?case by (auto intro: g_Nil)
next
  case (Cons x xs)
  then obtain us vs where ts: "ts = us @ vs" "list_all2 spells us (pr x)"
    "list_all2 spells vs (concat (map pr xs))"
    by (auto simp: list_all2_append2)
  obtain x' where "g us x'" "st x' = st x" using Cons.prems(2) [OF _ ts(2)] by auto
  moreover obtain xs' where "g_list g vs xs'" "map st xs' = map st xs"
    using Cons.IH [OF ts(3)] Cons.prems(2) by auto
  ultimately show ?case
    using ts(1) by (intro exI [of _ "x' # xs'"]) (auto intro: g_Cons)
qed

lemma spells_decl:
  assumes "list_all2 spells ts (print_decl d)" and "wf_decl d"
  shows "\<exists>d'. g_decl ts d' \<and> strip_decl d' = strip_decl d"
proof (cases d)
  case (EnumDecl e)
  with assms(1) obtain k a l body r where
    ts: "ts = [k, a, l] @ body @ [r]" "tk_type k = T_ENUM" "ident a (en_name e)"
      "tk_type l = T_LBRACE" "tk_type r = T_RBRACE"
      "list_all2 spells body (concat (map print_enum_value (en_values e)))"
    by (auto simp: list_all2_append2 list_all2_Cons2 spells_ident) (auto simp: spells_def)
  have "\<exists>x'. g_enum_value us x' \<and> strip_enum_value x' = strip_enum_value x"
    if "x \<in> set (en_values e)" "list_all2 spells us (print_enum_value x)" for us x
    using spells_enum_value [OF that(2)] that(1) assms(2) EnumDecl by (simp add: list_all_iff)
  from spells_list [where g = g_enum_value, OF ts(6) this] obtain vs where
    vs: "g_list g_enum_value body vs" "map strip_enum_value vs = map strip_enum_value (en_values e)"
    by blast
  show ?thesis
    using g_enum [OF ts(2-4) vs(1) ts(5)] EnumDecl vs(2) ts(1) by (intro exI conjI, simp) simp
next
  case (ModelDecl m)
  with assms(1) obtain k a l body r where
    ts: "ts = [k, a, l] @ body @ [r]" "tk_type k = T_MODEL" "ident a (md_name m)"
      "tk_type l = T_LBRACE" "tk_type r = T_RBRACE"
      "list_all2 spells body (concat (map print_field (md_fields m)))"
    by (auto simp: list_all2_append2 list_all2_Cons2 spells_ident) (auto simp: spells_def)
  have "\<exists>x'. g_field us x' \<and> strip_field x' = strip_field x"
    if "x \<in> set (md_fields m)" "list_all2 spells us (print_field x)" for us x
    using spells_field [OF that(2)] that(1) assms(2) ModelDecl by (simp add: list_all_iff)
  from spells_list [where g = g_field, OF ts(6) this] obtain fs where
    fs: "g_list g_field body fs" "map strip_field fs = map strip_field (md_fields m)"
    by blast
  show ?thesis
    using g_model [OF ts(2-4) fs(1) ts(5)] ModelDecl fs(2) ts(1) by (intro exI conjI, simp) simp
qed

lemma spells_schema:
  assumes "list_all2 spells ts (print_schema s)" and "wf_schema s"
  shows "\<exists>s'. g_schema ts s' \<and> strip_schema s' = strip_schema s"
proof -
  obtain n ns where ns: "split_dots (sc_namespace s) = n # ns" "sc_namespace s = n @ dotted ns"
    using dotted_split by blast
  with assms(1) obtain k a dots c body where
    ts: "ts = [k, a] @ dots @ [c] @ body" "tk_type k = T_NAMESPACE" "ident a n"
      "tk_type c = T_SEMICOLON" "list_all2 spells dots (concat (map print_dotted ns))"
      "list_all2 spells body (concat (map print_decl (sc_declarations s)))"
    by (auto simp: print_schema_def list_all2_append2 list_all2_Cons2 spells_ident)
      (auto simp: spells_def)
  have "\<exists>x'. g_dotted us x' \<and> id x' = id x"
    if "x \<in> set ns" "list_all2 spells us (print_dotted x)" for us x
    using that(2) by (auto simp: print_dotted_def list_all2_Cons2 spells_ident intro!: g_dotted.intros)
      (simp add: spells_def)
  from spells_list [where g = g_dotted, OF ts(5) this] have dots: "g_list g_dotted dots ns" by simp
  have "\<exists>x'. g_decl us x' \<and> strip_decl x' = strip_decl x"
    if "x \<in> set (sc_declarations s)" "list_all2 spells us (print_decl x)" for us x
    using spells_decl [OF that(2)] that(1) assms(2) by (simp add: wf_schema_def list_all_iff)
  from spells_list [where g = g_decl, OF ts(6) this] obtain ds where
    ds: "g_list g_decl body ds" "map strip_decl ds = map strip_decl (sc_declarations s)" by blast
  show ?thesis
    using g_schema.intros [OF ts(2,3) dots ts(4) ds(1)] ds(2) ts(1) ns(2)
    by (intro exI conjI, simp) (simp add: strip_schema_def)
qed

lemma ident_well_spelled: "ident_name n \<Longrightarrow> well_spelled (T_IDENTIFIER, n)"
  by (simp add: well_spelled_def ident_name_def)

lemma show_int_number_word: "is_number_word (show_int v)"
proof -
  have "hd (show_nat n) \<noteq> CHR ''-''" for n
    using isdigit_not_sign [OF show_nat_hd_digit] by blast
  then show ?thesis
    by (simp add: is_number_word_def show_int_def show_nat_digits)
qed

lemma print_assign_spelled: "ident_name n \<Longrightarrow> list_all well_spelled (print_assign n v)"
  by (simp add: print_assign_def ident_well_spelled)
    (simp add: well_spelled_def symbol_type_def show_int_number_word)

lemma print_modifiers_spelled: "list_all well_spelled (print_modifiers w)"
proof -
  have "list_all well_spelled [(T_OPTIONAL, ''optional''), (T_REPEATED, ''repeated''),
      (T_PACKED, ''packed''), (T_INTERNED, ''interned''), (T_BITMAP, ''bitmap'')]"
    by code_simp
  then show ?thesis by (auto simp: print_modifiers_def list_all_iff)
qed

lemma kinds_spelled:
  "list_all (\<lambda>k. well_spelled (kind_token k, kind_name k))
     [K_INT8, K_INT16, K_INT32, K_INT64, K_UINT8, K_UINT16, K_UINT32, K_UINT64, K_FLOAT, K_DOUBLE,
      K_BOOL, K_STRING, K_BYTE]"
  by code_simp

lemma kind_spelled: "well_spelled (kind_token k, kind_name k)"
  using kinds_spelled unfolding list_all_iff by (cases k) auto

lemma print_type_spelled: "wf_type T \<Longrightarrow> well_spelled (print_type T)"
  by (cases T) (simp_all add: kind_spelled ident_well_spelled)

lemma punctuation_spelled:
  "list_all well_spelled [(T_ENUM, ''enum''), (T_MODEL, ''model''), (T_NAMESPACE, ''namespace''),
     (T_LBRACE, ''{''), (T_RBRACE, ''}''), (T_DOT, ''.''), (T_SEMICOLON, '';'')]"
  by code_simp

lemma list_all_concat_map: "list_all (\<lambda>x. list_all p (f x)) xs \<Longrightarrow> list_all p (concat (map f xs))"
  by (induction xs) auto

lemma print_decl_spelled:
  assumes "wf_decl d"
  shows "list_all well_spelled (print_decl d)"
proof -
  have "wf_field f \<Longrightarrow> list_all well_spelled (print_field f)" for f
    by (simp add: print_field_def wf_field_def print_modifiers_spelled print_type_spelled
        print_assign_spelled)
  moreover have "wf_enum_value v \<Longrightarrow> list_all well_spelled (print_enum_value v)" for v
    by (simp add: print_enum_value_def wf_enum_value_def print_assign_spelled)
  ultimately show ?thesis
    using assms punctuation_spelled
    by (cases d) (auto simp: ident_well_spelled intro!: list_all_concat_map elim!: list.pred_mono_strong)
qed

lemma print_schema_spelled: "wf_schema s \<Longrightarrow> list_all well_spelled (print_schema s)"
  using punctuation_spelled dotted_split [of "sc_namespace s"]
  by (auto simp: print_schema_def wf_schema_def ident_well_spelled print_dotted_def
      intro!: list_all_concat_map print_decl_spelled elim!: list.pred_mono_strong)

lemma token_text_spells:
  "map token_text ts = map (\<lambda>x. (fst x, View (snd x))) ps \<Longrightarrow> list_all2 spells ts ps"
  by (induction ts arbitrary: ps) (auto simp: token_text_def spells_def)

section \<open>Properties\<close>

text \<open>
  C2: The parser recognises the schema language and builds its trees: it returns a schema for a
  source text exactly when the text's tokens, without the final end-of-file, are derived from
  the grammar with that schema as the derivation's tree, locations included.
\<close>

theorem parser_sound_and_complete:
  "parse_source s = Inr sch \<longleftrightarrow> (\<exists>ts e. tokens_from (new_lexer s) = ts @ [e] \<and> g_schema ts sch)"
  by (rule parse_source_iff)

text \<open>
  C21: Parsing any text ends in a schema, in a parse error whose message starts with the line and
  column of its location, or in the out-of-range exception of \<^verbatim>\<open>stoi\<close>. In particular it never
  reads the dangling view of an invalid token, never raises \<^verbatim>\<open>std::invalid_argument\<close> from \<^verbatim>\<open>stoi\<close>
  and never meets a non-primitive token in \<^verbatim>\<open>token_to_primitive_type\<close>.
\<close>

theorem parser_exceptions:
  "(\<exists>sch. parse_source s = Inr sch) \<or>
   (\<exists>loc msg. parse_source s = Inl (ParseError (parse_message loc msg) loc)) \<or>
   parse_source s = Inl (Std_exn (Out_of_range ''stoi''))"
  by (rule parse_source_outcome)

text \<open>
  C22: Every parsed schema is well formed: names are identifiers and no keywords, enum values and
  field numbers fit an \<^verbatim>\<open>int\<close>, only the five modifier bits are used, and the namespace is a
  dotted sequence of identifiers.
\<close>

theorem parsed_schema_well_formed:
  assumes "parse_source s = Inr sch"
  shows "wf_schema sch"
  using assms by (rule parse_source_wf)

theorem parsed_schema_well_formed_witness:
  "\<exists>sch. parse_source ''namespace a.b; enum E { X = 0; }'' = Inr sch \<and> wf_schema sch"
proof -
  have "\<not> isl (parse_source ''namespace a.b; enum E { X = 0; }'')" by code_simp
  then obtain sch where sch: "parse_source ''namespace a.b; enum E { X = 0; }'' = Inr sch"
    by (cases "parse_source ''namespace a.b; enum E { X = 0; }''") auto
  show ?thesis using parsed_schema_well_formed [OF sch] sch by blast
qed

text \<open>
  C14: Printing a well-formed schema and parsing the text gives the schema back, up to the
  source locations.
\<close>

theorem print_parse_roundtrip:
  assumes "wf_schema s"
  shows "\<exists>s'. parse_source (spell (print_schema s)) = Inr s' \<and> strip_schema s' = strip_schema s"
proof -
  let ?text = "spell (print_schema s)"
  have toks: "map token_text (tokens_from (new_lexer ?text)) =
      map (\<lambda>x. (fst x, View (snd x))) (print_schema s) @ [(T_END_OF_FILE, View [])]"
    using lex_all_spell [OF print_schema_spelled [OF assms]]
    by (simp add: new_lexer_reads tokens_from_reads comp_def token_text_def at_location_def
        mk_token_def split_def)
  from toks obtain ts e where ts: "tokens_from (new_lexer ?text) = ts @ [e]"
    "map token_text ts = map (\<lambda>x. (fst x, View (snd x))) (print_schema s)"
    by (auto simp: map_eq_append_conv)
  obtain s' where "g_schema ts s'" "strip_schema s' = strip_schema s"
    using spells_schema [OF token_text_spells [OF ts(2)] assms] by blast
  with ts(1) show ?thesis by (auto simp: parse_source_iff)
qed

theorem print_parse_roundtrip_witness:
  "\<exists>s'. parse_source (spell (print_schema \<lparr>sc_namespace = ''a.b'', sc_declarations =
      [ModelDecl \<lparr>md_name = ''M'', md_fields = [(new_field (UserType ''E'' no_loc) ''x'' (- 3) no_loc)
         \<lparr>fd_modifiers := MOD_REPEATED OR MOD_PACKED\<rparr>], md_location = no_loc\<rparr>],
      sc_location = no_loc\<rparr>)) = Inr s' \<and> sc_namespace s' = ''a.b''"
proof -
  let ?s = "\<lparr>sc_namespace = ''a.b'', sc_declarations =
      [ModelDecl \<lparr>md_name = ''M'', md_fields = [(new_field (UserType ''E'' no_loc) ''x'' (- 3) no_loc)
         \<lparr>fd_modifiers := MOD_REPEATED OR MOD_PACKED\<rparr>], md_location = no_loc\<rparr>],
      sc_location = no_loc\<rparr>"
  have "wf_schema ?s" by code_simp
  from print_parse_roundtrip [OF this] obtain s' where
    s': "parse_source (spell (print_schema ?s)) = Inr s'" "strip_schema s' = strip_schema ?s" by blast
  from s'(2) have "sc_namespace (strip_schema s') = sc_namespace (strip_schema ?s)" by simp
  then have "sc_namespace s' = ''a.b''" by (simp add: strip_schema_def)
  with s'(1) show ?thesis by blast
qed

end
