(* ===== verification/Validator.thy ===== *)
theory Validator
  imports Ast
begin

unbundle bit_operations_syntax

text \<open>
  The semantic checks of \<^verbatim>\<open>compiler/source/validator.cpp\<close>. The context collects errors and the
  declared types; the semantic validator walks the schema and adds an error for every violated
  rule. \<open>valid_schema\<close> states the rules declaratively and \<open>schema_faults\<close> the places that break
  them; validation is proved to accept exactly the valid schemas and to report exactly those places.
  The locale \<open>checker\<close> is the contract of a visiting method: what it adds to the context.
\<close>

section \<open>The validation context\<close>

record validation_error =
  ve_message :: string
  ve_location :: source_location

record validation_context =
  vc_errors :: "validation_error list"
  vc_enums :: "string \<rightharpoonup> enum_decl"
  vc_models :: "string \<rightharpoonup> model_decl"

definition new_context :: validation_context where
  "new_context = \<lparr>vc_errors = [], vc_enums = Map.empty, vc_models = Map.empty\<rparr>"

definition add_error :: "string \<Rightarrow> source_location \<Rightarrow> validation_context \<Rightarrow> validation_context" where
  "add_error message location c =
     c\<lparr>vc_errors := vc_errors c @ [\<lparr>ve_message = message, ve_location = location\<rparr>]\<rparr>"

definition has_errors :: "validation_context \<Rightarrow> bool" where
  "has_errors c \<longleftrightarrow> vc_errors c \<noteq> []"

definition get_errors :: "validation_context \<Rightarrow> validation_error list" where
  "get_errors c = vc_errors c"

definition register_enum :: "string \<Rightarrow> enum_decl \<Rightarrow> validation_context \<Rightarrow> validation_context" where
  "register_enum name d c = c\<lparr>vc_enums := (vc_enums c)(name \<mapsto> d)\<rparr>"

definition register_model :: "string \<Rightarrow> model_decl \<Rightarrow> validation_context \<Rightarrow> validation_context" where
  "register_model name d c = c\<lparr>vc_models := (vc_models c)(name \<mapsto> d)\<rparr>"

definition ctx_find_enum :: "validation_context \<Rightarrow> string \<Rightarrow> enum_decl option" where
  "ctx_find_enum c name = vc_enums c name"

definition ctx_find_model :: "validation_context \<Rightarrow> string \<Rightarrow> model_decl option" where
  "ctx_find_model c name = vc_models c name"

definition type_exists :: "validation_context \<Rightarrow> string \<Rightarrow> bool" where
  "type_exists c name \<longleftrightarrow> vc_enums c name \<noteq> None \<or> vc_models c name \<noteq> None"

section \<open>The semantic validator\<close>

record semantic_validator =
  sv_context :: validation_context
  sv_current_model :: "model_decl option"

definition new_semantic_validator :: "validation_context \<Rightarrow> semantic_validator" where
  "new_semantic_validator c = \<lparr>sv_context = c, sv_current_model = None\<rparr>"

definition on_context ::
  "(validation_context \<Rightarrow> validation_context) \<Rightarrow> semantic_validator \<Rightarrow> semantic_validator" where
  "on_context g v = v\<lparr>sv_context := g (sv_context v)\<rparr>"

text \<open>\<^verbatim>\<open>if (b) context_.add_error(msg, loc);\<close>\<close>

definition error_if :: "bool \<Rightarrow> string \<Rightarrow> source_location \<Rightarrow> semantic_validator \<Rightarrow> semantic_validator" where
  "error_if b msg loc v = (if b then on_context (add_error msg loc) v else v)"

definition visit_enum_value :: "enum_value \<Rightarrow> semantic_validator \<Rightarrow> semantic_validator" where
  "visit_enum_value val =
     error_if (ev_value val < 0)
       (''Enum value '' @ sq @ ev_name val @ sq @ '' cannot be negative'') (ev_location val)"

definition validate_field_number :: "field \<Rightarrow> semantic_validator \<Rightarrow> semantic_validator" where
  "validate_field_number f v =
     error_if (fd_number f \<ge> 19000 \<and> fd_number f \<le> 19999)
       (''Field number '' @ show_int (fd_number f) @ '' is in reserved range (19000-19999)'')
       (fd_location f)
     (error_if (fd_number f < 1 \<or> fd_number f > 536870911)
       (''Field number '' @ show_int (fd_number f) @ '' is out of valid range (1-536870911)'')
       (fd_location f) v)"

definition validate_field_modifiers :: "field \<Rightarrow> semantic_validator \<Rightarrow> semantic_validator" where
  "validate_field_modifiers f v0 =
     (let has_repeated = is_repeated f; has_packed = is_packed f; has_interned = is_interned f;
          has_bitmap = is_bitmap f; has_optional = is_optional f;
          v1 = error_if (has_optional \<and> has_repeated)
                 (''Field cannot be both 'optional' and 'repeated'' @ sq) (fd_location f) v0;
          v2 = error_if (has_packed \<and> \<not> has_repeated)
                 (sq @ ''packed' modifier requires 'repeated'' @ sq) (fd_location f) v1;
          v3 = error_if (has_bitmap \<and> \<not> has_repeated)
                 (sq @ ''bitmap' modifier requires 'repeated'' @ sq) (fd_location f) v2;
          v4 = error_if (has_packed \<and> has_bitmap)
                 ''Field cannot have both 'packed' and 'bitmap' modifiers'' (fd_location f) v3
      in error_if (has_interned \<and> get_name (fd_type f) \<noteq> ''string'')
           (''Not string field cannot be marked as 'interned'' @ sq) (fd_location f) v4)"

definition validate_type_exists ::
  "ast_type \<Rightarrow> source_location \<Rightarrow> semantic_validator \<Rightarrow> semantic_validator" where
  "validate_type_exists t location v =
     (if \<not> is_primitive t then
        (case t of
           UserType name l \<Rightarrow>
             error_if (\<not> type_exists (sv_context v) name)
               (''Unknown type '' @ sq @ name @ sq) location v
         | PrimitiveType k l \<Rightarrow> v)
      else v)"

fun is_kind :: "primitive_type_kind \<Rightarrow> ast_type \<Rightarrow> bool" where
  "is_kind k (PrimitiveType k' l) \<longleftrightarrow> k' = k"
| "is_kind k (UserType n l) \<longleftrightarrow> False"

definition check_modifier_compatibility :: "field \<Rightarrow> semantic_validator \<Rightarrow> semantic_validator" where
  "check_modifier_compatibility f v0 =
     (let v1 = (if is_packed f then
                  error_if (\<not> is_primitive (fd_type f))
                    (sq @ ''packed' modifier can only be used with primitive types'')
                    (fd_location f) v0
                else v0);
          v2 = (if is_interned f then
                  error_if (\<not> is_kind K_STRING (fd_type f))
                    (sq @ ''interned' modifier can only be used with 'string' type'')
                    (fd_location f) v1
                else v1)
      in if is_bitmap f then
           error_if (\<not> is_kind K_BOOL (fd_type f))
             (sq @ ''bitmap' modifier can only be used with 'bool' type'')
             (fd_location f) v2
         else v2)"

definition visit_field :: "field \<Rightarrow> semantic_validator \<Rightarrow> semantic_validator" where
  "visit_field f v =
     check_modifier_compatibility f
       (validate_type_exists (fd_type f) (fd_location f)
         (validate_field_modifiers f (validate_field_number f v)))"

text \<open>The loops that look for duplicates keep a set of what they have seen.\<close>

fun duplicate_numbers_loop ::
  "model_decl \<Rightarrow> int set \<Rightarrow> field list \<Rightarrow> semantic_validator \<Rightarrow> semantic_validator" where
  "duplicate_numbers_loop m seen [] v = v"
| "duplicate_numbers_loop m seen (f # fs) v =
     duplicate_numbers_loop m (insert (fd_number f) seen) fs
       (error_if (fd_number f \<in> seen)
          (''Duplicate field number '' @ show_int (fd_number f) @ '' in model '' @ sq @ md_name m @ sq)
          (fd_location f) v)"

definition check_duplicate_field_numbers ::
  "model_decl \<Rightarrow> semantic_validator \<Rightarrow> semantic_validator" where
  "check_duplicate_field_numbers m = duplicate_numbers_loop m {} (md_fields m)"

fun duplicate_values_loop ::
  "enum_decl \<Rightarrow> string set \<Rightarrow> int set \<Rightarrow> enum_value list \<Rightarrow> semantic_validator \<Rightarrow> semantic_validator"
  where
  "duplicate_values_loop e names nums [] v = v"
| "duplicate_values_loop e names nums (x # xs) v =
     duplicate_values_loop e (insert (ev_name x) names) (insert (ev_value x) nums) xs
       (error_if (ev_value x \<in> nums)
          (''Duplicate enum value '' @ show_int (ev_value x) @ '' in enum '' @ sq @ en_name e @ sq)
          (ev_location x)
       (error_if (ev_name x \<in> names)
          (''Duplicate enum value name '' @ sq @ ev_name x @ sq @ '' in enum '' @ sq @ en_name e @ sq)
          (ev_location x) v))"

definition check_duplicate_enum_values ::
  "enum_decl \<Rightarrow> semantic_validator \<Rightarrow> semantic_validator" where
  "check_duplicate_enum_values e = duplicate_values_loop e {} {} (en_values e)"

definition visit_enum :: "enum_decl \<Rightarrow> semantic_validator \<Rightarrow> semantic_validator" where
  "visit_enum e v =
     (if en_values e = [] then
        on_context (add_error
          (''Enum '' @ sq @ en_name e @ sq @ '' must have at least one value'') (en_location e)) v
      else fold visit_enum_value (en_values e) (check_duplicate_enum_values e v))"

definition visit_model :: "model_decl \<Rightarrow> semantic_validator \<Rightarrow> semantic_validator" where
  "visit_model m v =
     (if md_fields m = [] then
        on_context (add_error
          (''Model '' @ sq @ md_name m @ sq @ '' must have at least one field'') (md_location m)) v
      else
        let v1 = v\<lparr>sv_current_model := Some m\<rparr>;
            v2 = check_duplicate_field_numbers m v1;
            v3 = fold visit_field (md_fields m) v2
        in v3\<lparr>sv_current_model := None\<rparr>)"

fun duplicate_names_loop :: "string set \<Rightarrow> decl list \<Rightarrow> semantic_validator \<Rightarrow> semantic_validator" where
  "duplicate_names_loop seen [] v = v"
| "duplicate_names_loop seen (d # ds) v =
     duplicate_names_loop (insert (decl_name d) seen) ds
       (error_if (decl_name d \<in> seen)
          (''Duplicate declaration name '' @ sq @ decl_name d @ sq) (decl_location d) v)"

fun register_decl :: "decl \<Rightarrow> semantic_validator \<Rightarrow> semantic_validator" where
  "register_decl (EnumDecl e) v = on_context (register_enum (en_name e) e) v"
| "register_decl (ModelDecl m) v = on_context (register_model (md_name m) m) v"

fun visit_decl :: "decl \<Rightarrow> semantic_validator \<Rightarrow> semantic_validator" where
  "visit_decl (EnumDecl e) v = visit_enum e v"
| "visit_decl (ModelDecl m) v = visit_model m v"

definition visit_schema :: "schema \<Rightarrow> semantic_validator \<Rightarrow> semantic_validator" where
  "visit_schema s v0 =
     (let v1 = error_if (sc_namespace s = []) ''Namespace cannot be empty'' (sc_location s) v0;
          v2 = duplicate_names_loop {} (sc_declarations s) v1;
          v3 = fold register_decl (sc_declarations s) v2
      in fold visit_decl (sc_declarations s) v3)"

text \<open>\<^verbatim>\<open>Validator::validate\<close>: the result, and the context the validator object keeps.\<close>

definition validate :: "schema \<Rightarrow> validation_context \<Rightarrow> bool \<times> validation_context" where
  "validate s c =
     (let c1 = sv_context (visit_schema s (new_semantic_validator c)) in (\<not> has_errors c1, c1))"

section \<open>The rules\<close>

definition valid_enum_value :: "enum_value \<Rightarrow> bool" where
  "valid_enum_value x \<longleftrightarrow> 0 \<le> ev_value x"

definition valid_enum :: "enum_decl \<Rightarrow> bool" where
  "valid_enum e \<longleftrightarrow> en_values e \<noteq> [] \<and> distinct (map ev_name (en_values e)) \<and>
     distinct (map ev_value (en_values e)) \<and> list_all valid_enum_value (en_values e)"

definition valid_number :: "int \<Rightarrow> bool" where
  "valid_number n \<longleftrightarrow> 1 \<le> n \<and> n \<le> 536870911 \<and> \<not> (19000 \<le> n \<and> n \<le> 19999)"

definition valid_modifiers :: "field \<Rightarrow> bool" where
  "valid_modifiers f \<longleftrightarrow>
     \<not> (is_optional f \<and> is_repeated f) \<and> \<not> (is_packed f \<and> is_bitmap f) \<and>
     (is_packed f \<longrightarrow> is_repeated f \<and> is_primitive (fd_type f)) \<and>
     (is_bitmap f \<longrightarrow> is_repeated f \<and> is_kind K_BOOL (fd_type f)) \<and>
     (is_interned f \<longrightarrow> is_kind K_STRING (fd_type f))"

definition valid_field :: "string set \<Rightarrow> field \<Rightarrow> bool" where
  "valid_field names f \<longleftrightarrow> valid_number (fd_number f) \<and> valid_modifiers f \<and>
     (is_primitive (fd_type f) \<or> get_name (fd_type f) \<in> names)"

definition valid_model :: "string set \<Rightarrow> model_decl \<Rightarrow> bool" where
  "valid_model names m \<longleftrightarrow> md_fields m \<noteq> [] \<and> distinct (map fd_number (md_fields m)) \<and>
     list_all (valid_field names) (md_fields m)"

fun valid_decl :: "string set \<Rightarrow> decl \<Rightarrow> bool" where
  "valid_decl names (EnumDecl e) = valid_enum e"
| "valid_decl names (ModelDecl m) = valid_model names m"

definition declared_names :: "schema \<Rightarrow> string set" where
  "declared_names s = decl_name ` set (sc_declarations s)"

definition valid_schema :: "schema \<Rightarrow> bool" where
  "valid_schema s \<longleftrightarrow> sc_namespace s \<noteq> [] \<and> distinct (map decl_name (sc_declarations s)) \<and>
     list_all (valid_decl (declared_names s)) (sc_declarations s)"

section \<open>The places where a schema breaks the rules\<close>

text \<open>
  The locations of the elements whose key is in \<open>seen\<close> or is the key of an earlier element.
\<close>

definition repeats :: "('a \<Rightarrow> 'k) \<Rightarrow> ('a \<Rightarrow> 'l) \<Rightarrow> 'k set \<Rightarrow> 'a list \<Rightarrow> 'l set" where
  "repeats key loc seen xs =
     {loc (xs ! j) |j. j < length xs \<and> key (xs ! j) \<in> seen \<union> key ` set (take j xs)}"

definition enum_value_faults :: "enum_value \<Rightarrow> source_location set" where
  "enum_value_faults x = (if valid_enum_value x then {} else {ev_location x})"

definition enum_faults :: "enum_decl \<Rightarrow> source_location set" where
  "enum_faults e =
     (if en_values e = [] then {en_location e}
      else repeats ev_name ev_location {} (en_values e) \<union>
           repeats ev_value ev_location {} (en_values e) \<union>
           (\<Union>x \<in> set (en_values e). enum_value_faults x))"

definition field_faults :: "string set \<Rightarrow> field \<Rightarrow> source_location set" where
  "field_faults names f = (if valid_field names f then {} else {fd_location f})"

definition model_faults :: "string set \<Rightarrow> model_decl \<Rightarrow> source_location set" where
  "model_faults names m =
     (if md_fields m = [] then {md_location m}
      else repeats fd_number fd_location {} (md_fields m) \<union>
           (\<Union>f \<in> set (md_fields m). field_faults names f))"

fun decl_faults :: "string set \<Rightarrow> decl \<Rightarrow> source_location set" where
  "decl_faults names (EnumDecl e) = enum_faults e"
| "decl_faults names (ModelDecl m) = model_faults names m"

text \<open>\<open>names\<close> are the types that were registered before.\<close>

definition schema_faults :: "string set \<Rightarrow> schema \<Rightarrow> source_location set" where
  "schema_faults names s =
     (if sc_namespace s = [] then {sc_location s} else {}) \<union>
     repeats decl_name decl_location {} (sc_declarations s) \<union>
     (\<Union>d \<in> set (sc_declarations s). decl_faults (names \<union> declared_names s) d)"

lemma ex_zero_or_Suc: "(\<exists>j. P j) \<longleftrightarrow> P 0 \<or> (\<exists>j. P (Suc j))"
  by (metis not0_implies_Suc)

lemma repeats_Nil [simp]: "repeats key loc seen [] = {}"
  by (simp add: repeats_def)

lemma repeats_Cons [simp]:
  "repeats key loc seen (x # xs) =
     (if key x \<in> seen then {loc x} else {}) \<union> repeats key loc (insert (key x) seen) xs"
proof -
  have "(\<exists>j. l = loc ((x # xs) ! j) \<and> j < length (x # xs) \<and>
            key ((x # xs) ! j) \<in> seen \<union> key ` set (take j (x # xs))) \<longleftrightarrow>
        (l = loc x \<and> key x \<in> seen) \<or>
        (\<exists>j. l = loc (xs ! j) \<and> j < length xs \<and>
            key (xs ! j) \<in> insert (key x) seen \<union> key ` set (take j xs))" for l
    unfolding ex_zero_or_Suc [where P = "\<lambda>j. l = loc ((x # xs) ! j) \<and> j < length (x # xs) \<and>
            key ((x # xs) ! j) \<in> seen \<union> key ` set (take j (x # xs))"] by simp
  then show ?thesis by (auto simp: repeats_def)
qed

lemma repeats_empty_iff:
  "repeats key loc seen xs = {} \<longleftrightarrow> distinct (map key xs) \<and> key ` set xs \<inter> seen = {}"
  by (induction xs arbitrary: seen) auto

lemma enum_faults_empty: "enum_faults e = {} \<longleftrightarrow> valid_enum e"
  by (auto simp: enum_faults_def valid_enum_def repeats_empty_iff enum_value_faults_def list_all_iff)

lemma model_faults_empty: "model_faults names m = {} \<longleftrightarrow> valid_model names m"
  by (auto simp: model_faults_def valid_model_def repeats_empty_iff field_faults_def list_all_iff)

lemma decl_faults_empty: "decl_faults names d = {} \<longleftrightarrow> valid_decl names d"
  by (cases d) (simp_all add: enum_faults_empty model_faults_empty)

lemma schema_faults_empty: "schema_faults {} s = {} \<longleftrightarrow> valid_schema s"
  by (auto simp: schema_faults_def valid_schema_def repeats_empty_iff decl_faults_empty list_all_iff)

section \<open>What a check adds to the context\<close>

definition known :: "validation_context \<Rightarrow> string set" where
  "known c = {n. type_exists c n}"

text \<open>
  \<open>reports v v' L\<close>: from \<open>v\<close> to \<open>v'\<close> the tables stay as they are and errors are appended, whose
  locations are exactly \<open>L\<close>.
\<close>

definition reports :: "semantic_validator \<Rightarrow> semantic_validator \<Rightarrow> source_location set \<Rightarrow> bool" where
  "reports v v' L \<longleftrightarrow>
     (\<exists>es. sv_context v' = sv_context v\<lparr>vc_errors := vc_errors (sv_context v) @ es\<rparr> \<and>
           ve_location ` set es = L)"

lemma reports_refl [simp]: "reports v v {}"
  by (auto simp: reports_def intro: exI [of _ "[]"])

lemma reports_error_if: "reports v (error_if b msg l v) (if b then {l} else {})"
  by (auto simp: reports_def error_if_def on_context_def add_error_def)

lemma reports_trans: "reports u v L \<Longrightarrow> reports v w M \<Longrightarrow> reports u w (L \<union> M)"
  by (fastforce simp: reports_def)

lemma reports_eq: "reports u v L \<Longrightarrow> L = M \<Longrightarrow> reports u v M"
  by simp

lemma reports_known: "reports u v L \<Longrightarrow> known (sv_context v) = known (sv_context u)"
  by (auto simp: reports_def known_def type_exists_def)

lemma reports_tables:
  "reports u v L \<Longrightarrow> vc_enums (sv_context v) = vc_enums (sv_context u) \<and>
     vc_models (sv_context v) = vc_models (sv_context u)"
  by (auto simp: reports_def)

lemma reports_current [simp]:
  "reports (u\<lparr>sv_current_model := x\<rparr>) v L = reports u v L"
  "reports u (v\<lparr>sv_current_model := x\<rparr>) L = reports u v L"
  by (simp_all add: reports_def)

lemma reports_errors:
  "reports u v L \<Longrightarrow> \<exists>es. vc_errors (sv_context v) = vc_errors (sv_context u) @ es \<and> ve_location ` set es = L"
  by (auto simp: reports_def)

lemmas reports_after_error_if = reports_trans [OF reports_error_if]

locale checker =
  fixes run :: "'x \<Rightarrow> semantic_validator \<Rightarrow> semantic_validator"
    and faults :: "string set \<Rightarrow> 'x \<Rightarrow> source_location set"
  assumes run_reports: "reports v (run x v) (faults (known (sv_context v)) x)"
begin

lemma fold_reports:
  "reports v (fold run xs v) (\<Union>x \<in> set xs. faults (known (sv_context v)) x)"
proof (induction xs arbitrary: v)
  case Nil
  show ?case by simp
next
  case (Cons x xs)
  have "reports v (fold run xs (run x v))
     (faults (known (sv_context v)) x \<union>
      (\<Union>y \<in> set xs. faults (known (sv_context (run x v))) y))"
    by (rule reports_trans [OF run_reports Cons.IH])
  then show ?case
    by (simp add: reports_known [OF run_reports])
qed

lemma run_frame:
  "vc_enums (sv_context (fold run xs v)) = vc_enums (sv_context v)"
  "vc_models (sv_context (fold run xs v)) = vc_models (sv_context v)"
  using reports_tables [OF fold_reports] by auto

end

section \<open>The methods of the semantic validator are checkers\<close>

interpretation enum_value_check: checker visit_enum_value "\<lambda>names. enum_value_faults"
  by unfold_locales
    (auto simp: visit_enum_value_def enum_value_faults_def valid_enum_value_def
      intro: reports_eq [OF reports_error_if])

lemma reports_field_number:
  "reports v (validate_field_number f v) (if valid_number (fd_number f) then {} else {fd_location f})"
  unfolding validate_field_number_def
  by (rule reports_eq [OF reports_after_error_if [OF reports_error_if]]) (auto simp: valid_number_def)

lemma reports_type_exists:
  "reports v (validate_type_exists t l v)
     (if is_primitive t \<or> get_name t \<in> known (sv_context v) then {} else {l})"
  by (cases t) (auto simp: validate_type_exists_def known_def intro: reports_eq [OF reports_error_if])

lemma is_kind_string_name: "is_kind K_STRING t \<Longrightarrow> get_name t = ''string''"
  by (cases t) auto

lemma reports_field_modifiers:
  "reports v (validate_field_modifiers f v)
     (if is_optional f \<and> is_repeated f \<or> is_packed f \<and> \<not> is_repeated f \<or>
         is_bitmap f \<and> \<not> is_repeated f \<or> is_packed f \<and> is_bitmap f \<or>
         is_interned f \<and> get_name (fd_type f) \<noteq> ''string''
      then {fd_location f} else {})"
  unfolding validate_field_modifiers_def Let_def
  by (rule reports_eq, (rule reports_trans [rotated], rule reports_error_if)+, rule reports_refl) auto

lemma reports_modifier_compatibility:
  "reports v (check_modifier_compatibility f v)
     (if is_packed f \<and> \<not> is_primitive (fd_type f) \<or>
         is_interned f \<and> \<not> is_kind K_STRING (fd_type f) \<or>
         is_bitmap f \<and> \<not> is_kind K_BOOL (fd_type f)
      then {fd_location f} else {})"
proof -
  have guarded: "(if b then error_if c msg l u else u) = error_if (b \<and> c) msg l u" for b c msg l u
    by (simp add: error_if_def)
  show ?thesis
    unfolding check_modifier_compatibility_def Let_def guarded
    by (rule reports_eq, (rule reports_trans [rotated], rule reports_error_if)+, rule reports_refl) auto
qed

interpretation field_check: checker visit_field field_faults
proof
  fix f v
  show "reports v (visit_field f v) (field_faults (known (sv_context v)) f)"
    unfolding visit_field_def
  proof (rule reports_eq [OF reports_trans [OF reports_trans [OF reports_trans
          [OF reports_field_number reports_field_modifiers] reports_type_exists]
        reports_modifier_compatibility]])
    have "known (sv_context (validate_field_modifiers f (validate_field_number f v))) =
        known (sv_context v)"
      by (simp add: reports_known [OF reports_field_number] reports_known [OF reports_field_modifiers])
    then show "(if valid_number (fd_number f) then {} else {fd_location f}) \<union>
        (if is_optional f \<and> is_repeated f \<or> is_packed f \<and> \<not> is_repeated f \<or>
            is_bitmap f \<and> \<not> is_repeated f \<or> is_packed f \<and> is_bitmap f \<or>
            is_interned f \<and> get_name (fd_type f) \<noteq> ''string''
         then {fd_location f} else {}) \<union>
        (if is_primitive (fd_type f) \<or>
            get_name (fd_type f)
              \<in> known (sv_context (validate_field_modifiers f (validate_field_number f v)))
         then {} else {fd_location f}) \<union>
        (if is_packed f \<and> \<not> is_primitive (fd_type f) \<or>
            is_interned f \<and> \<not> is_kind K_STRING (fd_type f) \<or>
            is_bitmap f \<and> \<not> is_kind K_BOOL (fd_type f)
         then {fd_location f} else {}) =
        field_faults (known (sv_context v)) f"
      using is_kind_string_name [of "fd_type f"]
      by (auto simp: field_faults_def valid_field_def valid_modifiers_def)
  qed
qed

lemma reports_duplicate_numbers:
  "reports v (duplicate_numbers_loop m seen fs v) (repeats fd_number fd_location seen fs)"
  by (induction m seen fs v rule: duplicate_numbers_loop.induct)
    (auto intro: reports_eq [OF reports_after_error_if])

lemma reports_duplicate_values:
  "reports v (duplicate_values_loop e names nums xs v)
     (repeats ev_name ev_location names xs \<union> repeats ev_value ev_location nums xs)"
proof (induction e names nums xs v rule: duplicate_values_loop.induct)
  case (2 e names nums x xs v)
  show ?case
    unfolding duplicate_values_loop.simps
    by (rule reports_eq [OF reports_trans [OF reports_after_error_if [OF reports_error_if] 2]]) auto
qed simp

lemma reports_duplicate_names:
  "reports v (duplicate_names_loop seen ds v) (repeats decl_name decl_location seen ds)"
  by (induction seen ds v rule: duplicate_names_loop.induct)
    (auto intro: reports_eq [OF reports_after_error_if])

lemma add_error_is_error_if: "on_context (add_error msg l) v = error_if True msg l v"
  by (simp add: error_if_def)

lemma reports_visit_enum: "reports v (visit_enum e v) (enum_faults e)"
  unfolding visit_enum_def enum_faults_def check_duplicate_enum_values_def add_error_is_error_if
  using reports_error_if [of v True]
  by (auto intro: reports_trans [OF reports_duplicate_values enum_value_check.fold_reports])

lemma reports_visit_model:
  "reports v (visit_model m v) (model_faults (known (sv_context v)) m)"
proof (cases "md_fields m = []")
  case True
  then show ?thesis
    using reports_error_if [of v True]
    by (simp add: visit_model_def model_faults_def add_error_is_error_if)
next
  case False
  let ?v1 = "v\<lparr>sv_current_model := Some m\<rparr>"
  let ?v2 = "check_duplicate_field_numbers m ?v1"
  have dup: "reports ?v1 ?v2 (repeats fd_number fd_location {} (md_fields m))"
    unfolding check_duplicate_field_numbers_def by (rule reports_duplicate_numbers)
  have "known (sv_context ?v2) = known (sv_context v)"
    using reports_known [OF dup] by simp
  with reports_trans [OF dup field_check.fold_reports [of ?v2 "md_fields m"]] False
  show ?thesis by (simp add: visit_model_def model_faults_def Let_def)
qed

interpretation decl_check: checker visit_decl decl_faults
proof
  fix d v
  show "reports v (visit_decl d v) (decl_faults (known (sv_context v)) d)"
    by (cases d) (simp_all add: reports_visit_enum reports_visit_model)
qed

section \<open>Registration\<close>

lemma register_decl_errors [simp]:
  "vc_errors (sv_context (fold register_decl ds v)) = vc_errors (sv_context v)"
proof (induction ds arbitrary: v)
  case (Cons d ds)
  then show ?case
    by (cases d) (simp_all add: on_context_def register_enum_def register_model_def)
qed simp

lemma register_decl_known:
  "known (sv_context (register_decl d v)) = insert (decl_name d) (known (sv_context v))"
  by (cases d) (auto simp: known_def type_exists_def on_context_def register_enum_def register_model_def)

lemma register_decls_known:
  "known (sv_context (fold register_decl ds v)) = known (sv_context v) \<union> decl_name ` set ds"
  by (induction ds arbitrary: v) (auto simp: register_decl_known)

text \<open>With distinct names the registered tables answer as the look-ups of the schema do.\<close>

lemma register_decls_enums:
  assumes "distinct (map decl_name ds)"
  shows "vc_enums (sv_context (fold register_decl ds v)) name =
     (case find_enum_in ds name of None \<Rightarrow> vc_enums (sv_context v) name | Some e \<Rightarrow> Some e)"
  using assms
proof (induction ds arbitrary: v)
  case (Cons d ds)
  have "find_enum_in ds name = None" if "decl_name d = name"
    using Cons.prems that unfolding find_enum_in_None by (force simp: image_iff)
  with Cons show ?case
    by (cases d)
      (auto simp: on_context_def register_enum_def register_model_def split: option.splits)
qed simp

lemma register_decls_models:
  assumes "distinct (map decl_name ds)"
  shows "vc_models (sv_context (fold register_decl ds v)) name =
     (case find_model_in ds name of None \<Rightarrow> vc_models (sv_context v) name | Some e \<Rightarrow> Some e)"
  using assms
proof (induction ds arbitrary: v)
  case (Cons d ds)
  have "find_model_in ds name = None" if "decl_name d = name"
    using Cons.prems that unfolding find_model_in_None by (force simp: image_iff)
  with Cons show ?case
    by (cases d)
      (auto simp: on_context_def register_enum_def register_model_def split: option.splits)
qed simp

section \<open>Validation\<close>

definition pre_registration :: "schema \<Rightarrow> semantic_validator \<Rightarrow> semantic_validator" where
  "pre_registration s v =
     duplicate_names_loop {} (sc_declarations s)
       (error_if (sc_namespace s = []) ''Namespace cannot be empty'' (sc_location s) v)"

lemma visit_schema_phases:
  "visit_schema s v =
     fold visit_decl (sc_declarations s) (fold register_decl (sc_declarations s) (pre_registration s v))"
  by (simp add: visit_schema_def pre_registration_def Let_def)

lemma reports_pre_registration:
  "reports v (pre_registration s v)
     ((if sc_namespace s = [] then {sc_location s} else {}) \<union>
      repeats decl_name decl_location {} (sc_declarations s))"
  unfolding pre_registration_def by (rule reports_trans [OF reports_error_if reports_duplicate_names])

lemma visit_schema_errors:
  "\<exists>es. vc_errors (sv_context (visit_schema s v)) = vc_errors (sv_context v) @ es \<and>
        ve_location ` set es = schema_faults (known (sv_context v)) s"
proof -
  let ?v1 = "pre_registration s v"
  let ?v2 = "fold register_decl (sc_declarations s) ?v1"
  obtain es1 where es1: "vc_errors (sv_context ?v1) = vc_errors (sv_context v) @ es1"
    "ve_location ` set es1 = (if sc_namespace s = [] then {sc_location s} else {}) \<union>
      repeats decl_name decl_location {} (sc_declarations s)"
    using reports_errors [OF reports_pre_registration] by blast
  have known: "known (sv_context ?v2) = known (sv_context v) \<union> declared_names s"
    by (simp add: register_decls_known reports_known [OF reports_pre_registration] declared_names_def)
  obtain es2 where es2: "vc_errors (sv_context (visit_schema s v)) = vc_errors (sv_context ?v2) @ es2"
    "ve_location ` set es2 =
      (\<Union>d \<in> set (sc_declarations s). decl_faults (known (sv_context v) \<union> declared_names s) d)"
    using reports_errors [OF decl_check.fold_reports [of ?v2 "sc_declarations s"]]
    unfolding visit_schema_phases known by blast
  show ?thesis
    using es1 es2 by (intro exI [of _ "es1 @ es2"]) (simp add: schema_faults_def image_Un Un_assoc)
qed

lemma visit_schema_tables:
  assumes "distinct (map decl_name (sc_declarations s))"
  shows "vc_enums (sv_context (visit_schema s v)) name =
      (case find_enum s name of None \<Rightarrow> vc_enums (sv_context v) name | Some e \<Rightarrow> Some e)"
    and "vc_models (sv_context (visit_schema s v)) name =
      (case find_model s name of None \<Rightarrow> vc_models (sv_context v) name | Some e \<Rightarrow> Some e)"
  using reports_tables [OF reports_pre_registration [of v s]]
  by (simp_all add: visit_schema_phases decl_check.run_frame find_enum_def find_model_def
      register_decls_enums [OF assms] register_decls_models [OF assms] split: option.splits)

lemma known_new_context [simp]: "known new_context = {}"
  by (simp add: known_def type_exists_def new_context_def)

lemma validate_result:
  "\<exists>es. vc_errors (snd (validate s c)) = vc_errors c @ es \<and>
        ve_location ` set es = schema_faults (known c) s \<and>
        (fst (validate s c) \<longleftrightarrow> vc_errors c = [] \<and> es = [])"
proof -
  obtain es where "vc_errors (snd (validate s c)) = vc_errors c @ es"
    "ve_location ` set es = schema_faults (known c) s"
    using visit_schema_errors [of s "new_semantic_validator c"]
    by (auto simp: validate_def Let_def new_semantic_validator_def)
  then show ?thesis
    by (auto simp: validate_def Let_def has_errors_def)
qed

lemma validate_iff_valid: "fst (validate s new_context) \<longleftrightarrow> valid_schema s"
  using validate_result [of s new_context]
  by (auto simp: new_context_def [THEN arg_cong [of _ _ vc_errors]] schema_faults_empty [symmetric])

section \<open>Properties\<close>



text \<open>
  C24: A validator that is used again keeps its context: earlier errors stay in front and make
  every later validation fail, and the types of the earlier schema still count as declared.
\<close>

theorem validate_accumulates:
  "\<exists>es. get_errors (snd (validate s c)) = get_errors c @ es \<and>
        ve_location ` set es = schema_faults {n. type_exists c n} s \<and>
        (fst (validate s c) \<longleftrightarrow> \<not> has_errors c \<and> schema_faults {n. type_exists c n} s = {})"
  using validate_result [of s c] by (auto simp: get_errors_def has_errors_def known_def)

text \<open>
  C25: After a schema is accepted, the tables of the context agree with the look-ups of the schema.
\<close>

theorem validated_tables_agree:
  assumes "fst (validate s new_context)"
  shows "ctx_find_enum (snd (validate s new_context)) name = find_enum s name \<and>
    ctx_find_model (snd (validate s new_context)) name = find_model s name"
proof -
  have "schema_faults {} s = {}"
    using assms validate_result [of s new_context] by auto
  then have "distinct (map decl_name (sc_declarations s))"
    by (auto simp: schema_faults_empty valid_schema_def)
  from visit_schema_tables [OF this, of "new_semantic_validator new_context" name]
  show ?thesis
    by (simp add: validate_def Let_def new_semantic_validator_def new_context_def
        ctx_find_enum_def ctx_find_model_def split: option.splits)
qed

definition sample_schema :: schema where
  "sample_schema =
     \<lparr>sc_namespace = ''demo'',
      sc_declarations =
        [EnumDecl \<lparr>en_name = ''Kind'',
           en_values = [\<lparr>ev_name = ''A'', ev_value = 0, ev_location = mk_loc 2 3 20\<rparr>,
                        \<lparr>ev_name = ''B'', ev_value = 1, ev_location = mk_loc 3 3 30\<rparr>],
           en_location = mk_loc 1 1 10\<rparr>,
         ModelDecl \<lparr>md_name = ''Item'',
           md_fields = [new_field (UserType ''Kind'' (mk_loc 6 3 60)) ''kind'' 1 (mk_loc 6 3 60),
                        new_field (PrimitiveType K_INT32 (mk_loc 7 3 70)) ''count'' 2 (mk_loc 7 3 70)],
           md_location = mk_loc 5 1 50\<rparr>],
      sc_location = mk_loc 1 1 0\<rparr>"

lemma sample_schema_accepted: "fst (validate sample_schema new_context)"
  by code_simp

theorem validated_tables_agree_witness:
  "fst (validate sample_schema new_context) \<and>
   ctx_find_enum (snd (validate sample_schema new_context)) ''Kind'' = find_enum sample_schema ''Kind'' \<and>
   ctx_find_model (snd (validate sample_schema new_context)) ''Kind'' = find_model sample_schema ''Kind''"
  using validated_tables_agree [OF sample_schema_accepted] sample_schema_accepted by simp

end
