(* ===== verification/Arg_Spec.thy ===== *)
theory Arg_Spec
  imports Arg_Parser
begin

text \<open>
  What the command-line parser promises: the invariant of its pointer containers, the events a
  command line stands for (\<open>read_args\<close>), and that parsing applies these events to the reset options.
  The locale \<open>option_reader\<close> is the contract between the main loop and the two kinds of options.
\<close>

section \<open>The invariant\<close>

definition option_ok :: "arg_parser \<Rightarrow> nat \<Rightarrow> bool" where
  "option_ok p a \<longleftrightarrow>
     (let opt = ap_store p ! a in
      ao_long_name opt \<noteq> [] \<and> ap_long_options p (ao_long_name opt) = Some a \<and>
      (ao_short_name opt \<noteq> nul_char \<longrightarrow> ap_short_options p (ao_short_name opt) = Some a) \<and>
      (ao_is_set opt \<and> ao_has_arg opt \<or> ao_value opt = ao_default_value opt))"

definition arg_inv :: "arg_parser \<Rightarrow> bool" where
  "arg_inv p \<longleftrightarrow>
     ap_options_order p = [0..<length (ap_store p)] \<and>
     (\<forall>a < length (ap_store p). option_ok p a) \<and>
     (\<forall>key a. ap_long_options p key = Some a \<longrightarrow>
        a < length (ap_store p) \<and> ao_long_name (ap_store p ! a) = key) \<and>
     (\<forall>c a. ap_short_options p c = Some a \<longrightarrow>
        a < length (ap_store p) \<and> ao_short_name (ap_store p ! a) = c \<and> c \<noteq> nul_char)"

lemma arg_inv_long:
  "arg_inv p \<Longrightarrow> ap_long_options p key = Some a \<Longrightarrow>
     a < length (ap_store p) \<and> ao_long_name (ap_store p ! a) = key"
  by (simp add: arg_inv_def)

lemma arg_inv_short:
  "arg_inv p \<Longrightarrow> ap_short_options p c = Some a \<Longrightarrow>
     a < length (ap_store p) \<and> ao_short_name (ap_store p ! a) = c \<and> c \<noteq> nul_char"
  by (simp add: arg_inv_def)

lemma arg_inv_new [simp]: "arg_inv new_arg_parser"
  by (simp add: arg_inv_def new_arg_parser_def)

text \<open>A new option whose names are both free.\<close>

definition insert_option :: "char \<Rightarrow> string \<Rightarrow> arg_option \<Rightarrow> arg_parser \<Rightarrow> arg_parser" where
  "insert_option s key opt p =
     p\<lparr>ap_store := ap_store p @ [opt],
       ap_long_options := (ap_long_options p)(key \<mapsto> length (ap_store p)),
       ap_short_options :=
         (if s \<noteq> nul_char then (ap_short_options p)(s \<mapsto> length (ap_store p)) else ap_short_options p),
       ap_options_order := ap_options_order p @ [length (ap_store p)]\<rparr>"

lemma add_option_eq_Inr:
  "add_option s l d h def p = Inr q \<longleftrightarrow>
     (\<exists>key. key = (if l = [] then [s] else l) \<and> (l \<noteq> [] \<or> s \<noteq> nul_char) \<and>
        ap_long_options p key = None \<and> (s \<noteq> nul_char \<longrightarrow> ap_short_options p s = None) \<and>
        q = insert_option s key (new_option s key d h def) p)"
  by (auto simp: add_option_def Let_def insert_option_def)

lemma insert_option_ok:
  assumes inv: "arg_inv p" and a: "a < length (ap_store p)"
    and new: "ap_long_options p key = None" "s \<noteq> nul_char \<Longrightarrow> ap_short_options p s = None"
  shows "option_ok (insert_option s key opt p) a"
proof -
  have ok: "option_ok p a" using inv a by (simp add: arg_inv_def)
  then have "ao_long_name (ap_store p ! a) \<noteq> key"
    using new(1) by (auto simp: option_ok_def Let_def)
  moreover have "ao_short_name (ap_store p ! a) \<noteq> s" if "s \<noteq> nul_char"
    using ok new(2) that by (auto simp: option_ok_def Let_def)
  ultimately show ?thesis
    using ok a by (simp add: option_ok_def insert_option_def nth_append Let_def)
qed

lemma arg_inv_insert_option:
  assumes inv: "arg_inv p" and key: "key \<noteq> []"
    and new: "ap_long_options p key = None" "s \<noteq> nul_char \<Longrightarrow> ap_short_options p s = None"
  shows "arg_inv (insert_option s key (new_option s key d h def) p)" (is "arg_inv ?q")
  unfolding arg_inv_def
proof (intro conjI allI impI)
  show "ap_options_order ?q = [0..<length (ap_store ?q)]"
    using inv by (simp add: arg_inv_def insert_option_def)
  show "option_ok ?q a" if "a < length (ap_store ?q)" for a
  proof (cases "a < length (ap_store p)")
    case True
    then show ?thesis by (rule insert_option_ok [OF inv _ new])
  next
    case False
    with that have "a = length (ap_store p)" by (simp add: insert_option_def)
    with key show ?thesis by (simp add: option_ok_def insert_option_def new_option_def)
  qed
  show "a < length (ap_store ?q)" "ao_long_name (ap_store ?q ! a) = k"
    if "ap_long_options ?q k = Some a" for k a
    using that arg_inv_long [OF inv, of k a]
    by (auto simp: insert_option_def nth_append new_option_def split: if_splits)
  show "a < length (ap_store ?q)" "ao_short_name (ap_store ?q ! a) = c" "c \<noteq> nul_char"
    if "ap_short_options ?q c = Some a" for c a
    using that arg_inv_short [OF inv, of c a]
    by (auto simp: insert_option_def nth_append new_option_def split: if_splits)
qed

lemma arg_inv_add_option: "arg_inv p \<Longrightarrow> add_option s l d h def p = Inr q \<Longrightarrow> arg_inv q"
  by (auto simp: add_option_eq_Inr intro!: arg_inv_insert_option)

section \<open>What parsing leaves unchanged\<close>

text \<open>Two parsers with the same declared options, whatever a former parse has left in them.\<close>

definition same_options :: "arg_parser \<Rightarrow> arg_parser \<Rightarrow> bool" where
  "same_options p q \<longleftrightarrow> reset p = reset q"

lemma reset_option_idem [simp]: "reset_option (reset_option opt) = reset_option opt"
  by (simp add: reset_option_def)

lemma reset_option_set [simp]:
  "reset_option (set_flag opt) = reset_option opt"
  "reset_option (set_value v opt) = reset_option opt"
  by (simp_all add: reset_option_def set_flag_def set_value_def)

lemma reset_idem [simp, frame]: "reset (reset p) = reset p"
  by (simp add: reset_def comp_def)

lemma reset_on_option [frame]:
  "(\<And>opt. reset_option (g opt) = reset_option opt) \<Longrightarrow> reset (on_option a g p) = reset p"
  by (cases "a < length (ap_store p)")
    (simp_all add: reset_def on_option_def map_update list_update_same_conv list_update_beyond)

lemma reset_push_positional [simp, frame]: "reset (push_positional xs p) = reset p"
  by (simp add: reset_def push_positional_def)

lemma same_options_lookup:
  assumes "same_options p q"
  shows "ap_long_options p = ap_long_options q" "ap_short_options p = ap_short_options q"
    "ap_options_order p = ap_options_order q" "length (ap_store p) = length (ap_store q)"
    "map reset_option (ap_store p) = map reset_option (ap_store q)"
proof -
  have eq: "reset p = reset q" using assms by (simp add: same_options_def)
  show "ap_long_options p = ap_long_options q" using arg_cong [OF eq, of ap_long_options] by (simp add: reset_def)
  show "ap_short_options p = ap_short_options q" using arg_cong [OF eq, of ap_short_options] by (simp add: reset_def)
  show "ap_options_order p = ap_options_order q" using arg_cong [OF eq, of ap_options_order] by (simp add: reset_def)
  show store: "map reset_option (ap_store p) = map reset_option (ap_store q)"
    using arg_cong [OF eq, of ap_store] by (simp add: reset_def)
  show "length (ap_store p) = length (ap_store q)" by (rule map_eq_imp_length_eq [OF store])
qed

lemma same_options_nth:
  assumes "same_options p q" "a < length (ap_store p)"
  shows "reset_option (ap_store p ! a) = reset_option (ap_store q ! a)"
  using assms same_options_lookup(4,5) [OF assms(1)] by (metis nth_map)

lemma reset_option_eqD:
  assumes "reset_option o1 = reset_option o2"
  shows "ao_has_arg o1 = ao_has_arg o2" "ao_long_name o1 = ao_long_name o2"
    "ao_short_name o1 = ao_short_name o2" "ao_default_value o1 = ao_default_value o2"
    "ao_description o1 = ao_description o2"
  using arg_cong [OF assms, of ao_has_arg] arg_cong [OF assms, of ao_long_name]
    arg_cong [OF assms, of ao_short_name] arg_cong [OF assms, of ao_default_value]
    arg_cong [OF assms, of ao_description]
  by (simp_all add: reset_option_def)

lemma same_options_has_arg:
  "same_options p q \<Longrightarrow> a < length (ap_store p) \<Longrightarrow> has_arg_at p a = has_arg_at q a"
  using reset_option_eqD(1) [OF same_options_nth] by (simp add: has_arg_at_def)

section \<open>The events of a command line\<close>

datatype cl_event = Given nat string | Flagged nat | Positional string

fun apply_event :: "cl_event \<Rightarrow> arg_parser \<Rightarrow> arg_parser" where
  "apply_event (Given a v) p = on_option a (set_value v) p"
| "apply_event (Flagged a) p = on_option a set_flag p"
| "apply_event (Positional s) p = push_positional [s] p"

type_synonym reading = "cl_event list \<times> std_exn option"

definition run_events :: "reading \<Rightarrow> arg_parser \<Rightarrow> arg_parser arg_result" where
  "run_events r p =
     (let q = fold apply_event (fst r) p in case snd r of None \<Rightarrow> Inr q | Some e \<Rightarrow> Inl (e, q))"

text \<open>The value of an option that needs one, taken from the next argument.\<close>

definition next_value :: "nat \<Rightarrow> string \<Rightarrow> string list \<Rightarrow> reading \<times> bool" where
  "next_value a shown rest =
     (case rest of
        [] \<Rightarrow> (([], Some (Runtime_error (''Option '' @ sq @ shown @ sq @ '' requires an argument''))), False)
      | v # _ \<Rightarrow> (([Given a v], None), True))"

definition no_argument :: "string \<Rightarrow> reading" where
  "no_argument shown =
     ([], Some (Runtime_error (''Option '' @ sq @ shown @ sq @ '' does not take an argument'')))"

abbreviation not_eq_sign :: "char \<Rightarrow> bool" where
  "not_eq_sign c \<equiv> c \<noteq> CHR ''=''"

text \<open>
  Each kind of option reads its token and the arguments behind it, and tells whether it used the
  next argument.
\<close>

definition read_long :: "arg_parser \<Rightarrow> string \<Rightarrow> string list \<Rightarrow> reading \<times> bool" where
  "read_long p token rest =
     (let body = drop 2 token; name = takeWhile not_eq_sign body in
      case ap_long_options p name of
        None \<Rightarrow> (([], Some (Runtime_error (''Unknown option: '' @ token))), False)
      | Some a \<Rightarrow>
          if CHR ''='' \<in> set body then
            (if has_arg_at p a then ([Given a (tl (dropWhile not_eq_sign body))], None)
             else no_argument token, False)
          else if has_arg_at p a then next_value a token rest
          else (([Flagged a], None), False))"

fun read_cluster :: "arg_parser \<Rightarrow> string \<Rightarrow> string list \<Rightarrow> reading \<times> bool" where
  "read_cluster p [] rest = (([], None), False)"
| "read_cluster p (c # cs) rest =
     (case ap_short_options p c of
        None \<Rightarrow> (([], Some (Runtime_error (''Unknown short option: -'' @ [c]))), False)
      | Some a \<Rightarrow>
          if has_arg_at p a then
            if cs \<noteq> [] then (([Given a cs], None), False) else next_value a (''-'' @ [c]) rest
          else case read_cluster p cs rest of ((es, err), used) \<Rightarrow> ((Flagged a # es, err), used))"

definition read_short :: "arg_parser \<Rightarrow> string \<Rightarrow> string list \<Rightarrow> reading \<times> bool" where
  "read_short p token rest =
     (let body = drop 1 token in
      if CHR ''='' \<notin> set body then read_cluster p body rest
      else if length (takeWhile not_eq_sign body) \<noteq> 1 then
        (([], Some (Runtime_error (''Invalid short option format: '' @ token))), False)
      else case ap_short_options p (hd body) of
             None \<Rightarrow> (([], Some (Runtime_error (''Unknown short option: -'' @ [hd body]))), False)
           | Some a \<Rightarrow> (if has_arg_at p a then ([Given a (drop 2 body)], None)
                       else no_argument (''-'' @ [hd body]), False))"

definition read_token :: "arg_parser \<Rightarrow> string \<Rightarrow> string list \<Rightarrow> reading \<times> bool" where
  "read_token p t rest =
     (if prefix ''--'' t then read_long p t rest
      else if length t \<ge> 2 \<and> prefix ''-'' t then read_short p t rest
      else (([Positional t], None), False))"

fun read_args :: "arg_parser \<Rightarrow> string list \<Rightarrow> reading" where
  "read_args p [] = ([], None)"
| "read_args p (t # ts) =
     (if t = ''--'' then (map Positional ts, None)
      else case read_token p t ts of
             ((es, Some e), used) \<Rightarrow> (es, Some e)
           | ((es, None), used) \<Rightarrow>
               (case read_args p (if used then tl ts else ts) of (es', err) \<Rightarrow> (es @ es', err)))"

section \<open>Each kind of option refines its reading\<close>

definition event_ok :: "arg_parser \<Rightarrow> cl_event \<Rightarrow> bool" where
  "event_ok p e = (case e of
     Given a v \<Rightarrow> a < length (ap_store p) \<and> has_arg_at p a
   | Flagged a \<Rightarrow> a < length (ap_store p) \<and> \<not> has_arg_at p a
   | Positional s \<Rightarrow> True)"

lemma run_events_Nil [simp]: "run_events ([], None) p = Inr p"
  by (simp add: run_events_def)

lemma run_events_Cons [simp]: "run_events (e # es, err) p = run_events (es, err) (apply_event e p)"
  by (simp add: run_events_def)

lemma run_events_error [simp]: "run_events ([], Some e) p = Inl (e, p)"
  by (simp add: run_events_def)

lemma run_events_append:
  "run_events (es @ es', err) p = bindR (run_events (es, None) p) (run_events (es', err))"
  by (simp add: run_events_def)

lemma reset_apply_event [simp]: "reset (apply_event e p) = reset p"
  by (cases e) (simp_all add: reset_on_option)

lemma reset_apply_events [simp]: "reset (fold apply_event es p) = reset p"
  by (induction es arbitrary: p) auto

lemma same_options_apply [simp]: "same_options (apply_event e p) q = same_options p q"
  by (simp add: same_options_def)

lemma find_char_takeWhile:
  "find_char c s = (if c \<in> set s then Some (length (takeWhile (\<lambda>x. x \<noteq> c) s)) else None)"
  by (induction s) auto

lemma drop_length_takeWhile_Suc:
  "drop (Suc (length (takeWhile P xs))) xs = tl (dropWhile P xs)"
  by (induction xs) auto

lemmas option_step_simps =
  same_options_lookup(1,2) same_options_has_arg next_value_def no_argument_def

locale option_reader =
  fixes step :: "string \<Rightarrow> nat \<Rightarrow> string list \<Rightarrow> arg_parser \<Rightarrow> (nat \<times> arg_parser) arg_result"
    and reader :: "arg_parser \<Rightarrow> string \<Rightarrow> string list \<Rightarrow> reading \<times> bool"
    and accepts :: "string \<Rightarrow> bool"
  assumes step_refines:
      "arg_inv p0 \<Longrightarrow> same_options p p0 \<Longrightarrow> accepts t \<Longrightarrow>
       step t i argv p =
         (case reader p0 t (drop (Suc i) argv) of
            (r, used) \<Rightarrow> bindR (run_events r p) (\<lambda>q. Inr (if used then i + 2 else i + 1, q)))"
    and reader_events: "arg_inv p0 \<Longrightarrow> list_all (event_ok p0) (fst (fst (reader p0 t rest)))"
begin

text \<open>
  When the loop refines the reading of what is left, so does a step followed by the loop.
\<close>

lemma step_then_loop:
  assumes "arg_inv p0" "same_options p p0" "accepts t"
    and loop: "\<And>i' p'. step t i argv p = Inr (i', p') \<Longrightarrow> same_options p' p0 \<Longrightarrow>
      loop i' p' = run_events (read_args p0 (drop i' argv)) p'"
  shows "bindR (step t i argv p) (\<lambda>(i', p'). loop i' p') =
    (case reader p0 t (drop (Suc i) argv) of
       ((es, Some e), used) \<Rightarrow> run_events (es, Some e) p
     | ((es, None), used) \<Rightarrow>
         (case read_args p0 (if used then tl (drop (Suc i) argv) else drop (Suc i) argv) of
            (es', err) \<Rightarrow> run_events (es @ es', err) p))"
proof -
  obtain es err used where r: "reader p0 t (drop (Suc i) argv) = ((es, err), used)"
    by (metis surj_pair)
  show ?thesis
  proof (cases err)
    case (Some e)
    then show ?thesis by (simp add: step_refines [OF assms(1-3)] r run_events_def)
  next
    case None
    let ?i = "if used then i + 2 else i + 1" and ?q = "fold apply_event es p"
    have step: "step t i argv p = Inr (?i, ?q)"
      by (simp add: step_refines [OF assms(1-3)] r None run_events_def)
    have "same_options ?q p0" using assms(2) by (simp add: same_options_def)
    from loop [OF step this] have "loop ?i ?q = run_events (read_args p0 (drop ?i argv)) ?q" .
    moreover have "drop ?i argv = (if used then tl (drop (Suc i) argv) else drop (Suc i) argv)"
      by (simp add: drop_Suc tl_drop)
    ultimately show ?thesis
      by (simp add: step r None run_events_append run_events_def split: prod.split)
  qed
qed

end

lemma read_cluster_events: "arg_inv p \<Longrightarrow> list_all (event_ok p) (fst (fst (read_cluster p cs rest)))"
  by (induction p cs rest rule: read_cluster.induct)
    (auto simp: next_value_def event_ok_def dest: arg_inv_short
      split: option.splits list.splits prod.splits)

lemma short_options_loop_refines:
  assumes "arg_inv p0" "same_options p p0"
  shows "short_options_loop cs i argv p =
    (case read_cluster p0 cs (drop (Suc i) argv) of
       (r, used) \<Rightarrow> bindR (run_events r p) (\<lambda>q. Inr (if used then i + 2 else i, used, q)))"
  using assms(2)
proof (induction cs arbitrary: p)
  case (Cons c cs)
  show ?case
  proof (cases "ap_short_options p0 c")
    case (Some a)
    have in_store: "a < length (ap_store p)"
      using arg_inv_short [OF assms(1) Some] same_options_lookup(4) [OF Cons.prems] by simp
    have "same_options (on_option a set_flag p) p0"
      using Cons.prems by (simp add: same_options_def reset_on_option)
    note IH = Cons.IH [OF this]
    show ?thesis
      using Some in_store same_options_has_arg [OF Cons.prems in_store]
      by (cases "drop (Suc i) argv")
        (auto simp: IH same_options_lookup(2) [OF Cons.prems] next_value_def
          nth_via_drop split: prod.split)
  qed (simp add: same_options_lookup(2) [OF Cons.prems])
qed simp

lemma drop_Cons_nth: "drop (Suc i) argv = v # vs \<Longrightarrow> Suc i < length argv \<and> argv ! Suc i = v"
  by (metis drop_eq_Nil2 leI list.distinct(1) nth_via_drop)

lemma parse_long_option_name:
  "parse_long_option (CHR ''-'' # CHR ''-'' # body) i argv p =
     (case ap_long_options p (takeWhile not_eq_sign body) of
        None \<Rightarrow> Inl (Runtime_error (''Unknown option: --'' @ body), p)
      | Some a \<Rightarrow>
          if has_arg_at p a then
            if CHR ''='' \<in> set body
            then Inr (i + 1, on_option a (set_value (tl (dropWhile not_eq_sign body))) p)
            else if i + 1 < length argv then Inr (i + 2, on_option a (set_value (argv ! (i + 1))) p)
            else Inl (Runtime_error (''Option '' @ sq @ ''--'' @ body @ sq @ '' requires an argument''), p)
          else if CHR ''='' \<in> set body
          then Inl (Runtime_error (''Option '' @ sq @ ''--'' @ body @ sq @ '' does not take an argument''), p)
          else Inr (i + 1, on_option a set_flag p))"
proof (cases "CHR ''='' \<in> set body")
  case True
  then show ?thesis
    by (cases "ap_long_options p (takeWhile not_eq_sign body)")
      (simp_all add: parse_long_option_def Let_def find_char_takeWhile substr_def substr_from_def
        take_length_takeWhile drop_length_takeWhile_Suc)
next
  case False
  then have name: "takeWhile not_eq_sign body = body" by (auto simp: takeWhile_eq_all_conv)
  show ?thesis
    unfolding name using False
    by (cases "ap_long_options p body")
      (simp_all add: parse_long_option_def Let_def find_char_takeWhile substr_from_def)
qed

interpretation long_options: option_reader parse_long_option read_long "prefix ''--''"
proof
  fix p0 p :: arg_parser and t i argv
  assume inv: "arg_inv p0" and same: "same_options p p0" and "prefix ''--'' t"
  then obtain body where t: "t = CHR ''-'' # CHR ''-'' # body" by (auto simp: prefix_def)
  let ?name = "takeWhile not_eq_sign body"
  show "parse_long_option t i argv p =
    (case read_long p0 t (drop (Suc i) argv) of
       (r, used) \<Rightarrow> bindR (run_events r p) (\<lambda>q. Inr (if used then i + 2 else i + 1, q)))"
  proof (cases "ap_long_options p0 ?name")
    case None
    then show ?thesis
      by (simp add: t parse_long_option_name read_long_def same_options_lookup(1) [OF same])
  next
    case (Some a)
    have "a < length (ap_store p)"
      using arg_inv_long [OF inv Some] same_options_lookup(4) [OF same] by simp
    note has_arg = same_options_has_arg [OF same this]
    show ?thesis
      using Some has_arg
      by (cases "drop (Suc i) argv")
        (auto simp: t parse_long_option_name read_long_def same_options_lookup(1) [OF same]
          next_value_def no_argument_def dest: drop_Cons_nth)
  qed
next
  fix p0 t rest
  assume "arg_inv p0"
  then show "list_all (event_ok p0) (fst (fst (read_long p0 t rest)))"
    by (auto simp: read_long_def Let_def next_value_def no_argument_def event_ok_def
        dest: arg_inv_long split: option.splits list.splits)
qed

lemma parse_short_option_body:
  "parse_short_option (CHR ''-'' # body) i argv p =
     (if CHR ''='' \<notin> set body then
        bindR (short_options_loop body i argv p)
          (\<lambda>(i', consumed_next, p'). Inr (if consumed_next then i' else i' + 1, p'))
      else if length (takeWhile not_eq_sign body) \<noteq> 1 then
        Inl (Runtime_error (''Invalid short option format: -'' @ body), p)
      else case ap_short_options p (hd body) of
             None \<Rightarrow> Inl (Runtime_error (''Unknown short option: -'' @ [hd body]), p)
           | Some a \<Rightarrow>
               if has_arg_at p a then Inr (i + 1, on_option a (set_value (drop 2 body)) p)
               else Inl (Runtime_error (''Option '' @ sq @ ''-'' @ [hd body] @ sq @
                           '' does not take an argument''), p))"
proof -
  have "body ! 0 = hd body" if "CHR ''='' \<in> set body" using that by (cases body) auto
  then show ?thesis
    by (auto simp: parse_short_option_def Let_def find_char_takeWhile substr_from_def numeral_2_eq_2
        split: option.splits)
qed

interpretation short_options: option_reader parse_short_option read_short "prefix ''-''"
proof
  fix p0 p :: arg_parser and t i argv
  assume inv: "arg_inv p0" and same: "same_options p p0" and "prefix ''-'' t"
  then obtain body where t: "t = CHR ''-'' # body" by (auto simp: prefix_def)
  show "parse_short_option t i argv p =
    (case read_short p0 t (drop (Suc i) argv) of
       (r, used) \<Rightarrow> bindR (run_events r p) (\<lambda>q. Inr (if used then i + 2 else i + 1, q)))"
  proof (cases "CHR ''='' \<in> set body")
    case False
    then show ?thesis
      by (auto simp: t parse_short_option_body read_short_def short_options_loop_refines [OF inv same]
          bindR_def split: prod.split sum.split)
  next
    case True
    have has_arg: "has_arg_at p a = has_arg_at p0 a" if "ap_short_options p0 (hd body) = Some a" for a
      using arg_inv_short [OF inv that] same_options_lookup(4) [OF same] same_options_has_arg [OF same]
      by simp
    show ?thesis
      using True
      by (auto simp: t parse_short_option_body read_short_def same_options_lookup(2) [OF same]
          no_argument_def has_arg split: option.split)
  qed
next
  fix p0 t rest
  assume "arg_inv p0"
  then show "list_all (event_ok p0) (fst (fst (read_short p0 t rest)))"
    by (auto simp: read_short_def Let_def no_argument_def event_ok_def read_cluster_events
        dest: arg_inv_short split: option.splits)
qed

section \<open>Parsing refines the reading of the command line\<close>

lemma prefix_dash:
  "prefix ''--'' t \<longleftrightarrow> length t \<ge> 2 \<and> t ! 0 = CHR ''-'' \<and> t ! 1 = CHR ''-''"
  "prefix ''-'' t \<longleftrightarrow> t \<noteq> [] \<and> t ! 0 = CHR ''-''"
  by (cases t; cases "tl t"; auto)+

lemma push_positional_nil [simp]: "push_positional [] p = p"
  by (simp add: push_positional_def)

lemma push_positional_twice [simp]:
  "push_positional ys (push_positional xs p) = push_positional (xs @ ys) p"
  by (simp add: push_positional_def)

lemma apply_positionals: "fold apply_event (map Positional xs) p = push_positional xs p"
  by (induction xs arbitrary: p) simp_all

lemma parse_loop_refines:
  assumes inv: "arg_inv p0"
  shows "same_options p p0 \<Longrightarrow> parse_loop argv i p = run_events (read_args p0 (drop i argv)) p"
proof (induction argv i p rule: parse_loop.induct)
  case (1 argv i p)
  show ?case
  proof (cases "i < length argv")
    case False
    then show ?thesis by (simp add: parse_loop.simps [of argv i])
  next
    case True
    let ?t = "argv ! i"
    have args: "drop i argv = ?t # drop (Suc i) argv" using True by (rule drop_nth_Cons)
    consider (stop) "?t = ''--''" | (long) "?t \<noteq> ''--''" "prefix ''--'' ?t"
      | (short) "\<not> prefix ''--'' ?t" "length ?t \<ge> 2" "prefix ''-'' ?t"
      | (plain) "\<not> prefix ''--'' ?t" "\<not> (length ?t \<ge> 2 \<and> prefix ''-'' ?t)" by auto
    then show ?thesis
    proof cases
      case stop
      then show ?thesis
        using True by (simp add: parse_loop.simps [of argv i] args run_events_def apply_positionals)
    next
      case long
      have "parse_loop argv i p =
          bindR (parse_long_option ?t i argv p) (\<lambda>(i', p'). parse_loop argv i' p')"
        using True long by (subst parse_loop.simps) (auto simp: prefix_dash Let_def)
      also have "\<dots> = run_events (read_args p0 (drop i argv)) p"
        using True long
        by (subst long_options.step_then_loop [OF inv "1.prems" long(2)])
          (auto simp: prefix_dash args read_token_def intro!: "1.IH"(1) split: prod.split option.split)
      finally show ?thesis .
    next
      case short
      have "parse_loop argv i p =
          bindR (parse_short_option ?t i argv p) (\<lambda>(i', p'). parse_loop argv i' p')"
        using True short by (subst parse_loop.simps) (auto simp: prefix_dash Let_def)
      also have "\<dots> = run_events (read_args p0 (drop i argv)) p"
        using True short
        by (subst short_options.step_then_loop [OF inv "1.prems" short(3)])
          (auto simp: prefix_dash args read_token_def intro!: "1.IH"(2) split: prod.split option.split)
      finally show ?thesis .
    next
      case plain
      then have "?t \<noteq> ''--''" by auto
      then have "parse_loop argv (Suc i) (push_positional [?t] p) =
          run_events (read_args p0 (drop (Suc i) argv)) (push_positional [?t] p)"
        using 1 True plain by (auto simp: prefix_dash same_options_def)
      then show ?thesis
        using True plain
        by (auto simp: parse_loop.simps [of argv i] prefix_dash args read_token_def split: prod.split)
    qed
  qed
qed

lemma parse_args_refines:
  assumes "arg_inv p"
  shows "parse_args argv p = run_events (read_args p (tl argv)) (reset p)"
  using parse_loop_refines [OF assms, of "reset p" argv 1]
  by (simp add: parse_args_def same_options_def drop_Suc)

lemma read_token_events: "arg_inv p \<Longrightarrow> list_all (event_ok p) (fst (fst (read_token p t ts)))"
  using long_options.reader_events short_options.reader_events
  by (simp add: read_token_def event_ok_def)

lemma list_all_positional [simp]: "list_all (event_ok p) (map Positional xs)"
  by (simp add: list_all_iff event_ok_def)

lemma read_args_events: "arg_inv p \<Longrightarrow> list_all (event_ok p) (fst (read_args p ts))"
proof (induction p ts rule: read_args.induct)
  case (2 p t ts)
  obtain es err used where r: "read_token p t ts = ((es, err), used)" by (metis surj_pair)
  with 2 read_token_events [OF "2.prems", of t ts] show ?case
    by (cases err) (auto split: prod.split)
qed simp

section \<open>What the events mean for the options\<close>

definition values_given :: "nat \<Rightarrow> cl_event list \<Rightarrow> string list" where
  "values_given a es =
     concat (map (\<lambda>e. case e of Given b v \<Rightarrow> if b = a then [v] else [] | _ \<Rightarrow> []) es)"

definition positionals :: "cl_event list \<Rightarrow> string list" where
  "positionals es = concat (map (\<lambda>e. case e of Positional s \<Rightarrow> [s] | _ \<Rightarrow> []) es)"

definition touched :: "nat \<Rightarrow> cl_event list \<Rightarrow> bool" where
  "touched a es \<longleftrightarrow> Flagged a \<in> set es \<or> values_given a es \<noteq> []"

lemma values_given_snoc [simp]:
  "values_given a (es @ [e]) =
     values_given a es @ (case e of Given b v \<Rightarrow> if b = a then [v] else [] | _ \<Rightarrow> [])"
  by (simp add: values_given_def)

lemma positionals_snoc [simp]:
  "positionals (es @ [e]) = positionals es @ (case e of Positional s \<Rightarrow> [s] | _ \<Rightarrow> [])"
  by (simp add: positionals_def)

lemma apply_events_store_length [simp]: "length (ap_store (fold apply_event es p)) = length (ap_store p)"
proof (induction es rule: rev_induct)
  case (snoc e es)
  then show ?case by (cases e) (simp_all add: on_option_def push_positional_def)
qed simp

lemma apply_events_long [simp]:
  "ap_long_options (fold apply_event es p) = ap_long_options p"
  using same_options_lookup(1) [of "fold apply_event es p" p] by (simp add: same_options_def)

lemma apply_events_short [simp]:
  "ap_short_options (fold apply_event es p) = ap_short_options p"
  using same_options_lookup(2) [of "fold apply_event es p" p] by (simp add: same_options_def)

lemma apply_events_store:
  assumes "a < length (ap_store p)"
  shows "ap_store (fold apply_event es p) ! a =
    (ap_store p ! a)\<lparr>ao_is_set := ao_is_set (ap_store p ! a) \<or> touched a es,
       ao_value := (if values_given a es = [] then ao_value (ap_store p ! a)
                    else last (values_given a es))\<rparr>"
proof (induction es rule: rev_induct)
  case Nil
  show ?case by (simp add: touched_def values_given_def)
next
  case (snoc e es)
  have len: "a < length (ap_store (fold apply_event es p))" using assms by simp
  show ?case
  proof (cases e)
    case (Given b v)
    with snoc len show ?thesis
      by (cases "b = a") (auto simp: on_option_def set_value_def touched_def)
  next
    case (Flagged b)
    with snoc len show ?thesis
      by (cases "b = a") (auto simp: on_option_def set_flag_def touched_def)
  next
    case (Positional s)
    with snoc show ?thesis by (auto simp: push_positional_def touched_def)
  qed
qed

lemma apply_events_positional:
  "ap_positional_args (fold apply_event es p) = ap_positional_args p @ positionals es"
proof (induction es rule: rev_induct)
  case (snoc e es)
  then show ?case by (cases e) (simp_all add: on_option_def push_positional_def)
qed (simp add: positionals_def)

lemma values_given_has_arg:
  "list_all (event_ok p) es \<Longrightarrow> values_given a es \<noteq> [] \<Longrightarrow> has_arg_at p a"
  by (induction es)
    (auto simp: values_given_def event_ok_def split: cl_event.splits if_splits)

lemma arg_inv_apply_events:
  assumes inv: "arg_inv p" and ok: "list_all (event_ok p) es"
  shows "arg_inv (fold apply_event es (reset p))" (is "arg_inv ?q")
proof -
  have same: "same_options ?q p" by (simp add: same_options_def)
  note lookup = same_options_lookup [OF same]
  have opt: "option_ok ?q a" if a: "a < length (ap_store p)" for a
  proof -
    have "option_ok p a" using inv a by (simp add: arg_inv_def)
    then show ?thesis
      using apply_events_store [of a "reset p" es] a values_given_has_arg [OF ok, of a]
      by (auto simp: option_ok_def Let_def lookup(1,2) reset_def reset_option_def has_arg_at_def
          touched_def)
  qed
  have names: "ao_long_name (ap_store ?q ! a) = ao_long_name (ap_store p ! a)"
    "ao_short_name (ap_store ?q ! a) = ao_short_name (ap_store p ! a)" if "a < length (ap_store p)" for a
    using reset_option_eqD(2,3) [OF same_options_nth [OF same]] that lookup(4) by auto
  show ?thesis
    using inv opt unfolding arg_inv_def lookup by (auto simp: names)
qed

section \<open>Properties\<close>

text \<open>
  C7: Parsing a command line applies exactly the events it stands for to the reset options, in
  order, and throws exactly when the reading of the command line meets an error, with that error.
\<close>

theorem parse_args_applies_events:
  assumes "arg_inv p"
  shows "parse_args argv p =
    (case read_args p (tl argv) of
       (es, None) \<Rightarrow> Inr (fold apply_event es (reset p))
     | (es, Some e) \<Rightarrow> Inl (e, fold apply_event es (reset p)))"
  by (cases "read_args p (tl argv)") (simp add: parse_args_refines [OF assms] run_events_def Let_def)

text \<open>The options of the compiler's own command line, as a sample.\<close>

definition sample_parser :: arg_parser where
  "sample_parser =
     insert_option (CHR ''o'') ''out'' (new_option (CHR ''o'') ''out'' ''Output directory'' True ''.'')
       (insert_option (CHR ''h'') ''help'' (new_option (CHR ''h'') ''help'' ''Show help'' False [])
         new_arg_parser)"

lemma sample_parser_inv: "arg_inv sample_parser"
  unfolding sample_parser_def
  by (intro arg_inv_insert_option arg_inv_new) (simp_all add: insert_option_def new_arg_parser_def)

lemmas sample_parser_eval =
  sample_parser_def insert_option_def new_arg_parser_def new_option_def

theorem parse_args_applies_events_witness:
  "parse_args [''serialkit'', ''-ho'', ''dir'', ''a.skit''] sample_parser =
     Inr (fold apply_event [Flagged 0, Given 1 ''dir'', Positional ''a.skit''] (reset sample_parser))"
proof -
  have "read_args sample_parser [''-ho'', ''dir'', ''a.skit''] =
      ([Flagged 0, Given 1 ''dir'', Positional ''a.skit''], None)"
    by (simp add: sample_parser_eval read_token_def read_short_def next_value_def has_arg_at_def)
  then show ?thesis
    using parse_args_applies_events [OF sample_parser_inv, of "[''serialkit'', ''-ho'', ''dir'', ''a.skit'']"]
    by simp
qed

lemma answers_after_parse:
  assumes inv: "arg_inv p" and parsed: "parse_args argv p = Inr q"
    and opt: "ap_long_options p name = Some a"
  shows "arg_is_set name q = Inr (touched a (fst (read_args p (tl argv))))"
    and "has_arg_at p a \<Longrightarrow> value_of name q =
       Inr (last (ao_default_value (ap_store p ! a) # values_given a (fst (read_args p (tl argv)))))"
    and "positional q = positionals (fst (read_args p (tl argv)))"
proof -
  let ?es = "fst (read_args p (tl argv))"
  have q: "q = fold apply_event ?es (reset p)"
    using parsed by (auto simp: parse_args_refines [OF inv] run_events_def Let_def split: option.splits)
  have a: "a < length (ap_store p)" using arg_inv_long [OF inv opt] by simp
  have reset: "ap_store (reset p) ! a = reset_option (ap_store p ! a)" "ap_positional_args (reset p) = []"
    "ap_long_options (reset p) = ap_long_options p"
    using a by (simp_all add: reset_def)
  have store: "ap_store q ! a = (reset_option (ap_store p ! a))\<lparr>ao_is_set := touched a ?es,
      ao_value := last (ao_default_value (ap_store p ! a) # values_given a ?es)\<rparr>"
    using apply_events_store [of a "reset p" ?es] a
    by (simp add: q reset reset_def [of p, THEN arg_cong [of _ _ "\<lambda>p. length (ap_store p)"]])
      (simp add: reset_option_def)
  have "ap_long_options q name = Some a" by (simp add: q reset opt)
  then show "arg_is_set name q = Inr (touched a ?es)"
    and "has_arg_at p a \<Longrightarrow> value_of name q = Inr (last (ao_default_value (ap_store p ! a) # values_given a ?es))"
    and "positional q = positionals ?es"
    using store
    by (simp_all add: arg_is_set_def value_of_def has_arg_at_def positional_def reset_option_def
        q apply_events_positional reset)
qed

text \<open>
  C26: After a successful parse an option is set exactly when the command line mentions it, its value
  is the last one given or else its default, and the positional arguments are those in the command
  line, in order.
\<close>

theorem parse_args_queries:
  assumes inv: "arg_inv p" and parsed: "parse_args argv p = Inr q"
    and opt: "ap_long_options p name = Some a"
  shows "arg_is_set name q = Inr (touched a (fst (read_args p (tl argv)))) \<and>
    (has_arg_at p a \<longrightarrow> value_of name q =
       Inr (last (ao_default_value (ap_store p ! a) # values_given a (fst (read_args p (tl argv)))))) \<and>
    positional q = positionals (fst (read_args p (tl argv)))"
  using answers_after_parse [OF assms] by simp

lemma sample_out: "ap_long_options sample_parser ''out'' = Some 1" "has_arg_at sample_parser 1"
  "ap_short_options sample_parser (CHR ''o'') = Some 1" "ao_default_value (ap_store sample_parser ! 1) = ''.''"
  by (simp_all add: sample_parser_eval has_arg_at_def)

lemma sample_reading:
  "read_args sample_parser [''a'', ''--out=x'', ''-oy''] = ([Positional ''a'', Given 1 ''x'', Given 1 ''y''], None)"
  by (simp add: sample_parser_eval read_token_def read_long_def read_short_def has_arg_at_def)

lemma sample_parse:
  "parse_args [''serialkit'', ''a'', ''--out=x'', ''-oy''] sample_parser =
     Inr (fold apply_event [Positional ''a'', Given 1 ''x'', Given 1 ''y''] (reset sample_parser))"
  by (simp add: parse_args_refines [OF sample_parser_inv] run_events_def sample_reading del: read_args.simps)

theorem parse_args_queries_witness:
  "\<exists>q. parse_args [''serialkit'', ''a'', ''--out=x'', ''-oy''] sample_parser = Inr q \<and>
     arg_is_set ''out'' q = Inr True \<and> value_of ''out'' q = Inr ''y'' \<and> positional q = [''a'']"
  using parse_args_queries [OF sample_parser_inv sample_parse sample_out(1)] sample_out(2)
  by (simp add: sample_parse sample_reading touched_def values_given_def positionals_def del: read_args.simps)

text \<open>
  Declaring an option and parsing, also when it throws, keep the option tables consistent:
  every pointer leads to the option with that name, and every option is reachable by its names.
\<close>

theorem arg_parser_keeps_invariant:
  assumes "arg_inv p"
  shows "(add_option s l d h def p = Inr q \<longrightarrow> arg_inv q) \<and>
    (add_option s l d h def p = Inl (e, r) \<longrightarrow> r = p) \<and>
    (parse_args argv p = Inr q \<longrightarrow> arg_inv q) \<and>
    (parse_args argv p = Inl (e, r) \<longrightarrow> arg_inv r)"
proof -
  have "arg_inv (fold apply_event (fst (read_args p (tl argv))) (reset p))"
    by (rule arg_inv_apply_events [OF assms read_args_events [OF assms]])
  moreover have "add_option s l d h def p = Inl (e, r) \<longrightarrow> r = p"
    by (auto simp: add_option_def Let_def)
  ultimately show ?thesis
    using arg_inv_add_option [OF assms]
    by (auto simp: parse_args_refines [OF assms] run_events_def Let_def split: option.splits)
qed

text \<open>
  A parser object can be used again: whatever a former parse has left behind, even one that
  threw, parsing gives the same result as on the fresh object.
\<close>

theorem parse_args_reusable:
  assumes "arg_inv p" and "parse_args before p = Inr q \<or> (\<exists>e. parse_args before p = Inl (e, q))"
  shows "parse_args argv q = parse_args argv p"
proof -
  have "reset q = reset p"
    using assms(2) by (auto simp: parse_args_refines [OF assms(1)] run_events_def Let_def split: option.splits)
  then show ?thesis by (simp add: parse_args_def)
qed

lemma read_args_long_value:
  assumes inv: "arg_inv p" and opt: "ap_long_options p name = Some a" "has_arg_at p a"
    and plain: "CHR ''='' \<notin> set name"
  shows "read_args p ((''--'' @ name @ ''='' @ v) # rest) =
           (case read_args p rest of (es, err) \<Rightarrow> (Given a v # es, err))"
    and "read_args p ((''--'' @ name) # v # rest) =
           (case read_args p rest of (es, err) \<Rightarrow> (Given a v # es, err))"
proof -
  have name: "takeWhile not_eq_sign name = name" "dropWhile not_eq_sign name = []"
    using plain by (auto simp: takeWhile_eq_all_conv dropWhile_eq_Nil_conv)
  have token: "read_token p (''--'' @ name @ ''='' @ v) rest = (([Given a v], None), False)"
    "read_token p (''--'' @ name) (v # rest) = (([Given a v], None), True)"
    using opt plain
    by (simp_all add: read_token_def read_long_def name takeWhile_append dropWhile_append next_value_def)
  have "name \<noteq> []"
    using inv arg_inv_long [OF inv opt(1)] by (auto simp: arg_inv_def option_ok_def Let_def)
  then show "read_args p ((''--'' @ name @ ''='' @ v) # rest) =
           (case read_args p rest of (es, err) \<Rightarrow> (Given a v # es, err))"
    and "read_args p ((''--'' @ name) # v # rest) =
           (case read_args p rest of (es, err) \<Rightarrow> (Given a v # es, err))"
    using token by (simp_all split: prod.split)
qed

lemma read_args_short_value:
  assumes opt: "ap_short_options p c = Some a" "has_arg_at p a"
    and plain: "c \<noteq> CHR ''='' " "c \<noteq> CHR ''-''"
  shows "read_args p ([CHR ''-'', c] # v # rest) =
           (case read_args p rest of (es, err) \<Rightarrow> (Given a v # es, err))"
    and "read_args p ((''-'' @ [c] @ ''='' @ v) # rest) =
           (case read_args p rest of (es, err) \<Rightarrow> (Given a v # es, err))"
    and "v \<noteq> [] \<Longrightarrow> CHR ''='' \<notin> set v \<Longrightarrow> read_args p ((''-'' @ [c] @ v) # rest) =
           (case read_args p rest of (es, err) \<Rightarrow> (Given a v # es, err))"
  using assms by (simp_all add: read_token_def read_short_def next_value_def split: prod.split)



text \<open>
  C28: A value glued to its short option must not contain the character \<^verbatim>\<open>=\<close>: such a token is rejected
  as a malformed option, although the same value is accepted in the next argument.
\<close>

theorem glued_value_with_equals_rejected:
  assumes inv: "arg_inv p" and opt: "ap_short_options p c = Some a" "has_arg_at p a"
    and plain: "c \<noteq> CHR ''='' " "c \<noteq> CHR ''-''" and v: "CHR ''='' \<in> set v" "hd v \<noteq> CHR ''=''"
  shows "parse_args [prog, CHR ''-'' # c # v] p =
           Inl (Runtime_error (''Invalid short option format: -'' @ [c] @ v), reset p) \<and>
         parse_args [prog, [CHR ''-'', c], v] p = Inr (apply_event (Given a v) (reset p))"
proof -
  obtain d u where "v = d # u" "d \<noteq> CHR ''=''" using v by (cases v) auto
  then have "read_args p [CHR ''-'' # c # v] =
      ([], Some (Runtime_error (''Invalid short option format: -'' @ [c] @ v)))"
    using plain v by (simp add: read_token_def read_short_def)
  then show ?thesis
    using read_args_short_value(1) [OF opt plain, of v "[]"]
    by (simp add: parse_args_refines [OF inv] run_events_def)
qed

theorem glued_value_with_equals_rejected_witness:
  "parse_args [''serialkit'', ''-oa=b''] sample_parser =
     Inl (Runtime_error ''Invalid short option format: -oa=b'', reset sample_parser)"
  using glued_value_with_equals_rejected [OF sample_parser_inv sample_out(3,2), of "''a=b''" "''serialkit''"]
  by simp

section \<open>Writing a command line\<close>

fun render :: "arg_parser \<Rightarrow> cl_event \<Rightarrow> string" where
  "render p (Given a v) = ''--'' @ ao_long_name (ap_store p ! a) @ ''='' @ v"
| "render p (Flagged a) = ''--'' @ ao_long_name (ap_store p ! a)"
| "render p (Positional s) = s"

definition is_positional :: "cl_event \<Rightarrow> bool" where
  "is_positional e = (case e of Positional s \<Rightarrow> True | _ \<Rightarrow> False)"

lemma read_args_flag:
  assumes inv: "arg_inv p" and opt: "ap_long_options p name = Some a" "\<not> has_arg_at p a"
    and plain: "CHR ''='' \<notin> set name"
  shows "read_args p ((''--'' @ name) # rest) =
    (case read_args p rest of (es, err) \<Rightarrow> (Flagged a # es, err))"
proof -
  have name: "takeWhile not_eq_sign name = name"
    using plain by (auto simp: takeWhile_eq_all_conv)
  moreover have "name \<noteq> []"
    using inv arg_inv_long [OF inv opt(1)] by (auto simp: arg_inv_def option_ok_def Let_def)
  ultimately show ?thesis
    using opt plain by (simp add: read_token_def read_long_def name split: prod.split)
qed

lemma read_args_render:
  assumes inv: "arg_inv p" and names: "\<forall>key \<in> dom (ap_long_options p). CHR ''='' \<notin> set key"
  shows "list_all (\<lambda>e. event_ok p e \<and> \<not> is_positional e) es \<Longrightarrow>
    read_args p (map (render p) es @ ''--'' # xs) = (es @ map Positional xs, None)"
proof (induction es)
  case (Cons e es)
  have opt: "ap_long_options p (ao_long_name (ap_store p ! a)) = Some a"
    if "a < length (ap_store p)" for a
    using inv that by (auto simp: arg_inv_def option_ok_def Let_def)
  then have plain: "CHR ''='' \<notin> set (ao_long_name (ap_store p ! a))" if "a < length (ap_store p)" for a
    using names that by (blast intro: domI)
  show ?case
  proof (cases e)
    case (Given a v)
    then have "a < length (ap_store p)" "has_arg_at p a" using Cons.prems by (auto simp: event_ok_def)
    with read_args_long_value(1) [OF inv opt _ plain, of a] Cons Given show ?thesis by simp
  next
    case (Flagged a)
    then have "a < length (ap_store p)" "\<not> has_arg_at p a" using Cons.prems by (auto simp: event_ok_def)
    with read_args_flag [OF inv opt _ plain, of a] Cons Flagged show ?thesis by simp
  qed (use Cons.prems in \<open>simp add: is_positional_def\<close>)
qed simp

text \<open>
  C29: Every setting of declared options can be written as a command line that parses back to it:
  \<^verbatim>\<open>--name=value\<close> and \<^verbatim>\<open>--flag\<close> for the options, the positional arguments behind \<^verbatim>\<open>--\<close>, whatever
  characters they contain.
\<close>

theorem command_line_roundtrip:
  assumes "arg_inv p" and "\<forall>key \<in> dom (ap_long_options p). CHR ''='' \<notin> set key"
    and "list_all (\<lambda>e. event_ok p e \<and> \<not> is_positional e) es"
  shows "parse_args (prog # map (render p) es @ ''--'' # xs) p =
    Inr (push_positional xs (fold apply_event es (reset p)))"
  using read_args_render [OF assms]
  by (simp add: parse_args_refines [OF assms(1)] run_events_def apply_positionals)

theorem command_line_roundtrip_witness:
  "parse_args [''serialkit'', ''--out=--help'', ''--help'', ''--'', ''-x''] sample_parser =
    Inr (push_positional [''-x''] (fold apply_event [Given 1 ''--help'', Flagged 0] (reset sample_parser)))"
proof -
  have names: "\<forall>key \<in> dom (ap_long_options sample_parser). CHR ''='' \<notin> set key"
    by (auto simp: sample_parser_eval split: if_splits)
  have events: "list_all (\<lambda>e. event_ok sample_parser e \<and> \<not> is_positional e) [Given 1 ''--help'', Flagged 0]"
    by (simp add: event_ok_def is_positional_def sample_parser_eval has_arg_at_def)
  have "map (render sample_parser) [Given 1 ''--help'', Flagged 0] = [''--out=--help'', ''--help'']"
    by (simp add: sample_parser_eval)
  then show ?thesis
    using command_line_roundtrip [OF sample_parser_inv names events, of "''serialkit''" "[''-x'']"]
    by simp
qed

end
