(* ===== verification/Arg_Session.thy ===== *)
theory Arg_Session
  imports Arg_Spec
begin

text \<open>
  An \<^verbatim>\<open>ArgParser\<close> object in use: options are declared and command lines parsed in any order, and a caller
  may catch the exceptions and go on with the object as they left it.
\<close>

section \<open>Sessions\<close>

datatype arg_call = Declare char string string bool string | Parse "string list"

text \<open>The object a call leaves behind, whether it returns or throws.\<close>

definition left_behind :: "arg_parser arg_result \<Rightarrow> arg_parser" where
  "left_behind r = (case r of Inl (e, p) \<Rightarrow> p | Inr p \<Rightarrow> p)"

fun arg_do :: "arg_call \<Rightarrow> arg_parser \<Rightarrow> arg_parser" where
  "arg_do (Declare s l d h def) p = left_behind (add_option s l d h def p)"
| "arg_do (Parse argv) p = left_behind (parse_args argv p)"

fun is_declaration :: "arg_call \<Rightarrow> bool" where
  "is_declaration (Declare s l d h def) = True"
| "is_declaration (Parse argv) = False"

definition arg_session :: "arg_call list \<Rightarrow> arg_parser" where
  "arg_session calls = fold arg_do calls new_arg_parser"

section \<open>What a call keeps\<close>

lemma parse_left_behind:
  assumes "arg_inv p"
  shows "arg_inv (left_behind (parse_args argv p))" and "reset (left_behind (parse_args argv p)) = reset p"
proof -
  have "arg_inv (fold apply_event (fst (read_args p (tl argv))) (reset p))"
    by (rule arg_inv_apply_events [OF assms read_args_events [OF assms]])
  then show "arg_inv (left_behind (parse_args argv p))"
    by (auto simp: parse_args_refines [OF assms] run_events_def left_behind_def Let_def split: option.splits)
  show "reset (left_behind (parse_args argv p)) = reset p"
    by (auto simp: parse_args_refines [OF assms] run_events_def left_behind_def Let_def split: option.splits)
qed

lemma declare_left_behind: "arg_inv p \<Longrightarrow> arg_inv (left_behind (add_option s l d h def p))"
  using arg_inv_add_option [of p s l d h def]
  by (cases "add_option s l d h def p") (auto simp: left_behind_def add_option_def Let_def split: if_splits)

lemma reset_insert_option:
  "reset (insert_option s key (new_option s key d h def) p) =
     insert_option s key (new_option s key d h def) (reset p)"
  by (simp add: reset_def insert_option_def reset_option_def new_option_def)

lemma reset_fields [simp]:
  "ap_long_options (reset p) = ap_long_options p" "ap_short_options (reset p) = ap_short_options p"
  by (simp_all add: reset_def)

lemma reset_declare:
  "reset (left_behind (add_option s l d h def p)) = left_behind (add_option s l d h def (reset p))"
proof (cases "\<exists>q. add_option s l d h def p = Inr q")
  case True
  then obtain q where q: "add_option s l d h def p = Inr q" by blast
  then have "add_option s l d h def (reset p) = Inr (reset q)"
    by (auto simp: add_option_eq_Inr reset_insert_option)
  with q show ?thesis by (simp add: left_behind_def)
next
  case False
  have "add_option s l d h def p = Inl r \<Longrightarrow> snd r = p" for p r
    by (auto simp: add_option_def Let_def split: if_splits)
  then have same: "\<exists>e. add_option s l d h def p = Inl (e, p)" if "\<nexists>q. add_option s l d h def p = Inr q" for p
    using that by (cases "add_option s l d h def p") (metis prod.collapse, blast)
  have "\<nexists>q. add_option s l d h def (reset p) = Inr q"
    using False by (auto simp: add_option_eq_Inr)
  from same [OF this] same [OF False] show ?thesis by (auto simp: left_behind_def)
qed

lemma session_step:
  assumes "arg_inv p" "arg_inv q" "reset p = reset q"
  shows "arg_inv (arg_do c p)"
    and "reset (arg_do c p) = reset (if is_declaration c then arg_do c q else q)"
  using assms by (cases c; simp add: parse_left_behind declare_left_behind reset_declare)+

lemma arg_session_invariant:
  "arg_inv p \<Longrightarrow> arg_inv q \<Longrightarrow> reset p = reset q \<Longrightarrow>
     arg_inv (fold arg_do calls p) \<and> reset (fold arg_do calls p) = reset (fold arg_do (filter is_declaration calls) q)"
proof (induction calls arbitrary: p q)
  case (Cons c calls)
  show ?case
    using Cons.IH [of "arg_do c p" "if is_declaration c then arg_do c q else q"] session_step [OF Cons.prems]
      session_step(1) [OF Cons.prems(2,2) refl] Cons.prems(2)
    by (simp split: if_splits)
qed simp

section \<open>Properties\<close>

text \<open>
  C10: After any sequence of declarations and parses, also failing ones, the tables of a parser are
  consistent: every pointer leads to the option with that name and every option is reachable by its
  names. And the past does not matter: the next parse gives what it would give on an object that has only
  seen the declarations, and every declared option can be queried.
\<close>

theorem arg_session_history_irrelevant:
  "arg_inv (arg_session calls) \<and>
   parse_args argv (arg_session calls) = parse_args argv (arg_session (filter is_declaration calls)) \<and>
   (\<forall>name. (\<exists>b. arg_is_set name (arg_session calls) = Inr b) \<longleftrightarrow>
      name \<in> dom (ap_long_options (arg_session (filter is_declaration calls))))"
proof -
  let ?p = "arg_session calls" and ?q = "arg_session (filter is_declaration calls)"
  have inv: "arg_inv ?p" and same: "reset ?p = reset ?q"
    using arg_session_invariant [of new_arg_parser new_arg_parser calls] by (simp_all add: arg_session_def)
  have "ap_long_options ?p = ap_long_options ?q" using same by (metis reset_fields(1))
  then have "(\<exists>b. arg_is_set name ?p = Inr b) \<longleftrightarrow> name \<in> dom (ap_long_options ?q)" for name
    by (auto simp: arg_is_set_def split: option.splits)
  with inv same show ?thesis by (simp add: parse_args_def)
qed

end
