(* ===== verification/Codegen.thy ===== *)
theory Codegen
  imports Ast
begin

unbundle bit_operations_syntax

text \<open>
  The code generator of \<^verbatim>\<open>compiler/source/codegen.cpp\<close>: the exact text of the header and of the
  source file. A \<open>generate_\<close> method appends text to one of the two streams; its model is the text it
  appends. The statements the generator repeats with another indentation or another variable, the
  loops that write and read a base-128 number, are one function here. The meaning of the emitted
  code is the subject of the theory \<open>Runtime\<close>.
\<close>

section \<open>Types and tags\<close>

abbreviation dq :: string where
  "dq \<equiv> [CHR 0x22]"

definition line :: "string \<Rightarrow> string \<Rightarrow> string" where
  "line indent s = indent @ s @ nl"

fun cpp_kind :: "primitive_type_kind \<Rightarrow> string" where
  "cpp_kind K_INT8 = ''int8_t''"
| "cpp_kind K_INT16 = ''int16_t''"
| "cpp_kind K_INT32 = ''int32_t''"
| "cpp_kind K_INT64 = ''int64_t''"
| "cpp_kind K_UINT8 = ''uint8_t''"
| "cpp_kind K_UINT16 = ''uint16_t''"
| "cpp_kind K_UINT32 = ''uint32_t''"
| "cpp_kind K_UINT64 = ''uint64_t''"
| "cpp_kind K_FLOAT = ''float''"
| "cpp_kind K_DOUBLE = ''double''"
| "cpp_kind K_BOOL = ''bool''"
| "cpp_kind K_STRING = ''std::string''"
| "cpp_kind K_BYTE = ''uint8_t''"

fun get_cpp_type :: "ast_type \<Rightarrow> string" where
  "get_cpp_type (PrimitiveType k l) = cpp_kind k"
| "get_cpp_type (UserType n l) = n"

fun kind_wire_type :: "primitive_type_kind \<Rightarrow> 8 word" where
  "kind_wire_type K_DOUBLE = 1"
| "kind_wire_type K_FLOAT = 5"
| "kind_wire_type K_STRING = 2"
| "kind_wire_type K_BYTE = 2"
| "kind_wire_type k = 0"

definition get_wire_type_value :: "ast_type \<Rightarrow> field \<Rightarrow> 8 word" where
  "get_wire_type_value t f =
     (if is_packed f then 3
      else if is_bitmap f then 7
      else case t of
             PrimitiveType k l \<Rightarrow> if is_interned f \<and> k = K_STRING then 6 else kind_wire_type k
           | UserType n l \<Rightarrow> 2)"

definition get_wire_type :: "ast_type \<Rightarrow> field \<Rightarrow> string" where
  "get_wire_type t f = show_nat (unat (get_wire_type_value t f))"

definition get_field_type :: "field \<Rightarrow> string" where
  "get_field_type f =
     (let base_type = get_cpp_type (fd_type f) in
      if is_repeated f then ''std::vector<'' @ base_type @ ''>''
      else if is_optional f then ''std::optional<'' @ base_type @ ''>''
      else base_type)"

text \<open>
  \<^verbatim>\<open>(field.number << 3) | w\<close> on 32-bit integers, and its value as the \<^verbatim>\<open>int\<close> that is printed for a packed
  field.
\<close>

definition number_tag :: "int \<Rightarrow> 32 word \<Rightarrow> 32 word" where
  "number_tag number w = push_bit 3 (word_of_int number) OR w"

definition field_tag :: "field \<Rightarrow> 32 word" where
  "field_tag f = number_tag (fd_number f) (ucast (get_wire_type_value (fd_type f) f))"

definition packed_tag :: "field \<Rightarrow> 32 word" where
  "packed_tag f = number_tag (fd_number f) 2"

section \<open>The header\<close>

definition generate_includes :: string where
  "generate_includes =
     line [] ''#include <cstdint>'' @
     line [] ''#include <string>'' @
     line [] ''#include <vector>'' @
     line [] ''#include <optional>'' @
     line [] ''#include <memory>'' @ nl"

definition generate_namespace_open :: "schema \<Rightarrow> string" where
  "generate_namespace_open s = line [] (''namespace '' @ sc_namespace s @ '' {'') @ nl"

definition generate_namespace_close :: "schema \<Rightarrow> string" where
  "generate_namespace_close s = line [] (''} // namespace '' @ sc_namespace s)"

fun enum_lines :: "enum_value list \<Rightarrow> string" where
  "enum_lines [] = []"
| "enum_lines (x # xs) =
     line ''  '' (ev_name x @ '' = '' @ show_int (ev_value x) @ (if xs \<noteq> [] then '','' else [])) @
     enum_lines xs"

definition generate_enum_declaration :: "enum_decl \<Rightarrow> string" where
  "generate_enum_declaration e =
     line [] (''enum class '' @ en_name e @ '' : int32_t {'') @
     enum_lines (en_values e) @
     line [] ''};'' @ nl"

definition member_initializer :: "field \<Rightarrow> string" where
  "member_initializer f =
     (if is_repeated f then '';''
      else if is_optional f then '';''
      else case fd_type f of
             PrimitiveType k l \<Rightarrow>
               (case k of K_BOOL \<Rightarrow> '' = false;'' | K_STRING \<Rightarrow> '';'' | _ \<Rightarrow> '' = 0;'')
           | UserType n l \<Rightarrow> '';'')"

definition member_declaration :: "field \<Rightarrow> string" where
  "member_declaration f = line ''  '' (get_field_type f @ '' '' @ fd_name f @ member_initializer f)"

definition generate_model_declaration :: "model_decl \<Rightarrow> string" where
  "generate_model_declaration m =
     line [] (''class '' @ md_name m @ '' {'') @
     line [] ''public:'' @
     line ''  '' (md_name m @ ''() = default;'') @ nl @
     concat (map member_declaration (md_fields m)) @ nl @
     line ''  '' ''std::vector<uint8_t> serialize() const;'' @
     line ''  '' ''bool deserialize(const std::vector<uint8_t>& data);'' @
     line [] ''};'' @ nl"

section \<open>Loops over base-128 numbers\<close>

text \<open>The loop that appends the number \<open>var\<close> to the vector \<open>buf\<close>.\<close>

definition emit_write_varint :: "string \<Rightarrow> string \<Rightarrow> string \<Rightarrow> string" where
  "emit_write_varint ind buf var =
     line ind (''while ('' @ var @ '' > 0x7F) {'') @
     line ind (''  '' @ buf @ ''.push_back(static_cast<uint8_t>(('' @ var @ '' & 0x7F) | 0x80));'') @
     line ind (''  '' @ var @ '' >>= 7;'') @
     line ind ''}'' @
     line ind (buf @ ''.push_back(static_cast<uint8_t>('' @ var @ ''));'')"

text \<open>The loop that reads a number into \<open>var\<close>, from the declaration of \<^verbatim>\<open>shift\<close> on.\<close>

definition emit_read_varint :: "string \<Rightarrow> string \<Rightarrow> string" where
  "emit_read_varint ind var =
     line ind ''int shift = 0;'' @
     line ind ''while (pos < data.size()) {'' @
     line ind ''  uint8_t byte = data[pos++];'' @
     line ind (''  '' @ var @ '' |= static_cast<uint64_t>(byte & 0x7F) << shift;'') @
     line ind ''  if ((byte & 0x80) == 0) break;'' @
     line ind ''  shift += 7;'' @
     line ind ''}''"

section \<open>Serializers\<close>

definition emit_tag :: "string \<Rightarrow> string \<Rightarrow> string" where
  "emit_tag ind tag_var =
     line ind ''{'' @
     line ind (''  uint64_t val = '' @ tag_var @ '';'') @
     emit_write_varint (ind @ ''  '') ''buffer'' ''val'' @
     line ind ''}''"

definition emit_number :: "string \<Rightarrow> string \<Rightarrow> string" where
  "emit_number ind expr =
     line ind (''uint64_t val = static_cast<uint64_t>('' @ expr @ '');'') @
     emit_write_varint ind ''buffer'' ''val''"

definition emit_string :: "string \<Rightarrow> string \<Rightarrow> string" where
  "emit_string ind access =
     line ind (''uint64_t length = '' @ access @ ''size();'') @
     emit_write_varint ind ''buffer'' ''length'' @
     line ind (''buffer.insert(buffer.end(), '' @ access @ ''begin(), '' @ access @ ''end());'')"

definition emit_model :: "string \<Rightarrow> string \<Rightarrow> string \<Rightarrow> string" where
  "emit_model ind var access =
     line ind (''auto '' @ var @ '' = '' @ access @ ''serialize();'') @
     line ind (''uint64_t length = '' @ var @ ''.size();'') @
     emit_write_varint ind ''buffer'' ''length'' @
     line ind (''buffer.insert(buffer.end(), '' @ var @ ''.begin(), '' @ var @ ''.end());'')"

definition is_enum_type :: "schema \<Rightarrow> string \<Rightarrow> bool" where
  "is_enum_type s n \<longleftrightarrow> find_enum s n \<noteq> None"

definition is_integer_kind :: "primitive_type_kind \<Rightarrow> bool" where
  "is_integer_kind k \<longleftrightarrow>
     k \<in> {K_INT8, K_INT16, K_INT32, K_INT64, K_UINT8, K_UINT16, K_UINT32, K_UINT64}"

definition emit_packed_item :: "string \<Rightarrow> primitive_type_kind \<Rightarrow> string" where
  "emit_packed_item indent k =
     (if is_integer_kind k then
        line indent ''    uint64_t val = static_cast<uint64_t>(item);'' @
        emit_write_varint (indent @ ''    '') ''packed_data'' ''val''
      else if k = K_FLOAT then
        line indent ''    float fval = item;'' @
        line indent ''    uint32_t val;'' @
        line indent ''    std::memcpy(&val, &fval, sizeof(float));'' @
        line indent ''    packed_data.push_back(static_cast<uint8_t>(val & 0xFF));'' @
        line indent ''    packed_data.push_back(static_cast<uint8_t>((val >> 8) & 0xFF));'' @
        line indent ''    packed_data.push_back(static_cast<uint8_t>((val >> 16) & 0xFF));'' @
        line indent ''    packed_data.push_back(static_cast<uint8_t>((val >> 24) & 0xFF));''
      else if k = K_DOUBLE then
        line indent ''    double dval = item;'' @
        line indent ''    uint64_t val;'' @
        line indent ''    std::memcpy(&val, &dval, sizeof(double));'' @
        line indent ''    for (int i = 0; i < 8; ++i) {'' @
        line indent ''      packed_data.push_back(static_cast<uint8_t>((val >> (i * 8)) & 0xFF));'' @
        line indent ''    }''
      else [])"

definition packed_serializer :: "field \<Rightarrow> primitive_type_kind \<Rightarrow> string \<Rightarrow> string" where
  "packed_serializer f k indent =
     line indent (''  uint32_t packed_tag = '' @ show_int (sint (packed_tag f)) @ '';'') @
     emit_tag (indent @ ''  '') ''packed_tag'' @ nl @
     line indent ''  std::vector<uint8_t> packed_data;'' @
     line indent (''  for (const auto& item : '' @ fd_name f @ '') {'') @
     emit_packed_item indent k @
     line indent ''  }'' @ nl @
     line indent ''  uint64_t length = packed_data.size();'' @
     emit_write_varint (indent @ ''  '') ''buffer'' ''length'' @
     line indent ''  buffer.insert(buffer.end(), packed_data.begin(), packed_data.end());''"

definition item_serializer :: "schema \<Rightarrow> field \<Rightarrow> string \<Rightarrow> string" where
  "item_serializer s f indent =
     line indent (''  for (const auto& item : '' @ fd_name f @ '') {'') @
     line indent (''    uint32_t item_tag = '' @ show_nat (unat (field_tag f)) @ '';'') @
     emit_tag (indent @ ''    '') ''item_tag'' @
     (case fd_type f of
        PrimitiveType k l \<Rightarrow>
          if k = K_STRING then emit_string (indent @ ''    '') ''item.''
          else emit_number (indent @ ''    '') ''item''
      | UserType n l \<Rightarrow>
          if is_enum_type s n then emit_number (indent @ ''    '') ''item''
          else emit_model (indent @ ''    '') ''item_data'' ''item.'') @
     line indent ''  }''"

definition repeated_serializer :: "schema \<Rightarrow> field \<Rightarrow> string \<Rightarrow> string" where
  "repeated_serializer s f indent =
     line indent (''if (!'' @ fd_name f @ ''.empty()) {'') @
     (case fd_type f of
        PrimitiveType k l \<Rightarrow>
          if is_packed f then packed_serializer f k indent else item_serializer s f indent
      | UserType n l \<Rightarrow> item_serializer s f indent) @
     line indent ''}'' @ nl"

definition optional_serializer :: "schema \<Rightarrow> field \<Rightarrow> string \<Rightarrow> string" where
  "optional_serializer s f indent =
     line indent (''if ('' @ fd_name f @ ''.has_value()) {'') @
     line indent (''  uint32_t field_tag = '' @ show_nat (unat (field_tag f)) @ '';'') @
     emit_tag (indent @ ''  '') ''field_tag'' @
     (case fd_type f of
        PrimitiveType k l \<Rightarrow>
          if k = K_STRING then emit_string (indent @ ''  '') (fd_name f @ ''->'')
          else emit_number (indent @ ''  '') (''*'' @ fd_name f)
      | UserType n l \<Rightarrow>
          if is_enum_type s n then emit_number (indent @ ''  '') (''*'' @ fd_name f)
          else emit_model (indent @ ''  '') ''field_data'' (fd_name f @ ''->'')) @
     line indent ''}'' @ nl"

definition plain_serializer :: "schema \<Rightarrow> field \<Rightarrow> string \<Rightarrow> string" where
  "plain_serializer s f indent =
     line indent ''{'' @
     line indent (''  uint32_t field_tag = '' @ show_nat (unat (field_tag f)) @ '';'') @
     emit_tag (indent @ ''  '') ''field_tag'' @
     (case fd_type f of
        PrimitiveType k l \<Rightarrow>
          if k = K_STRING then emit_string (indent @ ''  '') (fd_name f @ ''.'')
          else if k = K_BOOL then line indent (''  buffer.push_back('' @ fd_name f @ '' ? 1 : 0);'')
          else emit_number (indent @ ''  '') (fd_name f)
      | UserType n l \<Rightarrow>
          if is_enum_type s n then emit_number (indent @ ''  '') (fd_name f)
          else emit_model (indent @ ''  '') ''field_data'' (fd_name f @ ''.'')) @
     line indent ''}'' @ nl"

definition generate_field_serializer :: "schema \<Rightarrow> field \<Rightarrow> string \<Rightarrow> string" where
  "generate_field_serializer s f indent =
     (if is_repeated f then repeated_serializer s f indent
      else if is_optional f then optional_serializer s f indent
      else plain_serializer s f indent)"

definition generate_serialize_method :: "schema \<Rightarrow> model_decl \<Rightarrow> string" where
  "generate_serialize_method s m =
     line [] (''std::vector<uint8_t> '' @ md_name m @ ''::serialize() const {'') @
     line ''  '' ''std::vector<uint8_t> buffer;'' @
     line ''  '' ''buffer.reserve(64);'' @ nl @
     concat (map (\<lambda>f. generate_field_serializer s f ''  '') (md_fields m)) @ nl @
     line ''  '' ''return buffer;'' @
     line [] ''}'' @ nl"

section \<open>Deserializers\<close>

definition emit_store_number :: "field \<Rightarrow> string \<Rightarrow> string \<Rightarrow> string" where
  "emit_store_number f cpp_type indent =
     (if is_repeated f then
        line indent (''  '' @ fd_name f @ ''.push_back(static_cast<'' @ cpp_type @ ''>(value));'')
      else if is_optional f then
        line indent (''  '' @ fd_name f @ '' = static_cast<'' @ cpp_type @ ''>(value);'')
      else line indent (''  '' @ fd_name f @ '' = static_cast<'' @ cpp_type @ ''>(value);''))"

definition number_deserializer :: "field \<Rightarrow> string \<Rightarrow> string \<Rightarrow> string" where
  "number_deserializer f cpp_type indent =
     line indent ''  uint64_t value = 0;'' @
     emit_read_varint (indent @ ''  '') ''value'' @
     emit_store_number f cpp_type indent"

definition string_deserializer :: "field \<Rightarrow> string \<Rightarrow> string" where
  "string_deserializer f indent =
     line indent ''  uint64_t length = 0;'' @
     emit_read_varint (indent @ ''  '') ''length'' @
     (if is_repeated f then
        line indent ''  std::string str(reinterpret_cast<const char*>(&data[pos]), length);'' @
        line indent (''  '' @ fd_name f @ ''.push_back(std::move(str));'')
      else if is_optional f then
        line indent (''  '' @ fd_name f @
          '' = std::string(reinterpret_cast<const char*>(&data[pos]), length);'')
      else
        line indent (''  '' @ fd_name f @
          ''.assign(reinterpret_cast<const char*>(&data[pos]), length);'')) @
     line indent ''  pos += length;''"

definition emit_item_data :: "string \<Rightarrow> string" where
  "emit_item_data indent =
     line indent ''  std::vector<uint8_t> item_data(data.begin() + pos, data.begin() + pos + length);''"

definition model_deserializer :: "field \<Rightarrow> string \<Rightarrow> string \<Rightarrow> string" where
  "model_deserializer f type_name indent =
     line indent ''  uint64_t length = 0;'' @
     emit_read_varint (indent @ ''  '') ''length'' @
     (if is_repeated f then
        line indent (''  '' @ type_name @ '' item;'') @
        emit_item_data indent @
        line indent ''  if (!item.deserialize(item_data)) return false;'' @
        line indent (''  '' @ fd_name f @ ''.push_back(std::move(item));'')
      else if is_optional f then
        line indent (''  '' @ type_name @ '' value;'') @
        emit_item_data indent @
        line indent ''  if (!value.deserialize(item_data)) return false;'' @
        line indent (''  '' @ fd_name f @ '' = std::move(value);'')
      else
        emit_item_data indent @
        line indent (''  if (!'' @ fd_name f @ ''.deserialize(item_data)) return false;'')) @
     line indent ''  pos += length;''"

definition generate_field_deserializer :: "schema \<Rightarrow> field \<Rightarrow> string \<Rightarrow> string" where
  "generate_field_deserializer s f indent =
     line indent (''case '' @ show_int (fd_number f) @ '': {'') @
     (case fd_type f of
        PrimitiveType k l \<Rightarrow>
          if k = K_STRING then string_deserializer f indent
          else number_deserializer f (get_cpp_type (fd_type f)) indent
      | UserType n l \<Rightarrow>
          if is_enum_type s n then number_deserializer f (get_name (fd_type f)) indent
          else model_deserializer f (get_name (fd_type f)) indent) @
     line indent ''  break;'' @
     line indent ''}''"

definition emit_skip_unknown :: string where
  "emit_skip_unknown =
     line ''    '' ''default:'' @
     line ''      '' ''// Skip unknown field'' @
     line ''      '' ''if (wire_type == 0) {'' @
     line ''        '' ''while (pos < data.size() && (data[pos] & 0x80)) pos++;'' @
     line ''        '' ''if (pos < data.size()) pos++;'' @
     line ''      '' ''} else if (wire_type == 2) {'' @
     line ''        '' ''uint64_t length = 0;'' @
     emit_read_varint ''        '' ''length'' @
     line ''        '' ''pos += length;'' @
     line ''      '' ''} else if (wire_type == 1) {'' @
     line ''        '' ''pos += 8;'' @
     line ''      '' ''} else if (wire_type == 5) {'' @
     line ''        '' ''pos += 4;'' @
     line ''      '' ''}'' @
     line ''      '' ''break;'' @
     line ''    '' ''}''"

definition generate_deserialize_method :: "schema \<Rightarrow> model_decl \<Rightarrow> string" where
  "generate_deserialize_method s m =
     line [] (''bool '' @ md_name m @ ''::deserialize(const std::vector<uint8_t>& data) {'') @
     line ''  '' ''size_t pos = 0;'' @
     line ''  '' ''while (pos < data.size()) {'' @
     line ''    '' ''if (pos + 1 > data.size()) return false;'' @ nl @
     line ''    '' ''uint64_t tag = 0;'' @
     line ''    '' ''{'' @
     emit_read_varint ''      '' ''tag'' @
     line ''    '' ''}'' @ nl @
     line ''    '' ''uint32_t field_number = static_cast<uint32_t>(tag >> 3);'' @
     line ''    '' ''uint8_t wire_type = static_cast<uint8_t>(tag & 0x7);'' @ nl @
     line ''    '' ''switch (field_number) {'' @
     concat (map (\<lambda>f. generate_field_deserializer s f ''    '') (md_fields m)) @
     emit_skip_unknown @
     line ''  '' ''}'' @
     line ''  '' ''return true;'' @
     line [] ''}'' @ nl"

definition generate_model_implementation :: "schema \<Rightarrow> model_decl \<Rightarrow> string" where
  "generate_model_implementation s m = generate_serialize_method s m @ generate_deserialize_method s m"

section \<open>The generator object\<close>

record code_generator =
  cg_schema :: schema
  cg_header :: string
  cg_source :: string

definition new_code_generator :: "schema \<Rightarrow> code_generator" where
  "new_code_generator s = \<lparr>cg_schema = s, cg_header = [], cg_source = []\<rparr>"

fun header_declaration :: "decl \<Rightarrow> string" where
  "header_declaration (EnumDecl e) = generate_enum_declaration e"
| "header_declaration (ModelDecl m) = generate_model_declaration m"

fun source_declaration :: "schema \<Rightarrow> decl \<Rightarrow> string" where
  "source_declaration s (EnumDecl e) = []"
| "source_declaration s (ModelDecl m) = generate_model_implementation s m"

text \<open>A write to one of the streams; \<^verbatim>\<open>str("")\<close> empties it.\<close>

definition to_header :: "string \<Rightarrow> code_generator \<Rightarrow> code_generator" where
  "to_header text g = g\<lparr>cg_header := cg_header g @ text\<rparr>"

definition to_source :: "string \<Rightarrow> code_generator \<Rightarrow> code_generator" where
  "to_source text g = g\<lparr>cg_source := cg_source g @ text\<rparr>"

definition generate_header :: "code_generator \<Rightarrow> string \<times> code_generator" where
  "generate_header g0 =
     (let s = cg_schema g0;
          g1 = g0\<lparr>cg_header := []\<rparr>;
          g2 = to_header (line [] ''#pragma once'' @ nl) g1;
          g3 = to_header generate_includes g2;
          g4 = to_header (generate_namespace_open s) g3;
          g5 = fold (\<lambda>d. to_header (header_declaration d)) (sc_declarations s) g4;
          g6 = to_header (generate_namespace_close s) g5
      in (cg_header g6, g6))"

definition generate_source :: "string \<Rightarrow> code_generator \<Rightarrow> string \<times> code_generator" where
  "generate_source header g0 =
     (let s = cg_schema g0;
          g1 = g0\<lparr>cg_source := []\<rparr>;
          g2 = to_source (line [] (''#include '' @ dq @
                 (if header = [] then sc_namespace s else header) @ ''.hpp'' @ dq)) g1;
          g3 = to_source (line [] ''#include <cstring>'') g2;
          g4 = to_source (line [] ''#include <stdexcept>'' @ nl) g3;
          g5 = to_source (generate_namespace_open s) g4;
          g6 = fold (\<lambda>d. to_source (source_declaration s d)) (sc_declarations s) g5;
          g7 = to_source (generate_namespace_close s) g6
      in (cg_source g7, g7))"

end
