(* ===== verification/Codegen_Spec.thy ===== *)
theory Codegen_Spec
  imports Codegen Validator Parser_Spec
begin

unbundle bit_operations_syntax

text \<open>
  Properties of the generated text: the tags it contains, that it depends on the schema alone, and
  that its brackets are properly nested for every schema the parser delivers.
\<close>

section \<open>Tags\<close>

lemma wire_type_range: "unat (get_wire_type_value t f) < 8"
proof (cases t)
  case (PrimitiveType k l)
  then show ?thesis by (cases k) (simp_all add: get_wire_type_value_def)
qed (simp add: get_wire_type_value_def)

lemma number_tag_value:
  assumes "0 \<le> n" "n \<le> 536870911" "unat w < 8"
  shows "unat (number_tag n w) = 8 * nat n + unat w"
proof -
  have n: "unat (word_of_int n :: 32 word) = nat n"
    using assms(1,2) by (simp add: unat_of_int_eq nat_less_iff)
  have shift: "unat (push_bit 3 (word_of_int n :: 32 word)) = 8 * nat n"
    using assms(1,2) by (simp add: push_bit_eq_mult unat_word_ariths n nat_less_iff)
  have "8 * nat n + unat w < 2 ^ 32" using assms by (simp add: nat_less_iff)
  then show ?thesis
    using assms(3) by (simp add: number_tag_def push_bit_or_eq_add unat_word_ariths shift)
qed

lemma field_tag_value:
  "valid_number (fd_number f) \<Longrightarrow>
     unat (field_tag f) = 8 * nat (fd_number f) + unat (get_wire_type_value (fd_type f) f)"
  unfolding field_tag_def valid_number_def using wire_type_range [of "fd_type f" f]
  by (subst number_tag_value) (simp_all add: unat_ucast_eq)

lemma packed_tag_value:
  "valid_number (fd_number f) \<Longrightarrow> unat (packed_tag f) = 8 * nat (fd_number f) + 2"
  unfolding packed_tag_def valid_number_def by (subst number_tag_value) simp_all

text \<open>
  C30: For every field number the validator accepts the tag is computed without loss in 32 bits: it
  is eight times the number plus the wire type, so the reader's shift and mask give both back, and
  two fields with different numbers never share a tag.
\<close>

theorem field_tag_roundtrip:
  assumes "valid_number (fd_number f)"
  shows "unat (field_tag f) = 8 * nat (fd_number f) + unat (get_wire_type_value (fd_type f) f) \<and>
    uint (drop_bit 3 (field_tag f)) = fd_number f \<and>
    unat (field_tag f AND 7) = unat (get_wire_type_value (fd_type f) f) \<and>
    (valid_number (fd_number g) \<and> fd_number g \<noteq> fd_number f \<longrightarrow> field_tag g \<noteq> field_tag f)"
proof -
  note range = wire_type_range [of "fd_type f" f]
  have number: "0 \<le> fd_number f" using assms by (simp add: valid_number_def)
  have "unat (drop_bit 3 (field_tag f)) = nat (fd_number f)"
    using range by (simp only: unat_drop_bit field_tag_value [OF assms]) simp
  then have "uint (drop_bit 3 (field_tag f)) = fd_number f"
    using number by (metis nat_0_le uint_nat)
  moreover have "unat (field_tag f AND 7) = unat (field_tag f) mod 8"
    using unat_and_mask [of "field_tag f" 3] by (simp add: mask_eq_exp_minus_1)
  moreover have "field_tag g \<noteq> field_tag f"
    if "valid_number (fd_number g)" "fd_number g \<noteq> fd_number f"
  proof
    assume "field_tag g = field_tag f"
    with field_tag_value [OF that(1)] field_tag_value [OF assms] range wire_type_range [of "fd_type g" g]
    have "nat (fd_number g) = nat (fd_number f)" by simp
    with number that show False by (simp add: valid_number_def eq_nat_nat_iff)
  qed
  ultimately show ?thesis using range field_tag_value [OF assms] by simp
qed

theorem field_tag_roundtrip_witness:
  "uint (drop_bit 3 (field_tag (new_field (PrimitiveType K_FLOAT (mk_loc 1 1 0)) ''x'' 536870911 (mk_loc 1 1 0)))) =
     536870911"
  using field_tag_roundtrip [of "new_field (PrimitiveType K_FLOAT (mk_loc 1 1 0)) ''x'' 536870911 (mk_loc 1 1 0)"]
  by (simp add: valid_number_def new_field_def)

section \<open>The text depends on the schema alone\<close>

definition header_text :: "schema \<Rightarrow> string" where
  "header_text s =
     line [] ''#pragma once'' @ nl @ generate_includes @ generate_namespace_open s @
     concat (map header_declaration (sc_declarations s)) @ generate_namespace_close s"

definition source_text :: "string \<Rightarrow> schema \<Rightarrow> string" where
  "source_text base s =
     line [] (''#include '' @ dq @ base @ ''.hpp'' @ dq) @
     line [] ''#include <cstring>'' @ line [] ''#include <stdexcept>'' @ nl @
     generate_namespace_open s @
     concat (map (source_declaration s) (sc_declarations s)) @ generate_namespace_close s"

lemma fold_to_header: "fold (\<lambda>d. to_header (t d)) ds g = to_header (concat (map t ds)) g"
  by (induction ds arbitrary: g) (simp_all add: to_header_def)

lemma fold_to_source: "fold (\<lambda>d. to_source (t d)) ds g = to_source (concat (map t ds)) g"
  by (induction ds arbitrary: g) (simp_all add: to_source_def)

lemma generate_header_text:
  "generate_header g = (header_text (cg_schema g), g\<lparr>cg_header := header_text (cg_schema g)\<rparr>)"
  by (simp add: generate_header_def Let_def fold_to_header)
    (simp add: to_header_def header_text_def)

lemma generate_source_text:
  "generate_source base g =
     (let t = source_text (if base = [] then sc_namespace (cg_schema g) else base) (cg_schema g)
      in (t, g\<lparr>cg_source := t\<rparr>))"
  by (simp add: generate_source_def Let_def fold_to_source)
    (simp add: to_source_def source_text_def)

text \<open>
  C31: A generator can be asked for both files any number of times and in any order: each answer is
  determined by the schema and the base name, never by what the streams held before.
\<close>

theorem generation_is_repeatable:
  "fst (generate_header g) = fst (generate_header (new_code_generator (cg_schema g))) \<and>
   fst (generate_source base g) = fst (generate_source base (new_code_generator (cg_schema g))) \<and>
   fst (generate_source base (snd (generate_header g))) = fst (generate_source base g) \<and>
   fst (generate_header (snd (generate_source base g))) = fst (generate_header g) \<and>
   fst (generate_source [] g) = fst (generate_source (sc_namespace (cg_schema g)) g)"
  by (simp add: generate_header_text generate_source_text new_code_generator_def Let_def)

section \<open>Nesting of brackets\<close>

text \<open>
  \<open>nest text expected\<close> reads the brackets of the text; \<open>expected\<close> is the stack of the closing brackets
  still to come, the result is the stack after the text, or \<open>None\<close> for a mismatch.
\<close>

fun nest :: "string \<Rightarrow> string \<Rightarrow> string option" where
  "nest [] st = Some st"
| "nest (c # cs) st =
     (if c = CHR ''{'' then nest cs (CHR ''}'' # st)
      else if c = CHR ''('' then nest cs (CHR '')'' # st)
      else if c = CHR ''['' then nest cs (CHR '']'' # st)
      else if c = CHR ''}'' \<or> c = CHR '')'' \<or> c = CHR '']'' then
        (case st of [] \<Rightarrow> None | d # st' \<Rightarrow> if d = c then nest cs st' else None)
      else nest cs st)"

definition nested :: "string \<Rightarrow> bool" where
  "nested s \<longleftrightarrow> (\<forall>st. nest s st = Some st)"

definition plain_char :: "char \<Rightarrow> bool" where
  "plain_char c \<longleftrightarrow> c \<notin> {CHR ''{'', CHR ''('', CHR ''['', CHR ''}'', CHR '')'', CHR '']''}"

lemma nest_append: "nest (s @ t) st = Option.bind (nest s st) (nest t)"
  by (induction s st rule: nest.induct) (auto split: list.splits)

lemma nest_nested [simp]: "nested s \<Longrightarrow> nest (s @ t) st = nest t st"
  by (simp add: nested_def nest_append)

lemma nested_nest [simp]: "nested s \<Longrightarrow> nest s st = Some st"
  by (simp add: nested_def)

lemma nested_Nil [simp]: "nested []"
  by (simp add: nested_def)

lemma nested_append [intro]: "nested s \<Longrightarrow> nested t \<Longrightarrow> nested (s @ t)"
  by (simp add: nested_def nest_append)

lemma nested_concat: "(\<And>x. x \<in> set xs \<Longrightarrow> nested (t x)) \<Longrightarrow> nested (concat (map t xs))"
  by (induction xs) auto

lemma nested_plain: "list_all plain_char s \<Longrightarrow> nested s"
proof (induction s)
  case (Cons c s)
  then show ?case by (simp add: nested_def plain_char_def)
qed simp

lemma identifier_plain: "is_identifier_continue c \<Longrightarrow> plain_char c"
  by (auto simp: is_identifier_continue_def isalnum_def isalpha_def isdigit_def plain_char_def Let_def)

lemma nested_ident: "ident_name n \<Longrightarrow> nested n"
  by (rule nested_plain) (auto simp: ident_name_def is_word_def list_all_iff intro: identifier_plain)

lemma nested_show_nat [simp]: "nested (show_nat n)"
  by (rule nested_plain)
    (use show_nat_digits [of n] in \<open>auto simp: list_all_iff isdigit_def plain_char_def Let_def\<close>)

lemma nested_show_int [simp]: "nested (show_int i)"
proof -
  have "nested (CHR ''-'' # show_nat n)" for n using nested_show_nat [of n] unfolding nested_def by simp
  then show ?thesis by (simp add: show_int_def)
qed

lemma nested_namespace:
  assumes "list_all ident_name (split_dots n)"
  shows "nested n"
proof -
  have "nested (dotted ws)" if "list_all nested ws" for ws
    using that by (induction ws) (auto simp: nested_def nest_append)
  moreover have "list_all nested (split_dots n)"
    using assms by (auto simp: list_all_iff nested_ident)
  ultimately show ?thesis using dotted_split [of n] by (auto simp: list_all_iff nested_def nest_append)
qed

lemma nestedI: "(\<And>st. nest s st = Some st) \<Longrightarrow> nested s"
  by (simp add: nested_def)

named_theorems nests \<open>the parts of the generated text are nested\<close>

lemma nested_write_varint [nests]:
  "nested ind \<Longrightarrow> nested buf \<Longrightarrow> nested var \<Longrightarrow> nested (emit_write_varint ind buf var)"
  by (rule nestedI) (simp add: emit_write_varint_def line_def)

lemma nested_read_varint [nests]: "nested ind \<Longrightarrow> nested var \<Longrightarrow> nested (emit_read_varint ind var)"
  by (rule nestedI) (simp add: emit_read_varint_def line_def)

lemma nested_blanks [simp]: "nested ''  ''" "nested ''    ''" "nested ''      ''" "nested ''        ''"
  "nested ''buffer''" "nested ''val''" "nested ''length''" "nested ''packed_data''" "nested ''value''"
  by (simp_all add: nested_def)

lemma nested_emit_tag [nests]: "nested ind \<Longrightarrow> nested v \<Longrightarrow> nested (emit_tag ind v)"
  by (rule nestedI) (simp add: emit_tag_def line_def nested_append nests)

lemma nested_emit_number [nests]: "nested ind \<Longrightarrow> nested e \<Longrightarrow> nested (emit_number ind e)"
  by (rule nestedI) (simp add: emit_number_def line_def nests)

lemma nested_emit_string [nests]: "nested ind \<Longrightarrow> nested a \<Longrightarrow> nested (emit_string ind a)"
  by (rule nestedI) (simp add: emit_string_def line_def nests)

lemma nested_emit_model [nests]:
  "nested ind \<Longrightarrow> nested v \<Longrightarrow> nested a \<Longrightarrow> nested (emit_model ind v a)"
  by (rule nestedI) (simp add: emit_model_def line_def nests)

lemma nested_packed_item [nests]: "nested ind \<Longrightarrow> nested (emit_packed_item ind k)"
  by (rule nestedI) (simp add: emit_packed_item_def line_def nests nested_append)

lemma nested_field_name [nests]: "wf_field f \<Longrightarrow> nested (fd_name f)"
  by (simp add: wf_field_def nested_ident)

lemma nested_type_name [nests]: "wf_field f \<Longrightarrow> nested (get_name (fd_type f))"
  "wf_field f \<Longrightarrow> nested (get_cpp_type (fd_type f))"
proof -
  have "nested (cpp_kind k)" "nested (kind_name k)" for k by (cases k; simp add: nested_def)+
  then show "wf_field f \<Longrightarrow> nested (get_name (fd_type f))"
    "wf_field f \<Longrightarrow> nested (get_cpp_type (fd_type f))"
    by (cases "fd_type f"; simp add: wf_field_def nested_ident)+
qed

lemma nested_access [nests]:
  "nested n \<Longrightarrow> nested (n @ ''.'')" "nested n \<Longrightarrow> nested (n @ ''->'')" "nested n \<Longrightarrow> nested (CHR ''*'' # n)"
  "nested ''item''" "nested ''item.''" "nested ''item_data''" "nested ''field_data''"
  "nested ''item_tag''" "nested ''field_tag''" "nested ''packed_tag''" "nested ''tag''"
  by (simp_all add: nested_def nest_append)

lemma nested_packed_serializer [nests]:
  "wf_field f \<Longrightarrow> nested ind \<Longrightarrow> nested (packed_serializer f k ind)"
  by (rule nestedI) (simp add: packed_serializer_def line_def nests nested_append)

lemma nested_item_serializer [nests]:
  "wf_field f \<Longrightarrow> nested ind \<Longrightarrow> nested (item_serializer s f ind)"
  by (rule nestedI) (simp add: item_serializer_def line_def nests nested_append split: ast_type.split)

lemma nested_repeated_serializer [nests]:
  "wf_field f \<Longrightarrow> nested ind \<Longrightarrow> nested (repeated_serializer s f ind)"
  by (rule nestedI) (simp add: repeated_serializer_def line_def nests nested_append split: ast_type.split)

lemma nested_optional_serializer [nests]:
  "wf_field f \<Longrightarrow> nested ind \<Longrightarrow> nested (optional_serializer s f ind)"
  by (rule nestedI) (simp add: optional_serializer_def line_def nests nested_append split: ast_type.split)

lemma nested_plain_serializer [nests]:
  "wf_field f \<Longrightarrow> nested ind \<Longrightarrow> nested (plain_serializer s f ind)"
  by (rule nestedI) (simp add: plain_serializer_def line_def nests nested_append split: ast_type.split)

lemma nested_number_deserializer [nests]:
  "wf_field f \<Longrightarrow> nested t \<Longrightarrow> nested ind \<Longrightarrow> nested (number_deserializer f t ind)"
  by (rule nestedI)
    (simp add: number_deserializer_def emit_store_number_def line_def nests nested_append)

lemma nested_string_deserializer [nests]:
  "wf_field f \<Longrightarrow> nested ind \<Longrightarrow> nested (string_deserializer f ind)"
  by (rule nestedI) (simp add: string_deserializer_def line_def nests nested_append)

lemma nested_model_deserializer [nests]:
  "wf_field f \<Longrightarrow> nested t \<Longrightarrow> nested ind \<Longrightarrow> nested (model_deserializer f t ind)"
  by (rule nestedI) (simp add: model_deserializer_def emit_item_data_def line_def nests nested_append)

lemma nested_field_deserializer [nests]:
  "wf_field f \<Longrightarrow> nested ind \<Longrightarrow> nested (generate_field_deserializer s f ind)"
  using nested_type_name [of f]
  by (cases "fd_type f"; intro nestedI)
    (simp_all add: generate_field_deserializer_def line_def nests nested_append)

lemma nested_field_serializer [nests]:
  "wf_field f \<Longrightarrow> nested ind \<Longrightarrow> nested (generate_field_serializer s f ind)"
  by (simp add: generate_field_serializer_def nests)

lemma nest_skip_unknown: "nest (emit_skip_unknown @ t) (CHR ''}'' # st) = nest t st"
  by (simp add: emit_skip_unknown_def line_def nests)

lemma nested_serialize_method [nests]:
  assumes "ident_name (md_name m)" "list_all wf_field (md_fields m)"
  shows "nested (generate_serialize_method s m)"
proof -
  have "nested (concat (map (\<lambda>f. generate_field_serializer s f ''  '') (md_fields m)))"
    using assms(2) by (intro nested_concat) (simp add: list_all_iff nests)
  with nested_ident [OF assms(1)] show ?thesis
    by (intro nestedI) (simp add: generate_serialize_method_def line_def)
qed

lemma nested_deserialize_method [nests]:
  assumes "ident_name (md_name m)" "list_all wf_field (md_fields m)"
  shows "nested (generate_deserialize_method s m)"
proof -
  have "nested (concat (map (\<lambda>f. generate_field_deserializer s f ''    '') (md_fields m)))"
    using assms(2) by (intro nested_concat) (simp add: list_all_iff nests)
  with nested_ident [OF assms(1)] show ?thesis
    by (intro nestedI)
      (simp add: generate_deserialize_method_def line_def nests nest_skip_unknown)
qed

lemma nested_source_declaration [nests]: "wf_decl d \<Longrightarrow> nested (source_declaration s d)"
  by (cases d) (simp_all add: generate_model_implementation_def nests nested_append)

lemma nested_enum_lines: "list_all wf_enum_value vs \<Longrightarrow> nested (enum_lines vs)"
proof (induction vs)
  case (Cons v vs)
  then have "nested (ev_name v)" "nested (enum_lines vs)" by (auto simp: wf_enum_value_def nested_ident)
  then show ?case by (intro nestedI) (simp add: line_def)
qed simp

lemma nested_member [nests]:
  assumes "wf_field f"
  shows "nested (member_declaration f)"
proof -
  have "nested (get_field_type f)"
    using nested_type_name(2) [OF assms] by (intro nestedI) (simp add: get_field_type_def Let_def)
  moreover have "nested (member_initializer f)"
    by (intro nestedI)
      (simp add: member_initializer_def split: ast_type.split primitive_type_kind.split)
  ultimately show ?thesis
    using nested_field_name [OF assms] by (intro nestedI) (simp add: member_declaration_def line_def)
qed

lemma nested_header_declaration [nests]: "wf_decl d \<Longrightarrow> nested (header_declaration d)"
proof (cases d)
  case (EnumDecl e)
  assume "wf_decl d"
  with EnumDecl have "nested (en_name e)" "nested (enum_lines (en_values e))"
    by (simp_all add: nested_ident nested_enum_lines)
  with EnumDecl show ?thesis
    by (intro nestedI) (simp add: generate_enum_declaration_def line_def)
next
  case (ModelDecl m)
  assume "wf_decl d"
  with ModelDecl have "nested (md_name m)" "nested (concat (map member_declaration (md_fields m)))"
    by (auto simp: nested_ident list_all_iff nests intro: nested_concat)
  with ModelDecl show ?thesis
    by (intro nestedI) (simp add: generate_model_declaration_def line_def)
qed

text \<open>
  C32: For every source text the parser accepts, the brackets of the generated header and of the
  generated source file are properly nested, whatever the names, types, modifiers and values are.
\<close>

theorem generated_text_nested:
  assumes parsed: "parse_source text = Inr s"
  shows "nested (fst (generate_header (new_code_generator s))) \<and>
    nested (fst (generate_source [] (new_code_generator s)))"
proof -
  have wf: "wf_schema s" by (rule parse_source_wf [OF parsed])
  have ns: "nested (sc_namespace s)" using wf by (simp add: wf_schema_def nested_namespace)
  have decls: "nested (concat (map header_declaration (sc_declarations s)))"
    "nested (concat (map (source_declaration s) (sc_declarations s)))"
    using wf by (auto simp: wf_schema_def list_all_iff nests intro!: nested_concat)
  have "nested (header_text s)"
    by (rule nestedI)
      (simp add: header_text_def generate_includes_def generate_namespace_open_def
        generate_namespace_close_def line_def ns decls)
  moreover have "nested (source_text (sc_namespace s) s)"
    by (rule nestedI)
      (simp add: source_text_def generate_namespace_open_def generate_namespace_close_def
        line_def ns decls)
  ultimately show ?thesis
    by (simp add: generate_header_text generate_source_text new_code_generator_def Let_def)
qed

lemma sample_parses: "\<exists>s. parse_source ''namespace a; enum E { X = 0; } model M { optional E e = 1; }'' = Inr s"
proof -
  have "\<not> isl (parse_source ''namespace a; enum E { X = 0; } model M { optional E e = 1; }'')" by code_simp
  then show ?thesis
    by (cases "parse_source ''namespace a; enum E { X = 0; } model M { optional E e = 1; }''") auto
qed

theorem generated_text_nested_witness:
  "\<exists>s. parse_source ''namespace a; enum E { X = 0; } model M { optional E e = 1; }'' = Inr s \<and>
     nested (fst (generate_header (new_code_generator s)))"
proof -
  obtain s where s: "parse_source ''namespace a; enum E { X = 0; } model M { optional E e = 1; }'' = Inr s"
    using sample_parses by blast
  show ?thesis using generated_text_nested [OF s] s by blast
qed

end
