(* ===== verification/Wire.thy ===== *)
theory Wire
  imports Ast
begin

unbundle bit_operations_syntax

text \<open>
  The primitives of the code that the generator emits: the loops that write and read a base-128
  number on 64-bit words, and the conversions between the members of a class and such a number. Each
  function is the meaning of the statements that \<^verbatim>\<open>compiler/source/codegen.cpp\<close> prints.
\<close>

section \<open>Results of running emitted code\<close>

text \<open>
  \<open>Undef\<close>: the run has undefined behaviour; \<open>Fuel\<close>: it has not ended within the number of steps
  it was given.
\<close>

datatype 'a exec = Ret 'a | Undef | Fuel

definition bindE :: "'a exec \<Rightarrow> ('a \<Rightarrow> 'b exec) \<Rightarrow> 'b exec" where
  "bindE m f = (case m of Ret x \<Rightarrow> f x | Undef \<Rightarrow> Undef | Fuel \<Rightarrow> Fuel)"

lemma bindE_simps [simp]: "bindE (Ret x) f = f x" "bindE Undef f = Undef" "bindE Fuel f = Fuel"
  by (simp_all add: bindE_def)

lemma bindE_eq_Ret: "bindE m f = Ret y \<longleftrightarrow> (\<exists>x. m = Ret x \<and> f x = Ret y)"
  by (cases m) auto

lemma bindE_eq_Fuel: "bindE m f = Fuel \<longleftrightarrow> m = Fuel \<or> (\<exists>x. m = Ret x \<and> f x = Fuel)"
  by (cases m) auto

section \<open>Writing and reading a number\<close>

type_synonym byte = "8 word"

lemma unat_drop_7_less:
  fixes val :: "64 word"
  assumes "val > 0x7F"
  shows "unat (drop_bit 7 val) < unat val"
proof -
  have "0x7F < unat val" using assms by (simp add: word_less_nat_alt)
  then show ?thesis by (simp add: unat_drop_bit)
qed

function write_varint :: "byte list \<Rightarrow> 64 word \<Rightarrow> byte list" where
  "write_varint buffer val =
     (if val > 0x7F
      then write_varint (buffer @ [ucast ((val AND 0x7F) OR 0x80)]) (drop_bit 7 val)
      else buffer @ [ucast val])"
  by pat_completeness auto
termination
  by (relation "measure (\<lambda>(b, v). unat v)") (auto intro: unat_drop_7_less)

declare write_varint.simps [simp del]

text \<open>
  The reading loop from position \<^verbatim>\<open>pos\<close>; a shift by 64 or more is undefined. The loop ends without
  an error when the data do.
\<close>

function read_loop :: "byte list \<Rightarrow> nat \<Rightarrow> 64 word \<Rightarrow> nat \<Rightarrow> (64 word \<times> nat) exec" where
  "read_loop data pos value shift =
     (if pos < length data then
        let byte = data ! pos in
        if shift \<ge> 64 then Undef
        else
          let value' = value OR push_bit shift (ucast (byte AND 0x7F)) in
          if byte AND 0x80 = 0 then Ret (value', pos + 1)
          else read_loop data (pos + 1) value' (shift + 7)
      else Ret (value, pos))"
  by pat_completeness auto
termination
  by (relation "measure (\<lambda>(data, pos, v, s). length data - pos)") auto

declare read_loop.simps [simp del]

definition read_varint :: "byte list \<Rightarrow> nat \<Rightarrow> (64 word \<times> nat) exec" where
  "read_varint data pos = read_loop data pos 0 0"

section \<open>The number format\<close>

text \<open>The specification: base 128, least significant group first, the high bit on all but the last.\<close>

fun varint :: "nat \<Rightarrow> byte list" where
  "varint n = (if n < 128 then [of_nat n] else of_nat (n mod 128 + 128) # varint (n div 128))"

declare varint.simps [simp del]

lemma varint_nonempty [simp]: "varint n \<noteq> []"
  by (subst varint.simps) simp

lemma byte_of_group:
  "ucast ((val AND 0x7F) OR 0x80) = (of_nat (unat val mod 128 + 128) :: byte)" for val :: "64 word"
proof -
  have low: "unat (val AND 0x7F) = unat val mod 128"
    using unat_and_mask [of val 7] by (simp add: mask_eq_exp_minus_1)
  have "(val AND 0x7F) OR 0x80 = push_bit 7 1 OR (val AND 0x7F)" by (simp add: or.commute)
  also have "\<dots> = push_bit 7 1 + (val AND 0x7F)" by (rule push_bit_or_eq_add) (simp add: low)
  finally have "unat ((val AND 0x7F) OR 0x80) = unat val mod 128 + 128"
    by (simp add: unat_word_ariths low)
  moreover have "ucast w = (of_nat (unat w) :: byte)" for w :: "64 word" by simp
  ultimately show ?thesis by (simp only:)
qed

lemma write_varint_format: "write_varint buffer val = buffer @ varint (unat val)"
proof (induction buffer val rule: write_varint.induct)
  case (1 buffer val)
  show ?case
  proof (cases "val > 0x7F")
    case True
    then have "128 \<le> unat val" by (simp add: word_less_nat_alt)
    then have "varint (unat val) = of_nat (unat val mod 128 + 128) # varint (unat val div 128)"
      by (subst varint.simps) simp
    with 1 True show ?thesis
      by (subst write_varint.simps) (simp add: byte_of_group unat_drop_bit)
  next
    case False
    then have "unat val < 128" by (simp add: word_less_nat_alt)
    then have "varint (unat val) = [of_nat (unat val)]" by (subst varint.simps) simp
    with False show ?thesis
      by (subst write_varint.simps) simp
  qed
qed

lemma varint_length: "n < 128 ^ k \<Longrightarrow> 0 < k \<Longrightarrow> length (varint n) \<le> k"
proof (induction k arbitrary: n)
  case (Suc k)
  show ?case
  proof (cases "n < 128")
    case True
    then show ?thesis by (subst varint.simps) simp
  next
    case False
    then have "n div 128 < 128 ^ k" "0 < k"
      using Suc.prems by (auto simp: less_mult_imp_div_less mult.commute intro: Nat.gr0I)
    with False Suc.IH [of "n div 128"] show ?thesis by (subst varint.simps) simp
  qed
qed simp

text \<open>Reading the bytes of a number adds it, shifted, to what has been read.\<close>

lemma unat_of_nat_64: "k < 2 ^ 64 \<Longrightarrow> unat (of_nat k :: 64 word) = k"
  by (simp add: unat_of_nat)

lemma group_value:
  fixes acc :: "64 word"
  assumes "unat acc < 2 ^ shift" "unat acc + k * 2 ^ shift < 2 ^ 64"
  shows "unat (acc OR push_bit shift (of_nat k)) = unat acc + k * 2 ^ shift"
proof -
  have "acc OR push_bit shift (of_nat k) = push_bit shift (of_nat k) + acc"
    using push_bit_or_eq_add [OF assms(1)] by (simp add: or.commute)
  moreover have p: "unat (push_bit shift (of_nat k :: 64 word)) = k * 2 ^ shift"
    using assms(2) unfolding push_bit_of_nat push_bit_eq_mult [where 'a = nat]
    by (intro unat_of_nat_64) linarith
  moreover have "unat (push_bit shift (of_nat k) + acc) = unat (push_bit shift (of_nat k :: 64 word)) + unat acc"
    by (rule unat_add_lem [THEN iffD1]) (use assms(2) in \<open>simp add: p\<close>)
  ultimately show ?thesis by simp
qed

lemma unat_byte: "unat b < 256" for b :: byte
  using unsigned_less [of b, where ?'a = nat] by simp

lemma high_bit: "b AND 0x80 = 0 \<longleftrightarrow> unat b < 128" for b :: byte
proof -
  have bit: "b AND 0x80 = 0 \<longleftrightarrow> even (drop_bit 7 b)"
    using and_exp_eq_0_iff_not_bit [of b 7] by (simp add: bit_iff_odd_drop_bit)
  have drop: "drop_bit 7 b = of_nat (unat b div 128)"
    using unat_byte [of b] unat_drop_bit [of 7 b]
    by (intro word_unat_eq_iff [THEN iffD2]) (simp add: unat_of_nat)
  show ?thesis
  proof (cases "unat b < 128")
    case True
    then show ?thesis unfolding bit drop by simp
  next
    case False
    then have "unat b div 128 = 1" using unat_byte [of b] by simp
    with False show ?thesis unfolding bit drop by simp
  qed
qed

lemma low_bits: "ucast (b AND 0x7F) = (of_nat (unat b mod 128) :: 64 word)" for b :: byte
proof -
  have "unat (b AND 0x7F) = unat b mod 128"
    using unat_and_mask [of b 7] by (simp add: mask_eq_exp_minus_1)
  moreover have "ucast w = (of_nat (unat w) :: 64 word)" for w :: byte by simp
  ultimately show ?thesis by (simp only:)
qed

text \<open>
  The number behind \<open>pre\<close> is read whole, whatever follows it; \<open>acc\<close> is what the loop has collected.
\<close>

lemma read_loop_varint:
  "unat acc < 2 ^ shift \<Longrightarrow> unat acc + n * 2 ^ shift < 2 ^ 64 \<Longrightarrow> shift < 64 \<Longrightarrow>
   \<exists>v. read_loop (pre @ varint n @ rest) (length pre) acc shift =
         Ret (v, length pre + length (varint n)) \<and> unat v = unat acc + n * 2 ^ shift"
proof (induction n arbitrary: pre acc shift rule: varint.induct)
  case (1 n)
  show ?case
  proof (cases "n < 128")
    case True
    then have bytes: "varint n = [of_nat n]" and b: "unat (of_nat n :: byte) = n"
      by (simp_all add: varint.simps [of n] unat_of_nat)
    let ?v = "acc OR push_bit shift (of_nat n)"
    have "read_loop (pre @ varint n @ rest) (length pre) acc shift = Ret (?v, length pre + 1)"
      using 1 True
      by (subst read_loop.simps) (simp add: bytes high_bit low_bits b nth_append Let_def)
    then show ?thesis
      using group_value [of acc shift n] 1 True by (simp add: bytes)
  next
    case False
    define q r where "q = n div 128" and "r = n mod 128"
    then have n: "n = 128 * q + r" and r: "r < 128" and q: "1 \<le> q" using False by auto
    have bytes: "varint n = of_nat (r + 128) # varint q"
      by (subst varint.simps) (use False in \<open>simp add: q_def r_def\<close>)
    have b: "unat (of_nat (r + 128) :: byte) = r + 128"
      using r by (simp add: unat_of_nat del: of_nat_add)
    let ?v = "acc OR push_bit shift (of_nat r)"
    have total: "n * 2 ^ shift = r * 2 ^ shift + q * 2 ^ (shift + 7)"
      by (simp add: n power_add algebra_simps)
    have v: "unat ?v = unat acc + r * 2 ^ shift"
      using 1 total by (intro group_value) linarith+
    have "unat acc + r * 2 ^ shift < 2 ^ shift + 127 * 2 ^ shift"
      using 1 r by (intro add_less_le_mono mult_le_mono) auto
    then have v_less: "unat ?v < 2 ^ (shift + 7)" unfolding v by (simp add: power_add)
    have "2 ^ (shift + 7) \<le> q * 2 ^ (shift + 7)" using q by simp
    then have "(2 :: nat) ^ (shift + 7) < 2 ^ 64" using 1 total by linarith
    then have shift: "shift + 7 < 64" by (rule power_less_imp_less_exp [rotated]) simp
    have "read_loop (pre @ varint n @ rest) (length pre) acc shift =
        read_loop ((pre @ [of_nat (r + 128)]) @ varint q @ rest) (length (pre @ [of_nat (r + 128)] :: byte list)) ?v (shift + 7)"
      using 1(4) r
      by (subst read_loop.simps) (simp add: bytes high_bit low_bits b nth_append Let_def del: of_nat_add)
    moreover have "unat ?v + q * 2 ^ (shift + 7) < 2 ^ 64"
      unfolding v using 1(3) total by linarith
    note "1.IH" [OF False, folded q_def, OF v_less this shift, of "pre @ [of_nat (r + 128)]"]
    ultimately show ?thesis using v total by (auto simp: bytes)
  qed
qed

lemma read_varint_at:
  assumes "n < 2 ^ 64"
  shows "read_varint (pre @ varint n @ rest) (length pre) = Ret (of_nat n, length pre + length (varint n))"
proof -
  obtain v where v: "read_varint (pre @ varint n @ rest) (length pre) = Ret (v, length pre + length (varint n))"
    "unat v = n"
    using read_loop_varint [of 0 0 n pre rest] assms by (auto simp: read_varint_def)
  have "v = of_nat n" using v(2) by (metis of_nat_unat ucast_id)
  with v(1) show ?thesis by simp
qed

text \<open>
  C17: A 64-bit number is written in one to ten bytes, and reading them, whatever stands before and behind
  them, gives the number back and stops behind them.
\<close>

theorem varint_roundtrip:
  "\<exists>b. write_varint buffer val = buffer @ b \<and> 1 \<le> length b \<and> length b \<le> 10 \<and>
     (\<forall>pre rest. read_varint (pre @ b @ rest) (length pre) = Ret (val, length pre + length b))"
proof (intro exI conjI allI)
  let ?b = "varint (unat val)"
  have val: "unat val < 2 ^ 64" using unsigned_less [of val, where ?'a = nat] by simp
  show "write_varint buffer val = buffer @ ?b" by (rule write_varint_format)
  have "0 < length ?b" by simp
  then show "1 \<le> length ?b" by linarith
  show "length ?b \<le> 10" using varint_length [of "unat val" 10] val by simp
  show "read_varint (pre @ ?b @ rest) (length pre) = Ret (val, length pre + length ?b)" for pre rest
    using read_varint_at [OF val] by simp
qed

lemma read_loop_pos:
  "read_loop data pos v s = Ret (w, pos') \<Longrightarrow>
     pos \<le> pos' \<and> (pos < length data \<longrightarrow> pos < pos') \<and> (pos \<le> length data \<longrightarrow> pos' \<le> length data)"
proof (induction data pos v s rule: read_loop.induct)
  case (1 data pos v s)
  show ?case
  proof (cases "pos < length data \<and> s < 64 \<and> data ! pos AND 0x80 \<noteq> 0")
    case True
    with "1.prems" "1.IH" [OF _ refl _ refl] show ?thesis
      by (auto simp: read_loop.simps [of data pos v s] Let_def Suc_le_eq)
  next
    case False
    with "1.prems" show ?thesis
      by (auto simp: read_loop.simps [of data pos v s] Let_def split: if_splits)
  qed
qed

lemma read_varint_pos:
  "read_varint data pos = Ret (w, pos') \<Longrightarrow> pos < length data \<Longrightarrow> pos < pos' \<and> pos' \<le> length data"
  using read_loop_pos by (fastforce simp: read_varint_def)

lemma read_loop_no_fuel: "read_loop data pos v s \<noteq> Fuel"
proof (induction data pos v s rule: read_loop.induct)
  case (1 data pos v s)
  then show ?case by (subst read_loop.simps) (auto simp: Let_def)
qed

section \<open>Conversions\<close>

text \<open>
  \<^verbatim>\<open>static_cast\<close> from \<^verbatim>\<open>uint64_t\<close> to the type of a member: modular for the integers, a test against
  zero for \<^verbatim>\<open>bool\<close>. An enumeration has the underlying type \<^verbatim>\<open>int32_t\<close>.
\<close>

fun from_u64 :: "primitive_type_kind \<Rightarrow> 64 word \<Rightarrow> int" where
  "from_u64 K_INT8 w = sint (ucast w :: 8 word)"
| "from_u64 K_INT16 w = sint (ucast w :: 16 word)"
| "from_u64 K_INT32 w = sint (ucast w :: 32 word)"
| "from_u64 K_INT64 w = sint w"
| "from_u64 K_UINT8 w = uint (ucast w :: 8 word)"
| "from_u64 K_UINT16 w = uint (ucast w :: 16 word)"
| "from_u64 K_UINT32 w = uint (ucast w :: 32 word)"
| "from_u64 K_UINT64 w = uint w"
| "from_u64 K_BOOL w = (if w = 0 then 0 else 1)"
| "from_u64 K_BYTE w = uint (ucast w :: 8 word)"
| "from_u64 k w = 0"

text \<open>\<^verbatim>\<open>static_cast<uint64_t>\<close> of an integer.\<close>

definition to_u64 :: "int \<Rightarrow> 64 word" where
  "to_u64 i = word_of_int i"

text \<open>The values of the integer types.\<close>

fun kind_range :: "primitive_type_kind \<Rightarrow> int \<Rightarrow> bool" where
  "kind_range K_INT8 i \<longleftrightarrow> - (2 ^ 7) \<le> i \<and> i < 2 ^ 7"
| "kind_range K_INT16 i \<longleftrightarrow> - (2 ^ 15) \<le> i \<and> i < 2 ^ 15"
| "kind_range K_INT32 i \<longleftrightarrow> - (2 ^ 31) \<le> i \<and> i < 2 ^ 31"
| "kind_range K_INT64 i \<longleftrightarrow> - (2 ^ 63) \<le> i \<and> i < 2 ^ 63"
| "kind_range K_UINT8 i \<longleftrightarrow> 0 \<le> i \<and> i < 2 ^ 8"
| "kind_range K_UINT16 i \<longleftrightarrow> 0 \<le> i \<and> i < 2 ^ 16"
| "kind_range K_UINT32 i \<longleftrightarrow> 0 \<le> i \<and> i < 2 ^ 32"
| "kind_range K_UINT64 i \<longleftrightarrow> 0 \<le> i \<and> i < 2 ^ 64"
| "kind_range K_BOOL i \<longleftrightarrow> i = 0 \<or> i = 1"
| "kind_range K_BYTE i \<longleftrightarrow> 0 \<le> i \<and> i < 2 ^ 8"
| "kind_range k i \<longleftrightarrow> False"

lemma sint_roundtrip:
  assumes "- (2 ^ (LENGTH('a) - 1)) \<le> i" "i < 2 ^ (LENGTH('a) - 1)"
  shows "sint (word_of_int i :: 'a::len word) = i"
  using assms by (simp add: signed_of_int signed_take_bit_int_eq_self)

lemma uint_roundtrip: "0 \<le> i \<Longrightarrow> i < 2 ^ LENGTH('a) \<Longrightarrow> uint (word_of_int i :: 'a::len word) = i"
  by (simp add: unsigned_of_int take_bit_int_eq_self)

lemma ucast_word_of_int:
  "LENGTH('a) \<le> 64 \<Longrightarrow> ucast (word_of_int i :: 64 word) = (word_of_int i :: 'a::len word)"
  by (simp add: unsigned_of_int word_of_int_eq_iff min_def)

lemma from_to_u64: "kind_range k i \<Longrightarrow> from_u64 k (to_u64 i) = i"
  by (cases k) (auto simp: to_u64_def ucast_word_of_int sint_roundtrip uint_roundtrip)

section \<open>Floating-point members\<close>

text \<open>
  A \<^verbatim>\<open>float\<close> or \<^verbatim>\<open>double\<close> is its bit pattern in the IEEE binary format with \<open>e\<close> exponent bits and \<open>m\<close>
  fraction bits. \<open>float_to_u64\<close> is \<^verbatim>\<open>static_cast<uint64_t>\<close>: it drops the fraction, and is undefined
  when the result does not fit. \<open>float_from_u64\<close> is the conversion back, to the nearest value, ties
  to even.
\<close>

definition float_to_u64 :: "nat \<Rightarrow> nat \<Rightarrow> nat \<Rightarrow> 64 word exec" where
  "float_to_u64 e m p =
     (let negative = (p div 2 ^ (e + m) mod 2 = 1);
          ex = p div 2 ^ m mod 2 ^ e;
          fr = p mod 2 ^ m;
          bias = 2 ^ (e - 1) - 1;
          mant = (if ex = 0 then fr else 2 ^ m + fr);
          scale = max ex 1;
          whole = (if bias + m \<le> scale then mant * 2 ^ (scale - (bias + m))
                   else mant div 2 ^ (bias + m - scale))
      in if ex = 2 ^ e - 1 then Undef
         else if whole = 0 then Ret 0
         else if negative \<or> 2 ^ 64 \<le> whole then Undef
         else Ret (of_nat whole))"

fun floor_log2 :: "nat \<Rightarrow> nat" where
  "floor_log2 n = (if n < 2 then 0 else Suc (floor_log2 (n div 2)))"

declare floor_log2.simps [simp del]

definition float_from_u64 :: "nat \<Rightarrow> nat \<Rightarrow> 64 word \<Rightarrow> nat" where
  "float_from_u64 e m w =
     (let n = unat w; k = floor_log2 n; bias = 2 ^ (e - 1) - 1 in
      if n = 0 then 0
      else if k \<le> m then (k + bias) * 2 ^ m + (n * 2 ^ (m - k) - 2 ^ m)
      else
        let q = n div 2 ^ (k - m); r = n mod 2 ^ (k - m); half = 2 ^ (k - m - 1);
            q' = (if half < r \<or> r = half \<and> odd q then q + 1 else q)
        in (k + bias) * 2 ^ m + (q' - 2 ^ m))"

text \<open>Every number between zero and one, of either sign, is truncated to zero.\<close>

lemma float_to_u64_fraction:
  assumes "0 < e" "p div 2 ^ m mod 2 ^ e < 2 ^ (e - 1) - 1"
  shows "float_to_u64 e m p = Ret 0"
proof -
  let ?ex = "p div 2 ^ m mod 2 ^ e" and ?fr = "p mod 2 ^ m" and ?bias = "2 ^ (e - 1) - 1 :: nat"
  let ?mant = "if ?ex = 0 then ?fr else 2 ^ m + ?fr" and ?scale = "max ?ex 1"
  have bias: "1 \<le> ?bias" using assms(2) by linarith
  have fr: "?fr < 2 ^ m" by simp
  then have "?fr < 2 * 2 ^ m" by linarith
  with fr have "?mant < 2 ^ Suc m" by simp
  moreover have "Suc m \<le> ?bias + m - ?scale \<or> ?ex = 0"
    using assms(2) by linarith
  ultimately have "?mant div 2 ^ (?bias + m - ?scale) = 0"
  proof (elim disjE)
    assume *: "?mant < 2 ^ Suc m" "Suc m \<le> ?bias + m - ?scale"
    from *(2) have "(2 :: nat) ^ Suc m \<le> 2 ^ (?bias + m - ?scale)" by (rule power_increasing) simp
    with *(1) show ?thesis by (simp only: div_less)
  next
    assume *: "?ex = 0"
    have "m \<le> ?bias + m - ?scale" using bias * by simp
    then have "(2 :: nat) ^ m \<le> 2 ^ (?bias + m - ?scale)" by (rule power_increasing) simp
    with fr have "?fr < 2 ^ (?bias + m - ?scale)" by (rule less_le_trans)
    with * show ?thesis by simp
  qed
  moreover have "?mant * 2 ^ (?scale - (?bias + m)) = 0" if "?bias + m \<le> ?scale"
  proof -
    have "m = 0" "?ex = 0" using that assms(2) bias by linarith+
    then show ?thesis by simp
  qed
  ultimately have whole: "(if ?bias + m \<le> ?scale then ?mant * 2 ^ (?scale - (?bias + m))
      else ?mant div 2 ^ (?bias + m - ?scale)) = 0" by presburger
  have "(2 :: nat) ^ (e - 1) \<le> 2 ^ e" by (rule power_increasing) simp_all
  then have "?ex \<noteq> 2 ^ e - 1" using assms(2) by linarith
  then show ?thesis unfolding float_to_u64_def Let_def whole by simp
qed

lemma float_from_u64_zero [simp]: "float_from_u64 e m 0 = 0"
  by (simp add: float_from_u64_def)

section \<open>Whole numbers\<close>

lemma floor_log2_unique: "2 ^ k \<le> n \<Longrightarrow> n < 2 ^ Suc k \<Longrightarrow> floor_log2 n = k"
proof (induction k arbitrary: n)
  case 0
  then show ?case by (simp add: floor_log2.simps [of n])
next
  case (Suc k)
  then have "2 ^ k \<le> n div 2" "n div 2 < 2 ^ Suc k" by (simp_all add: div_less_iff_less_mult)
  note half = Suc.IH [OF this]
  have "(1 :: nat) \<le> 2 ^ k" by simp
  then have "2 \<le> n" using Suc.prems(1) unfolding power_Suc by linarith
  with half show ?case by (simp add: floor_log2.simps [of n])
qed

text \<open>
  The patterns of whole numbers below \<open>2 ^ 64\<close>: no sign, and zero, or an exponent that puts the binary point
  behind the leading bit, with zeros behind the point.
\<close>

definition whole_float :: "nat \<Rightarrow> nat \<Rightarrow> nat \<Rightarrow> bool" where
  "whole_float e m p \<longleftrightarrow>
     (let ex = p div 2 ^ m; fr = p mod 2 ^ m; bias = 2 ^ (e - 1) - 1 in
      p = 0 \<or> (bias \<le> ex \<and> ex < bias + 64 \<and> (ex < bias + m \<longrightarrow> 2 ^ (bias + m - ex) dvd fr)))"

lemma whole_float_number:
  fixes e m p :: nat
  defines "bias \<equiv> 2 ^ (e - 1) - 1"
  assumes e: "bias + 64 < 2 ^ e" "0 < bias" and whole: "whole_float e m p" "p \<noteq> 0"
  obtains k n where "k < 64" "p = (k + bias) * 2 ^ m + p mod 2 ^ m" "2 ^ k \<le> n" "n < 2 ^ Suc k"
    "k \<le> m \<Longrightarrow> 2 ^ m + p mod 2 ^ m = n * 2 ^ (m - k)"
    "m < k \<Longrightarrow> n = (2 ^ m + p mod 2 ^ m) * 2 ^ (k - m)"
proof -
  let ?fr = "p mod 2 ^ m" and ?k = "p div 2 ^ m - bias"
  have ex: "bias \<le> p div 2 ^ m" "p div 2 ^ m < bias + 64"
    and dvd: "p div 2 ^ m < bias + m \<Longrightarrow> 2 ^ (bias + m - p div 2 ^ m) dvd ?fr"
    using whole by (auto simp: whole_float_def Let_def bias_def)
  have p: "p = (?k + bias) * 2 ^ m + ?fr" using ex(1) by (metis div_mult_mod_eq le_add_diff_inverse2)
  have fr: "?fr < 2 ^ m" by simp
  show thesis
  proof (cases "?k \<le> m")
    case True
    have mant: "2 ^ (m - ?k) dvd 2 ^ m + ?fr"
    proof (cases "?k = m")
      case False
      with True ex(1) have "p div 2 ^ m < bias + m" "bias + m - p div 2 ^ m = m - ?k" by linarith+
      with dvd have "2 ^ (m - ?k) dvd ?fr" by simp
      moreover have "(2 :: nat) ^ (m - ?k) dvd 2 ^ m" by (rule le_imp_power_dvd) simp
      ultimately show ?thesis by simp
    qed simp
    then obtain n where n: "2 ^ m + ?fr = n * 2 ^ (m - ?k)" by (metis dvd_def mult.commute)
    have pow: "(2 :: nat) ^ m = 2 ^ ?k * 2 ^ (m - ?k)" using True by (simp flip: power_add)
    have "2 ^ ?k * 2 ^ (m - ?k) \<le> n * 2 ^ (m - ?k)" unfolding n [symmetric] pow [symmetric] by simp
    moreover have "n * 2 ^ (m - ?k) < 2 ^ Suc ?k * 2 ^ (m - ?k)"
      unfolding n [symmetric] power_Suc mult.assoc pow [symmetric] using fr by simp
    ultimately have "2 ^ ?k \<le> n" "n < 2 ^ Suc ?k" by simp_all
    with ex p n True show thesis by (intro that [of ?k n]) auto
  next
    case False
    have pow: "(2 :: nat) ^ ?k = 2 ^ m * 2 ^ (?k - m)" using False by (simp flip: power_add)
    have "2 ^ ?k \<le> (2 ^ m + ?fr) * 2 ^ (?k - m)" unfolding pow by (simp add: add_mult_distrib)
    moreover have "(2 ^ m + ?fr) * 2 ^ (?k - m) < 2 * 2 ^ m * 2 ^ (?k - m)" using fr by simp
    then have "(2 ^ m + ?fr) * 2 ^ (?k - m) < 2 ^ Suc ?k" unfolding power_Suc pow by (simp only: mult.assoc)
    ultimately show thesis using ex p False by (intro that [of ?k "(2 ^ m + ?fr) * 2 ^ (?k - m)"]) auto
  qed
qed

lemma whole_float_roundtrip:
  fixes e m p :: nat
  assumes e: "2 ^ (e - 1) - 1 + 64 < (2 :: nat) ^ e" "0 < (2 :: nat) ^ (e - 1) - 1"
    and whole: "whole_float e m p"
  shows "\<exists>w. float_to_u64 e m p = Ret w \<and> float_from_u64 e m w = p"
proof (cases "p = 0")
  case True
  have "\<not> (2 :: nat) ^ e \<le> Suc 0" using e by linarith
  then have "float_to_u64 e m p = Ret 0" using True by (auto simp: float_to_u64_def Let_def)
  with True show ?thesis by simp
next
  case False
  let ?bias = "2 ^ (e - 1) - 1 :: nat" and ?fr = "p mod 2 ^ m"
  obtain k n where k: "k < 64" and p: "p = (k + ?bias) * 2 ^ m + ?fr" and n: "2 ^ k \<le> n" "n < 2 ^ Suc k"
    and le: "k \<le> m \<Longrightarrow> 2 ^ m + ?fr = n * 2 ^ (m - k)" and gt: "m < k \<Longrightarrow> n = (2 ^ m + ?fr) * 2 ^ (k - m)"
    using whole_float_number [OF e whole False] by metis
  have fr: "?fr < 2 ^ m" by simp
  have ex: "p div 2 ^ m = k + ?bias"
    by (subst p, subst div_mult_self3) (use fr in simp_all)
  have small: "k + ?bias < 2 ^ e" using e k by linarith
  have "p div 2 ^ (e + m) = 0"
    by (simp only: add.commute [of e m] power_add div_mult2_eq ex) (use small in simp)
  have "(2 :: nat) ^ Suc k \<le> 2 ^ 64" using k by (intro power_increasing) auto
  then have "n < 2 ^ 64" using n(2) by linarith
  then have un: "unat (of_nat n :: 64 word) = n" by (rule unat_of_nat_64)
  have "0 < n" using n(1) by (metis not_gr_zero not_less_zero le_zero_eq power_not_zero zero_neq_numeral)
  have scale: "max (k + ?bias) 1 = k + ?bias" using e(2) by simp
  have whole_part: "(if B + m \<le> k + B then (2 ^ m + ?fr) * 2 ^ (k + B - (B + m))
      else (2 ^ m + ?fr) div 2 ^ (B + m - (k + B))) = n" for B
    using gt le by (cases m k rule: linorder_cases) auto
  have nz: "k + ?bias \<noteq> 0" and top: "k + ?bias \<noteq> 2 ^ e - 1" using e k by linarith+
  have neg: "(p div 2 ^ (e + m) mod 2 = 1) = False" using \<open>p div 2 ^ (e + m) = 0\<close> by simp
  have "(n = 0) = False" "(2 ^ 64 \<le> n) = False" using \<open>0 < n\<close> \<open>n < 2 ^ 64\<close> by simp_all
  then have "float_to_u64 e m p = Ret (of_nat n)"
    unfolding float_to_u64_def Let_def ex mod_less [OF small] scale
    by (simp only: nz top neg if_False whole_part simp_thms)
  moreover have "float_from_u64 e m (of_nat n) = p"
  proof (cases "k \<le> m")
    case True
    then show ?thesis
      using le \<open>0 < n\<close> un floor_log2_unique [OF n] p unfolding float_from_u64_def Let_def by simp
  next
    case False
    then have q: "n div 2 ^ (k - m) = 2 ^ m + ?fr" "n mod 2 ^ (k - m) = 0" using gt by simp_all
    show ?thesis
      using False \<open>0 < n\<close> un floor_log2_unique [OF n] p q unfolding float_from_u64_def Let_def by simp
  qed
  ultimately show ?thesis by blast
qed

end
