(* ===== verification/Runtime.thy ===== *)
theory Runtime
  imports Wire Codegen
begin

unbundle bit_operations_syntax

text \<open>
  The meaning of the classes the generator emits. The generator's choice for a field is a small
  program: a \<open>writer\<close> in \<^verbatim>\<open>serialize\<close> and a \<open>reader\<close> in \<^verbatim>\<open>deserialize\<close>. \<open>print_writer\<close> and
  \<open>print_reader\<close> are the C++ text of such a program, and the generated text is proved to be exactly
  that; \<open>ser_field\<close> and \<open>read_field\<close> are its execution.
\<close>

section \<open>The programs the generator chooses\<close>

datatype payload = P_number | P_bool | P_string | P_model

datatype writer =
    W_each "32 word" payload
  | W_packed "32 word" primitive_type_kind
  | W_optional "32 word" payload
  | W_plain "32 word" payload

definition item_payload :: "schema \<Rightarrow> ast_type \<Rightarrow> payload" where
  "item_payload s t =
     (case t of
        PrimitiveType k l \<Rightarrow> if k = K_STRING then P_string else P_number
      | UserType n l \<Rightarrow> if is_enum_type s n then P_number else P_model)"

definition plain_payload :: "schema \<Rightarrow> ast_type \<Rightarrow> payload" where
  "plain_payload s t =
     (case t of
        PrimitiveType k l \<Rightarrow> if k = K_STRING then P_string else if k = K_BOOL then P_bool else P_number
      | UserType n l \<Rightarrow> if is_enum_type s n then P_number else P_model)"

definition writer_of :: "schema \<Rightarrow> field \<Rightarrow> writer" where
  "writer_of s f =
     (if is_repeated f then
        (case fd_type f of
           PrimitiveType k l \<Rightarrow>
             if is_packed f then W_packed (packed_tag f) k else W_each (field_tag f) (item_payload s (fd_type f))
         | UserType n l \<Rightarrow> W_each (field_tag f) (item_payload s (fd_type f)))
      else if is_optional f then W_optional (field_tag f) (item_payload s (fd_type f))
      else W_plain (field_tag f) (plain_payload s (fd_type f)))"

datatype reader = R_number string | R_string | R_model string
datatype store_mode = M_push | M_optional | M_assign

definition reader_of :: "schema \<Rightarrow> field \<Rightarrow> reader" where
  "reader_of s f =
     (case fd_type f of
        PrimitiveType k l \<Rightarrow> if k = K_STRING then R_string else R_number (cpp_kind k)
      | UserType n l \<Rightarrow> if is_enum_type s n then R_number n else R_model n)"

definition mode_of :: "field \<Rightarrow> store_mode" where
  "mode_of f = (if is_repeated f then M_push else if is_optional f then M_optional else M_assign)"

section \<open>Their text\<close>

datatype place = At_item | At_optional string | At_member string

fun number_expr :: "place \<Rightarrow> string" where
  "number_expr At_item = ''item''"
| "number_expr (At_optional n) = ''*'' @ n"
| "number_expr (At_member n) = n"

fun access_expr :: "place \<Rightarrow> string" where
  "access_expr At_item = ''item.''"
| "access_expr (At_optional n) = n @ ''->''"
| "access_expr (At_member n) = n @ ''.''"

definition data_var :: "place \<Rightarrow> string" where
  "data_var p = (if p = At_item then ''item_data'' else ''field_data'')"

fun print_payload :: "string \<Rightarrow> place \<Rightarrow> payload \<Rightarrow> string" where
  "print_payload ind p P_number = emit_number ind (number_expr p)"
| "print_payload ind p P_bool = line ind (''buffer.push_back('' @ number_expr p @ '' ? 1 : 0);'')"
| "print_payload ind p P_string = emit_string ind (access_expr p)"
| "print_payload ind p P_model = emit_model ind (data_var p) (access_expr p)"

fun print_writer :: "string \<Rightarrow> string \<Rightarrow> writer \<Rightarrow> string" where
  "print_writer name ind (W_each tag p) =
     line ind (''if (!'' @ name @ ''.empty()) {'') @
     line ind (''  for (const auto& item : '' @ name @ '') {'') @
     line ind (''    uint32_t item_tag = '' @ show_nat (unat tag) @ '';'') @
     emit_tag (ind @ ''    '') ''item_tag'' @
     print_payload (ind @ ''    '') At_item p @
     line ind ''  }'' @
     line ind ''}'' @ nl"
| "print_writer name ind (W_packed tag k) =
     line ind (''if (!'' @ name @ ''.empty()) {'') @
     line ind (''  uint32_t packed_tag = '' @ show_int (sint tag) @ '';'') @
     emit_tag (ind @ ''  '') ''packed_tag'' @ nl @
     line ind ''  std::vector<uint8_t> packed_data;'' @
     line ind (''  for (const auto& item : '' @ name @ '') {'') @
     emit_packed_item ind k @
     line ind ''  }'' @ nl @
     line ind ''  uint64_t length = packed_data.size();'' @
     emit_write_varint (ind @ ''  '') ''buffer'' ''length'' @
     line ind ''  buffer.insert(buffer.end(), packed_data.begin(), packed_data.end());'' @
     line ind ''}'' @ nl"
| "print_writer name ind (W_optional tag p) =
     line ind (''if ('' @ name @ ''.has_value()) {'') @
     line ind (''  uint32_t field_tag = '' @ show_nat (unat tag) @ '';'') @
     emit_tag (ind @ ''  '') ''field_tag'' @
     print_payload (ind @ ''  '') (At_optional name) p @
     line ind ''}'' @ nl"
| "print_writer name ind (W_plain tag p) =
     line ind ''{'' @
     line ind (''  uint32_t field_tag = '' @ show_nat (unat tag) @ '';'') @
     emit_tag (ind @ ''  '') ''field_tag'' @
     print_payload (ind @ ''  '') (At_member name) p @
     line ind ''}'' @ nl"

fun print_store :: "string \<Rightarrow> string \<Rightarrow> store_mode \<Rightarrow> string \<Rightarrow> string" where
  "print_store name ind M_push t = line ind (''  '' @ name @ ''.push_back(static_cast<'' @ t @ ''>(value));'')"
| "print_store name ind m t = line ind (''  '' @ name @ '' = static_cast<'' @ t @ ''>(value);'')"

fun print_string_store :: "string \<Rightarrow> string \<Rightarrow> store_mode \<Rightarrow> string" where
  "print_string_store name ind M_push =
     line ind ''  std::string str(reinterpret_cast<const char*>(&data[pos]), length);'' @
     line ind (''  '' @ name @ ''.push_back(std::move(str));'')"
| "print_string_store name ind M_optional =
     line ind (''  '' @ name @ '' = std::string(reinterpret_cast<const char*>(&data[pos]), length);'')"
| "print_string_store name ind M_assign =
     line ind (''  '' @ name @ ''.assign(reinterpret_cast<const char*>(&data[pos]), length);'')"

fun print_model_store :: "string \<Rightarrow> string \<Rightarrow> store_mode \<Rightarrow> string \<Rightarrow> string" where
  "print_model_store name ind M_push t =
     line ind (''  '' @ t @ '' item;'') @ emit_item_data ind @
     line ind ''  if (!item.deserialize(item_data)) return false;'' @
     line ind (''  '' @ name @ ''.push_back(std::move(item));'')"
| "print_model_store name ind M_optional t =
     line ind (''  '' @ t @ '' value;'') @ emit_item_data ind @
     line ind ''  if (!value.deserialize(item_data)) return false;'' @
     line ind (''  '' @ name @ '' = std::move(value);'')"
| "print_model_store name ind M_assign t =
     emit_item_data ind @
     line ind (''  if (!'' @ name @ ''.deserialize(item_data)) return false;'')"

fun print_read :: "string \<Rightarrow> string \<Rightarrow> store_mode \<Rightarrow> reader \<Rightarrow> string" where
  "print_read name ind m (R_number t) =
     line ind ''  uint64_t value = 0;'' @ emit_read_varint (ind @ ''  '') ''value'' @ print_store name ind m t"
| "print_read name ind m R_string =
     line ind ''  uint64_t length = 0;'' @ emit_read_varint (ind @ ''  '') ''length'' @
     print_string_store name ind m @ line ind ''  pos += length;''"
| "print_read name ind m (R_model t) =
     line ind ''  uint64_t length = 0;'' @ emit_read_varint (ind @ ''  '') ''length'' @
     print_model_store name ind m t @ line ind ''  pos += length;''"

definition print_reader :: "int \<Rightarrow> string \<Rightarrow> string \<Rightarrow> store_mode \<Rightarrow> reader \<Rightarrow> string" where
  "print_reader number name ind m r =
     line ind (''case '' @ show_int number @ '': {'') @ print_read name ind m r @
     line ind ''  break;'' @ line ind ''}''"

lemma line_append: "line (ind @ i) s = line ind (i @ s)"
  by (simp add: line_def)

lemma serializer_text:
  "generate_field_serializer s f ind = print_writer (fd_name f) ind (writer_of s f)"
  by (cases "fd_type f")
    (simp_all add: generate_field_serializer_def writer_of_def repeated_serializer_def
      item_serializer_def packed_serializer_def optional_serializer_def plain_serializer_def
      item_payload_def plain_payload_def data_var_def line_append)

lemma deserializer_text:
  "generate_field_deserializer s f ind = print_reader (fd_number f) (fd_name f) ind (mode_of f) (reader_of s f)"
  by (cases "fd_type f")
    (simp_all add: generate_field_deserializer_def reader_of_def mode_of_def print_reader_def
      string_deserializer_def number_deserializer_def emit_store_number_def model_deserializer_def)


section \<open>Objects\<close>

text \<open>
  An object of a generated class: one slot per field, in order. A \<^verbatim>\<open>std::string\<close> is its bytes,
  \<open>V_int\<close> a value of an integer, \<^verbatim>\<open>bool\<close> or enumeration type, the floating-point values are their
  bit patterns, and \<open>V_indet\<close> is the content of a member that was never initialised.
\<close>

datatype cval =
    V_int int
  | V_float "32 word"
  | V_double "64 word"
  | V_str "byte list"
  | V_obj "slot list"
  | V_indet
and slot = One cval | Opt "cval option" | Rep "cval list"

section \<open>Serialization\<close>

text \<open>\<^verbatim>\<open>static_cast<uint64_t>\<close> of a member; reading an indeterminate value is undefined.\<close>

fun number_of :: "cval \<Rightarrow> 64 word exec" where
  "number_of (V_int i) = Ret (to_u64 i)"
| "number_of (V_float p) = float_to_u64 8 23 (unat p)"
| "number_of (V_double p) = float_to_u64 11 52 (unat p)"
| "number_of v = Undef"

fun little_endian :: "nat \<Rightarrow> nat \<Rightarrow> byte list" where
  "little_endian 0 n = []"
| "little_endian (Suc k) n = of_nat (n mod 256) # little_endian k (n div 256)"

text \<open>What an item adds to \<^verbatim>\<open>packed_data\<close>: nothing for the kinds without a branch.\<close>

fun packed_item :: "primitive_type_kind \<Rightarrow> cval \<Rightarrow> byte list exec" where
  "packed_item k v =
     (if is_integer_kind k then bindE (number_of v) (\<lambda>w. Ret (write_varint [] w))
      else if k = K_FLOAT then (case v of V_float p \<Rightarrow> Ret (little_endian 4 (unat p)) | _ \<Rightarrow> Undef)
      else if k = K_DOUBLE then (case v of V_double p \<Rightarrow> Ret (little_endian 8 (unat p)) | _ \<Rightarrow> Undef)
      else Ret [])"

fun packed_items :: "primitive_type_kind \<Rightarrow> cval list \<Rightarrow> byte list exec" where
  "packed_items k [] = Ret []"
| "packed_items k (v # vs) = bindE (packed_item k v) (\<lambda>a. bindE (packed_items k vs) (\<lambda>b. Ret (a @ b)))"

definition with_length :: "byte list \<Rightarrow> byte list" where
  "with_length d = write_varint [] (of_nat (length d)) @ d"

text \<open>
  The bytes the emitted statements append to \<^verbatim>\<open>buffer\<close>: for a value, for the items of a vector, for
  a field, and for all fields of an object.
\<close>

fun ser_value :: "schema \<Rightarrow> ast_type \<Rightarrow> payload \<Rightarrow> cval \<Rightarrow> byte list exec"
  and ser_items :: "schema \<Rightarrow> ast_type \<Rightarrow> 32 word \<Rightarrow> payload \<Rightarrow> cval list \<Rightarrow> byte list exec"
  and ser_field :: "schema \<Rightarrow> field \<Rightarrow> slot \<Rightarrow> byte list exec"
  and ser_slots :: "schema \<Rightarrow> field list \<Rightarrow> slot list \<Rightarrow> byte list exec" where
  "ser_value s t P_number v = bindE (number_of v) (\<lambda>w. Ret (write_varint [] w))"
| "ser_value s t P_bool v = (case v of V_int i \<Rightarrow> Ret [if i \<noteq> 0 then 1 else 0] | _ \<Rightarrow> Undef)"
| "ser_value s t P_string v = (case v of V_str b \<Rightarrow> Ret (with_length b) | _ \<Rightarrow> Undef)"
| "ser_value s t P_model (V_obj xs) =
     (case find_model s (get_name t) of
        None \<Rightarrow> Undef
      | Some m \<Rightarrow> bindE (ser_slots s (md_fields m) xs) (\<lambda>d. Ret (with_length d)))"
| "ser_value s t P_model v = Undef"
| "ser_items s t tag p [] = Ret []"
| "ser_items s t tag p (v # vs) =
     bindE (ser_value s t p v) (\<lambda>a.
     bindE (ser_items s t tag p vs) (\<lambda>b. Ret (write_varint [] (ucast tag) @ a @ b)))"
| "ser_field s f (One v) =
     (case writer_of s f of
        W_plain tag p \<Rightarrow> ser_items s (fd_type f) tag p [v]
      | _ \<Rightarrow> Undef)"
| "ser_field s f (Opt None) =
     (case writer_of s f of W_optional tag p \<Rightarrow> Ret [] | _ \<Rightarrow> Undef)"
| "ser_field s f (Opt (Some v)) =
     (case writer_of s f of
        W_optional tag p \<Rightarrow> ser_items s (fd_type f) tag p [v]
      | _ \<Rightarrow> Undef)"
| "ser_field s f (Rep vs) =
     (case writer_of s f of
        W_each tag p \<Rightarrow> ser_items s (fd_type f) tag p vs
      | W_packed tag k \<Rightarrow>
          if vs = [] then Ret []
          else bindE (packed_items k vs) (\<lambda>d. Ret (write_varint [] (ucast tag) @ with_length d))
      | _ \<Rightarrow> Undef)"
| "ser_slots s [] [] = Ret []"
| "ser_slots s (f # fs) (x # xs) =
     bindE (ser_field s f x) (\<lambda>a. bindE (ser_slots s fs xs) (\<lambda>b. Ret (a @ b)))"
| "ser_slots s [] (x # xs) = Undef"
| "ser_slots s (f # fs) [] = Undef"

definition serialize :: "schema \<Rightarrow> model_decl \<Rightarrow> slot list \<Rightarrow> byte list exec" where
  "serialize s m obj = ser_slots s (md_fields m) obj"

section \<open>Names\<close>

text \<open>
  The names a schema puts into the generated text. A keyword or a dotted namespace does not compile
  there, and neither does a second member of the same name. A member with the name of a local
  variable of the emitted methods is hidden by it; such schemas are outside the model.
\<close>

definition cpp_keywords :: "string list" where
  "cpp_keywords =
     [''alignas'', ''alignof'', ''and'', ''and_eq'', ''asm'', ''auto'', ''bitand'', ''bitor'',
      ''bool'', ''break'', ''case'', ''catch'', ''char'', ''char8_t'', ''char16_t'', ''char32_t'',
      ''class'', ''compl'', ''concept'', ''const'', ''consteval'', ''constexpr'', ''constinit'',
      ''const_cast'', ''continue'', ''co_await'', ''co_return'', ''co_yield'', ''decltype'',
      ''default'', ''delete'', ''do'', ''double'', ''dynamic_cast'', ''else'', ''enum'', ''explicit'',
      ''export'', ''extern'', ''false'', ''float'', ''for'', ''friend'', ''goto'', ''if'', ''inline'',
      ''int'', ''long'', ''mutable'', ''namespace'', ''new'', ''noexcept'', ''not'', ''not_eq'',
      ''nullptr'', ''operator'', ''or'', ''or_eq'', ''private'', ''protected'', ''public'',
      ''register'', ''reinterpret_cast'', ''requires'', ''return'', ''short'', ''signed'', ''sizeof'',
      ''static'', ''static_assert'', ''static_cast'', ''struct'', ''switch'', ''template'', ''this'',
      ''thread_local'', ''throw'', ''true'', ''try'', ''typedef'', ''typeid'', ''typename'', ''union'',
      ''unsigned'', ''using'', ''virtual'', ''void'', ''volatile'', ''wchar_t'', ''while'', ''xor'',
      ''xor_eq'']"

definition used_names :: "string list" where
  "used_names =
     [''std'', ''size_t'', ''int8_t'', ''int16_t'', ''int32_t'', ''int64_t'', ''uint8_t'',
      ''uint16_t'', ''uint32_t'', ''uint64_t'']"

definition method_names :: "string list" where
  "method_names =
     [''buffer'', ''val'', ''item'', ''item_tag'', ''packed_tag'', ''packed_data'', ''length'',
      ''item_data'', ''field_tag'', ''field_data'', ''fval'', ''dval'', ''i'', ''data'', ''pos'',
      ''tag'', ''shift'', ''byte'', ''field_number'', ''wire_type'', ''value'', ''str'', ''serialize'',
      ''deserialize'']"

definition plain_name :: "string \<Rightarrow> bool" where
  "plain_name n \<longleftrightarrow> CHR ''.'' \<notin> set n \<and> n \<notin> set cpp_keywords \<and> n \<notin> set used_names"

fun decl_names_ok :: "string list \<Rightarrow> decl \<Rightarrow> bool" where
  "decl_names_ok types (EnumDecl e) = (plain_name (en_name e) \<and> list_all plain_name (map ev_name (en_values e)))"
| "decl_names_ok types (ModelDecl m) =
     (plain_name (md_name m) \<and> distinct (map fd_name (md_fields m)) \<and>
      list_all (\<lambda>n. plain_name n \<and> n \<notin> set method_names \<and> n \<notin> set types) (map fd_name (md_fields m)))"

definition names_ok :: "schema \<Rightarrow> bool" where
  "names_ok s \<longleftrightarrow> plain_name (sc_namespace s) \<and>
     list_all (decl_names_ok (map decl_name (sc_declarations s))) (sc_declarations s)"

section \<open>Default construction\<close>

text \<open>
  The classes in scope while the compiler reads the generated header, with the object their default
  constructor makes. A class must be complete where a member or a \<^verbatim>\<open>std::optional\<close> of it is declared; a
  \<^verbatim>\<open>std::vector\<close> may have the class itself as its element type. \<open>None\<close>: the header does not compile.
\<close>

datatype class_info = Enum_class | Model_class "slot list"

definition default_value :: "primitive_type_kind \<Rightarrow> cval" where
  "default_value k =
     (case k of K_STRING \<Rightarrow> V_str [] | K_FLOAT \<Rightarrow> V_float 0 | K_DOUBLE \<Rightarrow> V_double 0 | _ \<Rightarrow> V_int 0)"

definition default_slot :: "(string \<rightharpoonup> class_info) \<Rightarrow> string \<Rightarrow> field \<Rightarrow> slot option" where
  "default_slot env self f =
     (case fd_type f of
        PrimitiveType k l \<Rightarrow>
          Some (if is_repeated f then Rep [] else if is_optional f then Opt None else One (default_value k))
      | UserType n l \<Rightarrow>
          if is_repeated f then (if env n \<noteq> None \<or> n = self then Some (Rep []) else None)
          else (case env n of
                  None \<Rightarrow> None
                | Some c \<Rightarrow>
                    if is_optional f then Some (Opt None)
                    else Some (One (case c of Enum_class \<Rightarrow> V_indet | Model_class xs \<Rightarrow> V_obj xs))))"

fun collect :: "'a option list \<Rightarrow> 'a list option" where
  "collect [] = Some []"
| "collect (None # xs) = None"
| "collect (Some x # xs) = map_option ((#) x) (collect xs)"

fun class_env :: "decl list \<Rightarrow> (string \<rightharpoonup> class_info) \<Rightarrow> (string \<rightharpoonup> class_info) option" where
  "class_env [] env = Some env"
| "class_env (EnumDecl e # ds) env = class_env ds (env(en_name e \<mapsto> Enum_class))"
| "class_env (ModelDecl m # ds) env =
     (case collect (map (default_slot env (md_name m)) (md_fields m)) of
        None \<Rightarrow> None
      | Some xs \<Rightarrow> class_env ds (env(md_name m \<mapsto> Model_class xs)))"

text \<open>
  What the emitted code runs in: the schema it was generated from, the classes of the compiled
  header, and whether the standard library checks the index of \<^verbatim>\<open>operator[]\<close>.
\<close>

record runtime =
  rt_schema :: schema
  rt_classes :: "string \<rightharpoonup> class_info"
  rt_checked :: bool

definition compile_header :: "bool \<Rightarrow> schema \<Rightarrow> runtime option" where
  "compile_header checked s =
     (if names_ok s
      then map_option (\<lambda>env. \<lparr>rt_schema = s, rt_classes = env, rt_checked = checked\<rparr>)
             (class_env (sc_declarations s) Map.empty)
      else None)"

definition default_object :: "runtime \<Rightarrow> string \<Rightarrow> slot list option" where
  "default_object rt n = (case rt_classes rt n of Some (Model_class xs) \<Rightarrow> Some xs | _ \<Rightarrow> None)"

section \<open>Deserialization\<close>

text \<open>\<^verbatim>\<open>static_cast\<close> of the number that was read to the type of the member.\<close>

fun store_cast :: "ast_type \<Rightarrow> 64 word \<Rightarrow> cval" where
  "store_cast (PrimitiveType K_FLOAT l) w = V_float (of_nat (float_from_u64 8 23 w))"
| "store_cast (PrimitiveType K_DOUBLE l) w = V_double (of_nat (float_from_u64 11 52 w))"
| "store_cast (PrimitiveType k l) w = V_int (from_u64 k w)"
| "store_cast (UserType n l) w = V_int (from_u64 K_INT32 w)"

fun store :: "store_mode \<Rightarrow> cval \<Rightarrow> slot \<Rightarrow> slot" where
  "store M_push v (Rep vs) = Rep (vs @ [v])"
| "store M_optional v x = Opt (Some v)"
| "store M_assign v x = One v"
| "store m v x = x"

text \<open>\<^verbatim>\<open>pos += length\<close> on \<^verbatim>\<open>size_t\<close>.\<close>

definition advance_pos :: "nat \<Rightarrow> nat \<Rightarrow> nat" where
  "advance_pos pos n = (pos + n) mod 2 ^ 64"

text \<open>The same on binary integers, for evaluation.\<close>

lemma advance_pos_code [code]:
  "advance_pos pos n = nat ((int pos + int n) mod 18446744073709551616)"
  by (simp add: advance_pos_def nat_mod_distrib nat_add_distrib)

text \<open>
  The body of a \<^verbatim>\<open>case\<close>. \<open>nested\<close> is \<^verbatim>\<open>deserialize\<close> of the class of a model member. The result is
  whether the method goes on, the position and the new content of the member. Taking the address of
  the element behind the last one is undefined when the index is checked.
\<close>

definition read_field ::
  "runtime \<Rightarrow> (field list \<Rightarrow> byte list \<Rightarrow> slot list \<Rightarrow> (bool \<times> slot list) exec) \<Rightarrow>
   field \<Rightarrow> byte list \<Rightarrow> nat \<Rightarrow> slot \<Rightarrow> (bool \<times> nat \<times> slot) exec" where
  "read_field rt nested f data pos x =
     (case reader_of (rt_schema rt) f of
        R_number t \<Rightarrow>
          bindE (read_varint data pos) (\<lambda>(w, p). Ret (True, p, store (mode_of f) (store_cast (fd_type f) w) x))
      | R_string \<Rightarrow>
          bindE (read_varint data pos) (\<lambda>(w, p).
            if p + unat w \<le> length data \<and> (p < length data \<or> \<not> rt_checked rt)
            then Ret (True, advance_pos p (unat w), store (mode_of f) (V_str (take (unat w) (drop p data))) x)
            else Undef)
      | R_model n \<Rightarrow>
          bindE (read_varint data pos) (\<lambda>(w, p).
            if p + unat w \<le> length data then
              (case (find_model (rt_schema rt) n,
                     if mode_of f = M_assign then (case x of One (V_obj xs) \<Rightarrow> Some xs | _ \<Rightarrow> None)
                     else default_object rt n) of
                 (Some m, Some start) \<Rightarrow>
                   bindE (nested (md_fields m) (take (unat w) (drop p data)) start) (\<lambda>(ok, xs).
                     if ok then Ret (True, advance_pos p (unat w), store (mode_of f) (V_obj xs) x)
                     else Ret (False, p, if mode_of f = M_assign then One (V_obj xs) else x))
               | _ \<Rightarrow> Undef)
            else Undef))"

function skip_varint :: "byte list \<Rightarrow> nat \<Rightarrow> nat" where
  "skip_varint data pos =
     (if pos < length data then
        if data ! pos AND 0x80 \<noteq> 0 then skip_varint data (pos + 1) else pos + 1
      else pos)"
  by pat_completeness auto
termination
  by (relation "measure (\<lambda>(data, pos). length data - pos)") auto

declare skip_varint.simps [simp del]

text \<open>The \<^verbatim>\<open>default\<close> branch.\<close>

definition skip_unknown :: "8 word \<Rightarrow> byte list \<Rightarrow> nat \<Rightarrow> nat exec" where
  "skip_unknown wire_type data pos =
     (if wire_type = 0 then Ret (skip_varint data pos)
      else if wire_type = 2 then
        bindE (read_varint data pos) (\<lambda>(w, p). Ret (advance_pos p (unat w)))
      else if wire_type = 1 then Ret (advance_pos pos 8)
      else if wire_type = 5 then Ret (advance_pos pos 4)
      else Ret pos)"

text \<open>The \<^verbatim>\<open>switch\<close>: the field whose label is the number.\<close>

fun field_index :: "field list \<Rightarrow> 32 word \<Rightarrow> nat option" where
  "field_index [] n = None"
| "field_index (f # fs) n =
     (if word_of_int (fd_number f) = n then Some 0 else map_option Suc (field_index fs n))"

text \<open>The loop of \<^verbatim>\<open>deserialize\<close>; \<open>fuel\<close> bounds the iterations and the nesting.\<close>

fun deser :: "nat \<Rightarrow> runtime \<Rightarrow> field list \<Rightarrow> byte list \<Rightarrow> nat \<Rightarrow> slot list \<Rightarrow> (bool \<times> slot list) exec" where
  "deser 0 rt fs data pos obj = Fuel"
| "deser (Suc fuel) rt fs data pos obj =
     (if pos < length data then
        if pos + 1 > length data then Ret (False, obj)
        else
          bindE (read_varint data pos) (\<lambda>(tag, pos1).
            let field_number = ucast (drop_bit 3 tag) :: 32 word;
                wire_type = ucast (tag AND 0x7) :: 8 word
            in case field_index fs field_number of
                 Some i \<Rightarrow>
                   bindE (read_field rt (\<lambda>fs' d o'. deser fuel rt fs' d 0 o') (fs ! i) data pos1 (obj ! i))
                     (\<lambda>(go, pos2, x).
                        if go then deser fuel rt fs data pos2 (obj[i := x])
                        else Ret (False, obj[i := x]))
               | None \<Rightarrow>
                   bindE (skip_unknown wire_type data pos1) (\<lambda>pos2. deser fuel rt fs data pos2 obj))
      else Ret (True, obj))"

declare deser.simps(2) [simp del]

definition deserialize :: "nat \<Rightarrow> runtime \<Rightarrow> model_decl \<Rightarrow> byte list \<Rightarrow> slot list \<Rightarrow> (bool \<times> slot list) exec" where
  "deserialize fuel rt m data obj = deser fuel rt (md_fields m) data 0 obj"

end
