(* ===== verification/Runtime_Spec.thy ===== *)
theory Runtime_Spec
  imports Runtime Codegen_Spec
begin

unbundle bit_operations_syntax

text \<open>
  What the emitted classes promise: objects survive serialization and deserialization, unknown fields
  are skipped, and where the emitted code fails. The relation \<open>runs_to\<close> states that the reading loop
  passes a stretch of its input; the locale \<open>stretch\<close> is the contract of one kind of stretch.
\<close>

section \<open>Values the format can carry\<close>

text \<open>
  The objects of a class whose floating-point members are whole numbers, without items in packed vectors.
\<close>

fun value_ok :: "schema \<Rightarrow> ast_type \<Rightarrow> cval \<Rightarrow> bool"
  and slot_ok :: "schema \<Rightarrow> field \<Rightarrow> slot \<Rightarrow> bool"
  and slots_ok :: "schema \<Rightarrow> field list \<Rightarrow> slot list \<Rightarrow> bool" where
  "value_ok s (PrimitiveType k l) (V_int i) \<longleftrightarrow> kind_range k i"
| "value_ok s (PrimitiveType k l) (V_str b) \<longleftrightarrow> k = K_STRING"
| "value_ok s (PrimitiveType k l) (V_float p) \<longleftrightarrow> k = K_FLOAT \<and> whole_float 8 23 (unat p)"
| "value_ok s (PrimitiveType k l) (V_double p) \<longleftrightarrow> k = K_DOUBLE \<and> whole_float 11 52 (unat p)"
| "value_ok s (UserType n l) (V_int i) \<longleftrightarrow> is_enum_type s n \<and> kind_range K_INT32 i"
| "value_ok s (UserType n l) (V_obj xs) \<longleftrightarrow>
     \<not> is_enum_type s n \<and> (case find_model s n of None \<Rightarrow> False | Some m \<Rightarrow> slots_ok s (md_fields m) xs)"
| "value_ok s t v \<longleftrightarrow> False"
| "slot_ok s f (One v) \<longleftrightarrow> mode_of f = M_assign \<and> value_ok s (fd_type f) v"
| "slot_ok s f (Opt None) \<longleftrightarrow> mode_of f = M_optional"
| "slot_ok s f (Opt (Some v)) \<longleftrightarrow> mode_of f = M_optional \<and> value_ok s (fd_type f) v"
| "slot_ok s f (Rep vs) \<longleftrightarrow>
     mode_of f = M_push \<and> (vs = [] \<or> \<not> is_packed f) \<and> list_all (value_ok s (fd_type f)) vs"
| "slots_ok s [] [] \<longleftrightarrow> True"
| "slots_ok s (f # fs) (x # xs) \<longleftrightarrow> slot_ok s f x \<and> slots_ok s fs xs"
| "slots_ok s [] (x # xs) \<longleftrightarrow> False"
| "slots_ok s (f # fs) [] \<longleftrightarrow> False"

text \<open>Default-constructed objects.\<close>

fun fresh_value :: "schema \<Rightarrow> ast_type \<Rightarrow> cval \<Rightarrow> bool"
  and fresh_slot :: "schema \<Rightarrow> field \<Rightarrow> slot \<Rightarrow> bool"
  and fresh_slots :: "schema \<Rightarrow> field list \<Rightarrow> slot list \<Rightarrow> bool" where
  "fresh_value s t (V_obj xs) \<longleftrightarrow>
     (case t of
        PrimitiveType k l \<Rightarrow> False
      | UserType n l \<Rightarrow>
          \<not> is_enum_type s n \<and> (case find_model s n of None \<Rightarrow> False | Some m \<Rightarrow> fresh_slots s (md_fields m) xs))"
| "fresh_value s t v \<longleftrightarrow>
     (case t of
        PrimitiveType k l \<Rightarrow> v = default_value k
      | UserType n l \<Rightarrow> is_enum_type s n \<and> v = V_indet)"
| "fresh_slot s f (One v) \<longleftrightarrow> mode_of f = M_assign \<and> fresh_value s (fd_type f) v"
| "fresh_slot s f (Opt v) \<longleftrightarrow> mode_of f = M_optional \<and> v = None"
| "fresh_slot s f (Rep vs) \<longleftrightarrow> mode_of f = M_push \<and> vs = []"
| "fresh_slots s [] [] \<longleftrightarrow> True"
| "fresh_slots s (f # fs) (x # xs) \<longleftrightarrow> fresh_slot s f x \<and> fresh_slots s fs xs"
| "fresh_slots s [] (x # xs) \<longleftrightarrow> False"
| "fresh_slots s (f # fs) [] \<longleftrightarrow> False"

section \<open>Runs of the reading loop\<close>

definition runs_to ::
  "runtime \<Rightarrow> field list \<Rightarrow> byte list \<Rightarrow> nat \<Rightarrow> slot list \<Rightarrow> nat \<Rightarrow> slot list \<Rightarrow> bool" where
  "runs_to rt fs data pos obj pos' obj' \<longleftrightarrow>
     (\<forall>fuel. length data - pos < fuel \<longrightarrow>
        (\<exists>fuel'. length data - pos' < fuel' \<and>
           deser fuel rt fs data pos obj = deser fuel' rt fs data pos' obj'))"

lemma runs_to_refl [simp]: "runs_to rt fs data pos obj pos obj"
  by (auto simp: runs_to_def)

lemma runs_to_trans:
  "runs_to rt fs data p x q y \<Longrightarrow> runs_to rt fs data q y r z \<Longrightarrow> runs_to rt fs data p x r z"
  unfolding runs_to_def by metis

lemma runs_to_end:
  assumes "runs_to rt fs data pos obj (length data) obj'" "length data - pos < fuel"
  shows "deser fuel rt fs data pos obj = Ret (True, obj')"
proof -
  obtain fuel' where "0 < fuel'" "deser fuel rt fs data pos obj = deser fuel' rt fs data (length data) obj'"
    using assms by (auto simp: runs_to_def)
  then show ?thesis by (cases fuel') (simp_all add: deser.simps)
qed

text \<open>One iteration that passes the test of the loop.\<close>

lemma runs_to_step:
  assumes "pos < length data" "pos < pos'" "pos' \<le> length data"
    and step: "\<And>n. length data - Suc pos \<le> n \<Longrightarrow>
      deser (Suc n) rt fs data pos obj = deser n rt fs data pos' obj'"
  shows "runs_to rt fs data pos obj pos' obj'"
  unfolding runs_to_def
proof (intro allI impI)
  fix fuel assume "length data - pos < fuel"
  then obtain n where n: "fuel = Suc n" "length data - pos \<le> n" by (cases fuel) auto
  then have "deser fuel rt fs data pos obj = deser n rt fs data pos' obj'" using step by simp
  moreover have "length data - pos' < n" using n assms(1-3) by linarith
  ultimately show "\<exists>fuel'. length data - pos' < fuel' \<and>
      deser fuel rt fs data pos obj = deser fuel' rt fs data pos' obj'" by blast
qed

section \<open>Tags\<close>

text \<open>The bytes of a tag, and what the loop gets from them.\<close>

definition tag_bytes :: "32 word \<Rightarrow> byte list" where
  "tag_bytes tag = varint (unat tag)"

lemma unat_tag: "unat (ucast tag :: 64 word) = unat tag" for tag :: "32 word"
  using unsigned_less [of tag, where ?'a = nat] by (simp add: unat_ucast_eq)

lemma write_tag: "write_varint [] (ucast tag) = tag_bytes tag"
  by (simp add: write_varint_format tag_bytes_def unat_tag)

lemma read_tag:
  "read_varint (pre @ tag_bytes tag @ rest) (length pre) =
     Ret (ucast tag, length pre + length (tag_bytes tag))"
proof -
  have "unat tag < 2 ^ 64" using unsigned_less [of tag, where ?'a = nat] by simp
  then show ?thesis unfolding tag_bytes_def using read_varint_at by simp
qed

lemma tag_parts:
  fixes tag :: "32 word"
  shows "ucast (drop_bit 3 (ucast tag :: 64 word)) = drop_bit 3 tag"
    and "ucast ((ucast tag :: 64 word) AND 0x7) = (ucast (tag AND 0x7) :: 8 word)"
proof -
  have "unat tag < 2 ^ 32" using unsigned_less [of tag, where ?'a = nat] by simp
  then have "unat tag div 8 < 2 ^ 32" by simp
  then have "unat (ucast (drop_bit 3 (ucast tag :: 64 word)) :: 32 word) = unat tag div 8"
    by (simp only: unat_ucast_eq unat_drop_bit unat_tag) simp
  then show "ucast (drop_bit 3 (ucast tag :: 64 word)) = drop_bit 3 tag"
    by (intro word_unat_eq_iff [THEN iffD2]) (simp only: unat_drop_bit, simp)
  have "unat ((ucast tag :: 64 word) AND 0x7) = unat tag mod 8"
    using unat_and_mask [of "ucast tag :: 64 word" 3] unat_tag [of tag] by (simp only: mask_eq_exp_minus_1) simp
  moreover have "unat (tag AND 0x7) = unat tag mod 8"
    using unat_and_mask [of tag 3] by (simp only: mask_eq_exp_minus_1) simp
  ultimately show "ucast ((ucast tag :: 64 word) AND 0x7) = (ucast (tag AND 0x7) :: 8 word)"
    by (intro word_unat_eq_iff [THEN iffD2]) (simp only: unat_ucast_eq)
qed

section \<open>The switch\<close>

text \<open>What the validator guarantees of the fields of a model.\<close>

definition fields_ok :: "field list \<Rightarrow> bool" where
  "fields_ok fs \<longleftrightarrow> distinct (map fd_number fs) \<and> (\<forall>f \<in> set fs. valid_number (fd_number f))"

lemma valid_number_word:
  "valid_number n \<Longrightarrow> uint (word_of_int n :: 32 word) = n"
  by (intro uint_roundtrip) (simp_all add: valid_number_def)

lemma field_index_nth:
  "fields_ok fs \<Longrightarrow> i < length fs \<Longrightarrow> field_index fs (word_of_int (fd_number (fs ! i))) = Some i"
proof (induction fs arbitrary: i)
  case (Cons f fs)
  show ?case
  proof (cases i)
    case (Suc j)
    have in_fs: "fs ! j \<in> set fs" using Cons.prems Suc by simp
    then have "fd_number f \<noteq> fd_number (fs ! j)" using Cons.prems by (auto simp: fields_ok_def)
    moreover have "valid_number (fd_number f)" "valid_number (fd_number (fs ! j))"
      using Cons.prems in_fs by (auto simp: fields_ok_def)
    ultimately have "(word_of_int (fd_number f) :: 32 word) \<noteq> word_of_int (fd_number (fs ! j))"
      by (metis valid_number_word)
    with Cons Suc show ?thesis by (auto simp: fields_ok_def)
  qed simp
qed simp

lemma field_index_unknown:
  "field_index fs n = None \<longleftrightarrow> (\<forall>f \<in> set fs. word_of_int (fd_number f) \<noteq> n)"
  by (induction fs) auto

lemma number_tag_number:
  assumes "valid_number n" "unat w < 8"
  shows "drop_bit 3 (number_tag n w) = word_of_int n"
proof -
  have "unat (number_tag n w) = 8 * nat n + unat w"
    using assms by (intro number_tag_value) (simp_all add: valid_number_def)
  then have "unat (drop_bit 3 (number_tag n w)) = nat n"
    using assms(2) by (simp only: unat_drop_bit) simp
  moreover have "unat (word_of_int n :: 32 word) = nat n"
    using assms(1) by (simp add: unat_of_int_eq valid_number_def nat_less_iff)
  ultimately show ?thesis by (simp only: word_unat_eq_iff)
qed

lemma field_tag_number: "valid_number (fd_number f) \<Longrightarrow> drop_bit 3 (field_tag f) = word_of_int (fd_number f)"
  unfolding field_tag_def using wire_type_range [of "fd_type f" f]
  by (intro number_tag_number) (simp_all add: unat_ucast_eq)

lemma deser_at_field:
  assumes fs: "fields_ok fs" "i < length fs" and tag: "drop_bit 3 tag = word_of_int (fd_number (fs ! i))"
    and rd: "\<And>n. length b \<le> n \<Longrightarrow>
      read_field rt (\<lambda>fs' d o'. deser n rt fs' d 0 o') (fs ! i) (pre @ tag_bytes tag @ b @ rest)
        (length (pre @ tag_bytes tag)) (obj ! i) =
      Ret (True, length (pre @ tag_bytes tag @ b), x)"
  shows "runs_to rt fs (pre @ tag_bytes tag @ b @ rest) (length pre) obj
    (length (pre @ tag_bytes tag @ b)) (obj[i := x])"
proof (rule runs_to_step)
  have "tag_bytes tag \<noteq> []" by (simp add: tag_bytes_def)
  then have len: "0 < length (tag_bytes tag)" by simp
  then show "length pre < length (pre @ tag_bytes tag @ b @ rest)"
    "length pre < length (pre @ tag_bytes tag @ b)" by simp_all
  show "length (pre @ tag_bytes tag @ b) \<le> length (pre @ tag_bytes tag @ b @ rest)" by simp
  fix n assume "length (pre @ tag_bytes tag @ b @ rest) - Suc (length pre) \<le> n"
  then have "length b \<le> n" using len unfolding length_append by linarith
  from rd [OF this] show "deser (Suc n) rt fs (pre @ tag_bytes tag @ b @ rest) (length pre) obj =
      deser n rt fs (pre @ tag_bytes tag @ b @ rest) (length (pre @ tag_bytes tag @ b)) (obj[i := x])"
    using len by (simp add: deser.simps(2) read_tag tag_parts tag field_index_nth [OF fs])
qed

section \<open>Reading back a value\<close>

definition payload_for :: "schema \<Rightarrow> ast_type \<Rightarrow> payload \<Rightarrow> bool" where
  "payload_for s t p \<longleftrightarrow> p = item_payload s t \<or> p = plain_payload s t"

lemma varint_small: "n < 128 \<Longrightarrow> varint n = [of_nat n]"
  by (subst varint.simps) simp

lemma store_cast_to_u64: "value_ok s t (V_int i) \<Longrightarrow> store_cast t (to_u64 i) = V_int i"
proof (cases t)
  case (PrimitiveType k l)
  assume "value_ok s t (V_int i)"
  with PrimitiveType from_to_u64 [of k i] show ?thesis by (cases k) simp_all
next
  case (UserType n l)
  assume "value_ok s t (V_int i)"
  with UserType from_to_u64 [of K_INT32 i] show ?thesis by simp
qed

lemma store_cast_whole:
  "value_ok s t (V_float p) \<Longrightarrow> \<exists>w. number_of (V_float p) = Ret w \<and> store_cast t w = V_float p"
  "value_ok s t (V_double q) \<Longrightarrow> \<exists>w. number_of (V_double q) = Ret w \<and> store_cast t w = V_double q"
proof -
  show "\<exists>w. number_of (V_float p) = Ret w \<and> store_cast t w = V_float p" if "value_ok s t (V_float p)"
    using that whole_float_roundtrip [of 8 23 "unat p"] by (cases t) (auto simp: of_nat_unat)
  show "\<exists>w. number_of (V_double q) = Ret w \<and> store_cast t w = V_double q" if "value_ok s t (V_double q)"
    using that whole_float_roundtrip [of 11 52 "unat q"] by (cases t) (auto simp: of_nat_unat)
qed

text \<open>The values that are written as a number: all but strings and models.\<close>

definition numeric :: "cval \<Rightarrow> bool" where
  "numeric v \<longleftrightarrow> (\<forall>b. v \<noteq> V_str b) \<and> (\<forall>xs. v \<noteq> V_obj xs)"

lemma ser_bool: "i = 0 \<or> i = 1 \<Longrightarrow> ser_value s t P_bool (V_int i) = Ret (varint (unat (to_u64 i)))"
  by (auto simp: to_u64_def varint_small)

lemma numeric_number:
  assumes "value_ok s t v" "numeric v"
  shows "\<exists>w. number_of v = Ret w \<and> store_cast t w = v"
proof (cases v)
  case (V_int i)
  with assms(1) store_cast_to_u64 [of s t i] show ?thesis by simp
next
  case (V_float p)
  with assms(1) store_cast_whole(1) [of s t p] show ?thesis by (simp only:)
next
  case (V_double q)
  with assms(1) store_cast_whole(2) [of s t q] show ?thesis by (simp only:)
next
  case V_indet
  with assms(1) show ?thesis by (cases t) simp_all
qed (use assms(2) in \<open>simp_all add: numeric_def\<close>)

lemma numeric_payload:
  assumes "value_ok s t v" "numeric v" "payload_for s t p"
  shows "p = P_number \<or> p = P_bool \<and> (\<exists>i. v = V_int i \<and> (i = 0 \<or> i = 1))"
  using assms
  by (cases t; cases v)
    (auto simp: numeric_def payload_for_def item_payload_def plain_payload_def split: if_splits)

lemma ser_number:
  assumes "value_ok s t v" "numeric v" "payload_for s t p"
  shows "\<exists>w. ser_value s t p v = Ret (varint (unat w)) \<and> store_cast t w = v"
proof (cases "p = P_number")
  case True
  with numeric_number [OF assms(1,2)] show ?thesis by (auto simp: write_varint_format)
next
  case False
  then obtain i where i: "p = P_bool" "v = V_int i" "i = 0 \<or> i = 1" using numeric_payload [OF assms] by blast
  have "ser_value s t p v = Ret (varint (unat (to_u64 i)))" unfolding i(1,2) by (rule ser_bool [OF i(3)])
  moreover have "store_cast t (to_u64 i) = v" using assms(1) store_cast_to_u64 [of s t i] by (simp add: i(2))
  ultimately show ?thesis by blast
qed

lemma numeric_reader:
  assumes "value_ok s (fd_type f) v" "numeric v"
  shows "\<exists>c. reader_of s f = R_number c"
  using assms by (cases "fd_type f"; cases v) (auto simp: numeric_def reader_of_def)

text \<open>Where \<^verbatim>\<open>deserialize\<close> of a model member starts.\<close>

definition starts_at :: "runtime \<Rightarrow> field \<Rightarrow> slot \<Rightarrow> slot list \<Rightarrow> bool" where
  "starts_at rt f x start \<longleftrightarrow>
     (if mode_of f = M_assign then x = One (V_obj start)
      else default_object rt (get_name (fd_type f)) = Some start)"

lemma with_length_format: "length d < 2 ^ 64 \<Longrightarrow> with_length d = varint (length d) @ d"
  by (simp add: with_length_def write_varint_format unat_of_nat_64)

lemma value_ok_cases:
  assumes "value_ok s t v"
  obtains (number) "numeric v"
  | (string) l b where "t = PrimitiveType K_STRING l" "v = V_str b"
  | (model) n l m xs where "t = UserType n l" "\<not> is_enum_type s n" "find_model s n = Some m"
      "v = V_obj xs" "slots_ok s (md_fields m) xs"
  using assms by (cases t; cases v) (auto simp: numeric_def split: option.splits)

text \<open>
  The bytes of a value, behind \<open>pre\<close>, are read back into the member. A model is read back if its own
  bytes are, from the object where \<^verbatim>\<open>deserialize\<close> starts.
\<close>

lemma read_value:
  assumes ok: "value_ok s (fd_type f) v" and s: "s = rt_schema rt" and p: "payload_for s (fd_type f) p"
    and b: "ser_value s (fd_type f) p v = Ret b"
    and size: "length (pre @ b @ rest) < 2 ^ 64" and lax: "\<not> rt_checked rt"
    and model: "\<And>xs m d. v = V_obj xs \<Longrightarrow> find_model s (get_name (fd_type f)) = Some m \<Longrightarrow>
      ser_slots s (md_fields m) xs = Ret d \<Longrightarrow> length d < length b \<Longrightarrow>
      \<exists>start. starts_at rt f x start \<and> (\<forall>n > length d. deser n rt (md_fields m) d 0 start = Ret (True, xs))"
    and fuel: "length b \<le> n"
  shows "read_field rt (\<lambda>fs' d o'. deser n rt fs' d 0 o') f (pre @ b @ rest) (length pre) x =
    Ret (True, length (pre @ b), store (mode_of f) v x)"
  using ok
proof (cases rule: value_ok_cases)
  case number
  obtain c where c: "reader_of s f = R_number c" using numeric_reader [OF ok number] by blast
  obtain w where w: "b = varint (unat w)" "store_cast (fd_type f) w = v"
    using ser_number [OF ok number p] b by auto
  have "unat w < 2 ^ 64" using unsigned_less [of w, where ?'a = nat] by simp
  then have "read_varint (pre @ b @ rest) (length pre) = Ret (w, length pre + length b)"
    using read_varint_at [of "unat w" pre rest] by (simp add: w)
  then show ?thesis using c w(2) by (simp add: read_field_def s)
next
  case (string l str)
  have "p = P_string" using p string by (auto simp: payload_for_def item_payload_def plain_payload_def)
  then have b': "b = varint (length str) @ str" and len: "length str < 2 ^ 64"
    using b string size by (auto simp: with_length_def write_varint_format unat_of_nat)
  have "read_varint (pre @ b @ rest) (length pre) =
      Ret (of_nat (length str), length pre + length (varint (length str)))"
    using read_varint_at [OF len, of pre "str @ rest"] by (simp add: b')
  then show ?thesis
    using string size lax
    by (simp add: read_field_def reader_of_def b' unat_of_nat_64 [OF len] advance_pos_def)
next
  case (model n' l m xs)
  have "p = P_model" using p model by (auto simp: payload_for_def item_payload_def plain_payload_def)
  then obtain d where d: "ser_slots s (md_fields m) xs = Ret d" and "b = with_length d"
    using b model by (auto simp: bindE_eq_Ret)
  have "length d < 2 ^ 64" using size \<open>b = with_length d\<close> by (simp add: with_length_def)
  note b' = \<open>b = with_length d\<close> [unfolded with_length_format [OF this]]
  have "0 < length (varint (length d))" by simp
  then have less: "length d < length b" unfolding b' length_append by linarith
  obtain start where start: "starts_at rt f x start" "deser n rt (md_fields m) d 0 start = Ret (True, xs)"
    using assms(7) [OF model(4) _ d less] model fuel less by auto
  have "read_varint (pre @ b @ rest) (length pre) =
      Ret (of_nat (length d), length pre + length (varint (length d)))"
    using read_varint_at [of "length d" pre "d @ rest"] size by (simp add: b')
  then show ?thesis
    using model start size unat_of_nat_64 [of "length d"]
    by (cases "mode_of f = M_assign")
      (simp_all add: read_field_def reader_of_def b' s starts_at_def advance_pos_def)
qed

section \<open>Stretches of input\<close>

text \<open>
  \<open>chunk c a b\<close>: the bytes \<open>b\<close> stand for \<open>a\<close> in the context \<open>c\<close>; the loop passes them and changes the
  object by \<open>effect c a\<close>.
\<close>

locale stretch =
  fixes rt_of :: "'c \<Rightarrow> runtime" and fields_of :: "'c \<Rightarrow> field list"
    and chunk :: "'c \<Rightarrow> 'a \<Rightarrow> byte list \<Rightarrow> bool"
    and effect :: "'c \<Rightarrow> 'a \<Rightarrow> slot list \<Rightarrow> slot list"
  assumes chunk_runs:
    "chunk c a b \<Longrightarrow> length (pre @ b @ rest) < 2 ^ 64 \<Longrightarrow>
     runs_to (rt_of c) (fields_of c) (pre @ b @ rest) (length pre) obj (length (pre @ b)) (effect c a obj)"
begin

lemma chunks_run:
  "list_all2 (chunk c) as bs \<Longrightarrow> length (pre @ concat bs @ rest) < 2 ^ 64 \<Longrightarrow>
   runs_to (rt_of c) (fields_of c) (pre @ concat bs @ rest) (length pre) obj
     (length (pre @ concat bs)) (fold (effect c) as obj)"
proof (induction as bs arbitrary: pre obj rule: list_all2_induct)
  case (Cons a as b bs)
  have "runs_to (rt_of c) (fields_of c) (pre @ b @ concat bs @ rest) (length pre) obj
      (length (pre @ b)) (effect c a obj)"
    using chunk_runs [OF Cons.hyps(1), of pre "concat bs @ rest"] Cons.prems by simp
  moreover have "runs_to (rt_of c) (fields_of c) ((pre @ b) @ concat bs @ rest) (length (pre @ b))
      (effect c a obj) (length ((pre @ b) @ concat bs)) (fold (effect c) as (effect c a obj))"
    by (rule Cons.IH) (use Cons.prems in simp)
  ultimately show ?case using runs_to_trans by fastforce
qed simp

end

definition readable :: "runtime \<Rightarrow> field \<Rightarrow> slot \<Rightarrow> cval \<Rightarrow> byte list \<Rightarrow> bool" where
  "readable rt f x v b \<longleftrightarrow>
     (\<forall>pre rest n. length (pre @ b @ rest) < 2 ^ 64 \<longrightarrow> length b \<le> n \<longrightarrow>
        read_field rt (\<lambda>fs' d o'. deser n rt fs' d 0 o') f (pre @ b @ rest) (length pre) x =
        Ret (True, length (pre @ b), store (mode_of f) v x))"

lemma field_item_runs:
  assumes "fields_ok fs" "i < length fs" "readable rt (fs ! i) (obj ! i) v b"
    and "length (pre @ (tag_bytes (field_tag (fs ! i)) @ b) @ rest) < 2 ^ 64"
  shows "runs_to rt fs (pre @ (tag_bytes (field_tag (fs ! i)) @ b) @ rest) (length pre) obj
    (length (pre @ tag_bytes (field_tag (fs ! i)) @ b))
    (obj[i := store (mode_of (fs ! i)) v (obj ! i)])"
proof -
  let ?t = "tag_bytes (field_tag (fs ! i))"
  have "valid_number (fd_number (fs ! i))" using assms(1,2) by (auto simp: fields_ok_def)
  then have tag: "drop_bit 3 (field_tag (fs ! i)) = word_of_int (fd_number (fs ! i))"
    by (rule field_tag_number)
  have "read_field rt (\<lambda>fs' d o'. deser n rt fs' d 0 o') (fs ! i) ((pre @ ?t) @ b @ rest)
      (length (pre @ ?t)) (obj ! i) = Ret (True, length ((pre @ ?t) @ b), store (mode_of (fs ! i)) v (obj ! i))"
    if "length b \<le> n" for n
    using assms(3,4) that unfolding readable_def by (metis append.assoc)
  then show ?thesis
    using deser_at_field [OF assms(1,2) tag, of b rt pre rest obj] by simp
qed

text \<open>The items of a vector, each behind the tag of its field.\<close>

definition item_chunk :: "runtime \<times> field list \<times> nat \<Rightarrow> cval \<Rightarrow> byte list \<Rightarrow> bool" where
  "item_chunk c v b = (case c of (rt, fs, i) \<Rightarrow>
     fields_ok fs \<and> i < length fs \<and>
     (\<exists>b'. b = tag_bytes (field_tag (fs ! i)) @ b' \<and> (\<forall>x. readable rt (fs ! i) x v b')))"

definition item_effect :: "runtime \<times> field list \<times> nat \<Rightarrow> cval \<Rightarrow> slot list \<Rightarrow> slot list" where
  "item_effect c v obj = (case c of (rt, fs, i) \<Rightarrow> obj[i := store (mode_of (fs ! i)) v (obj ! i)])"

interpretation items: stretch fst "\<lambda>c. fst (snd c)" item_chunk item_effect
proof
  fix c v b and pre rest :: "byte list" and obj
  assume "item_chunk c v b" "length (pre @ b @ rest) < 2 ^ 64"
  then show "runs_to (fst c) (fst (snd c)) (pre @ b @ rest) (length pre) obj (length (pre @ b)) (item_effect c v obj)"
    using field_item_runs by (fastforce simp: item_chunk_def item_effect_def split: prod.splits)
qed

lemma fold_item_effect:
  assumes "i < length obj" "obj ! i = Rep us" "mode_of (fs ! i) = M_push"
  shows "fold (item_effect (rt, fs, i)) vs obj = obj[i := Rep (us @ vs)]"
  using assms(1,2)
proof (induction vs arbitrary: obj us)
  case Nil
  then show ?case using list_update_id [of obj i] by simp
next
  case (Cons v vs)
  then show ?case using Cons.IH [of "obj[i := Rep (us @ [v])]" "us @ [v]"] assms(3) by (simp add: item_effect_def)
qed

lemma ser_items_split:
  "ser_items s t tag p vs = Ret b \<Longrightarrow>
     \<exists>bs. b = concat (map (\<lambda>x. tag_bytes tag @ x) bs) \<and> list_all2 (\<lambda>v x. ser_value s t p v = Ret x) vs bs"
proof (induction vs arbitrary: b)
  case (Cons v vs)
  then obtain x y where "ser_value s t p v = Ret x" "ser_items s t tag p vs = Ret y" "b = tag_bytes tag @ x @ y"
    by (auto simp: bindE_eq_Ret write_tag)
  moreover from Cons.IH [OF this(2)] obtain bs where
    "y = concat (map (\<lambda>x. tag_bytes tag @ x) bs)" "list_all2 (\<lambda>v x. ser_value s t p v = Ret x) vs bs" by blast
  ultimately show ?case by (intro exI [of _ "x # bs"]) simp
qed simp

section \<open>Unknown fields\<close>

text \<open>The tag of a field number and a wire type.\<close>

lemma unat_wire: "unat (ucast w :: 32 word) = unat w" for w :: "8 word"
  using unsigned_less [of w, where ?'a = nat] by (simp add: unat_ucast_eq)

lemma number_tag_wire:
  fixes w :: "8 word"
  assumes "valid_number n" "unat w < 8"
  shows "ucast (number_tag n (ucast w) AND 0x7) = w"
proof -
  let ?t = "number_tag n (ucast w)"
  have "unat ?t = 8 * nat n + unat (ucast w :: 32 word)"
    using assms by (intro number_tag_value) (simp_all only: valid_number_def unat_wire, simp_all)
  then have "unat ?t mod 8 = unat w" using assms(2) by (simp only: unat_wire) simp
  moreover have "unat (?t AND 0x7) = unat ?t mod 8"
    using unat_and_mask [of ?t 3] by (simp only: mask_eq_exp_minus_1) simp
  ultimately have "unat (?t AND 0x7) = unat w" by (simp only:)
  moreover have "ucast x = (of_nat (unat x) :: 8 word)" for x :: "32 word" by simp
  ultimately show ?thesis by (metis of_nat_unat ucast_id)
qed

lemma skip_varint_at:
  "skip_varint (pre @ varint n @ rest) (length pre) = length pre + length (varint n)"
proof (induction n arbitrary: pre rule: varint.induct)
  case (1 n)
  show ?case
  proof (cases "n < 128")
    case True
    then have bytes: "varint n = [of_nat n]" and b: "unat (of_nat n :: byte) = n"
      by (simp_all add: varint.simps [of n] unat_of_nat)
    with True show ?thesis
      by (subst skip_varint.simps) (simp add: high_bit nth_append)
  next
    case False
    let ?b = "of_nat (n mod 128 + 128) :: byte"
    have bytes: "varint n = ?b # varint (n div 128)" by (subst varint.simps) (use False in simp)
    have b: "unat ?b = n mod 128 + 128" by (simp add: unat_of_nat del: of_nat_add)
    have "skip_varint (pre @ varint n @ rest) (length pre) =
        skip_varint ((pre @ [?b]) @ varint (n div 128) @ rest) (length (pre @ [?b]))"
      by (subst skip_varint.simps) (simp add: bytes high_bit b nth_append del: of_nat_add)
    with 1 [OF False, of "pre @ [?b]"] show ?thesis by (simp add: bytes)
  qed
qed

text \<open>What may follow the tag of a field of wire type \<open>w\<close>.\<close>

definition wire_payload :: "8 word \<Rightarrow> byte list \<Rightarrow> bool" where
  "wire_payload w b \<longleftrightarrow>
     (w = 0 \<and> (\<exists>n < 2 ^ 64. b = varint n)) \<or> (w = 2 \<and> (\<exists>d. b = with_length d)) \<or>
     (w = 1 \<and> length b = 8) \<or> (w = 5 \<and> length b = 4)"

lemma skip_payload:
  assumes "wire_payload w b" "length (pre @ b @ rest) < 2 ^ 64"
  shows "skip_unknown w (pre @ b @ rest) (length pre) = Ret (length (pre @ b))"
  using assms(1) unfolding wire_payload_def
proof (elim disjE conjE exE)
  fix d assume w: "w = 2" and "b = with_length d"
  then have b: "b = varint (length d) @ d" using assms(2) with_length_format [of d] by (simp add: with_length_def)
  then show ?thesis
    using w assms(2) read_varint_at [of "length d" pre "d @ rest"] unat_of_nat_64 [of "length d"]
    by (simp add: skip_unknown_def advance_pos_def)
qed (use assms(2) in \<open>auto simp: skip_unknown_def skip_varint_at advance_pos_def\<close>)

text \<open>The bytes of a field that has no label in the \<^verbatim>\<open>switch\<close>.\<close>

definition unknown_field :: "field list \<Rightarrow> byte list \<Rightarrow> bool" where
  "unknown_field fs b \<longleftrightarrow>
     (\<exists>n w p. valid_number n \<and> unat w < 8 \<and> n \<notin> fd_number ` set fs \<and>
        wire_payload w p \<and> b = tag_bytes (number_tag n (ucast w)) @ p)"

lemma unknown_number:
  assumes "fields_ok fs" "valid_number n" "n \<notin> fd_number ` set fs"
  shows "field_index fs (word_of_int n) = None"
  unfolding field_index_unknown
proof
  fix f assume "f \<in> set fs"
  with assms show "word_of_int (fd_number f) \<noteq> (word_of_int n :: 32 word)"
    by (metis fields_ok_def imageI valid_number_word)
qed

interpretation unknown: stretch fst snd "\<lambda>c u b. fields_ok (snd c) \<and> unknown_field (snd c) b" "\<lambda>c u. id"
proof
  fix c :: "runtime \<times> field list" and u :: unit and b pre rest :: "byte list" and obj
  assume "fields_ok (snd c) \<and> unknown_field (snd c) b" and size: "length (pre @ b @ rest) < 2 ^ 64"
  then obtain n w p where n: "valid_number n" "unat w < 8" "field_index (snd c) (word_of_int n) = None"
    and p: "wire_payload w p" and b: "b = tag_bytes (number_tag n (ucast w)) @ p"
    using unknown_number by (auto simp: unknown_field_def)
  let ?t = "tag_bytes (number_tag n (ucast w))"
  have "?t \<noteq> []" by (simp add: tag_bytes_def)
  then have len: "0 < length ?t" by simp
  have num: "drop_bit 3 (number_tag n (ucast w)) = word_of_int n"
    using n by (intro number_tag_number) (simp_all only: unat_wire)
  have skip: "skip_unknown w (pre @ ?t @ p @ rest) (length pre + length ?t) = Ret (length pre + (length ?t + length p))"
    using skip_payload [OF p, of "pre @ ?t" rest] size by (simp add: b)
  show "runs_to (fst c) (snd c) (pre @ b @ rest) (length pre) obj (length (pre @ b)) (id obj)"
    by (rule runs_to_step)
      (use len in \<open>simp_all add: b deser.simps(2) read_tag tag_parts num number_tag_wire n skip\<close>)
qed

definition unknown_fields :: "field list \<Rightarrow> byte list \<Rightarrow> bool" where
  "unknown_fields fs u \<longleftrightarrow> (\<exists>bs. u = concat bs \<and> list_all (unknown_field fs) bs)"

lemma unknown_fields_run:
  assumes "fields_ok fs" "unknown_fields fs u" "length (pre @ u @ rest) < 2 ^ 64"
  shows "runs_to rt fs (pre @ u @ rest) (length pre) obj (length (pre @ u)) obj"
proof -
  obtain bs where u: "u = concat bs" and bs: "list_all (unknown_field fs) bs"
    using assms(2) by (auto simp: unknown_fields_def)
  have "list_all2 (\<lambda>u b. fields_ok (snd (rt, fs)) \<and> unknown_field (snd (rt, fs)) b) (replicate (length bs) ()) bs"
    using bs assms(1) by (auto simp: list_all2_conv_all_nth list_all_length)
  from unknown.chunks_run [OF this, of pre rest obj] assms(3) show ?thesis by (simp add: u)
qed

text \<open>The bytes \<open>bs\<close>, with \<open>us\<close> between them.\<close>

fun spread :: "'a list list \<Rightarrow> 'a list list \<Rightarrow> 'a list" where
  "spread us [] = concat us"
| "spread [] (b # bs) = b @ spread [] bs"
| "spread (u # us) (b # bs) = u @ b @ spread us bs"

lemma spread_Nil [simp]: "spread [] bs = concat bs"
  by (induction bs) simp_all

lemma unknown_fields_Nil [simp]: "unknown_fields fs []"
  by (auto simp: unknown_fields_def intro: exI [of _ "[]"])

lemma unknown_fields_concat: "list_all (unknown_fields fs) us \<Longrightarrow> unknown_fields fs (concat us)"
proof (induction us)
  case (Cons u us)
  then obtain as bs where "u = concat as" "concat us = concat bs" "list_all (unknown_field fs) (as @ bs)"
    by (auto simp: unknown_fields_def)
  then show ?case unfolding unknown_fields_def by (intro exI [of _ "as @ bs"]) simp
qed simp

lemma spread_Cons: "\<exists>u vs. spread us (b # bs) = u @ b @ spread vs bs \<and>
    (list_all (unknown_fields fs) us \<longrightarrow> unknown_fields fs u \<and> list_all (unknown_fields fs) vs)"
proof (cases us)
  case Nil
  then show ?thesis by (intro exI [of _ "[]"]) simp
next
  case (Cons u vs)
  then show ?thesis by (intro exI [of _ u] exI [of _ vs]) simp
qed

section \<open>Round trip of objects\<close>

text \<open>What validation and a compiling header give for the classes.\<close>

definition classes_ok :: "runtime \<Rightarrow> bool" where
  "classes_ok rt \<longleftrightarrow>
     (\<forall>n m. find_model (rt_schema rt) n = Some m \<longrightarrow> fields_ok (md_fields m) \<and>
        (\<exists>start. default_object rt n = Some start \<and> fresh_slots (rt_schema rt) (md_fields m) start))"

definition object_reads :: "runtime \<Rightarrow> slot list \<Rightarrow> bool" where
  "object_reads rt xs \<longleftrightarrow>
     (\<forall>fs d start. fields_ok fs \<longrightarrow> slots_ok (rt_schema rt) fs xs \<longrightarrow>
        ser_slots (rt_schema rt) fs xs = Ret d \<longrightarrow> length d < 2 ^ 64 \<longrightarrow>
        fresh_slots (rt_schema rt) fs start \<longrightarrow> runs_to rt fs d 0 start (length d) xs)"

lemma readable_value:
  assumes rt: "classes_ok rt" "\<not> rt_checked rt" and ok: "value_ok (rt_schema rt) (fd_type f) v"
    and p: "payload_for (rt_schema rt) (fd_type f) p" and b: "ser_value (rt_schema rt) (fd_type f) p v = Ret b"
    and inner: "\<And>xs. v = V_obj xs \<Longrightarrow> object_reads rt xs"
    and fresh: "mode_of f = M_assign \<Longrightarrow> fresh_slot (rt_schema rt) f x"
  shows "readable rt f x v b"
  unfolding readable_def
proof (intro allI impI)
  fix pre rest n
  assume size: "length (pre @ b @ rest) < 2 ^ 64" and fuel: "length b \<le> n"
  show "read_field rt (\<lambda>fs' d o'. deser n rt fs' d 0 o') f (pre @ b @ rest) (length pre) x =
      Ret (True, length (pre @ b), store (mode_of f) v x)"
  proof (rule read_value [OF ok refl p b size rt(2) _ fuel])
    fix xs m d
    assume v: "v = V_obj xs" and m: "find_model (rt_schema rt) (get_name (fd_type f)) = Some m"
      and d: "ser_slots (rt_schema rt) (md_fields m) xs = Ret d" and less: "length d < length b"
    from ok v obtain n' l where t: "fd_type f = UserType n' l" "\<not> is_enum_type (rt_schema rt) n'"
      by (cases "fd_type f") auto
    have slots: "slots_ok (rt_schema rt) (md_fields m) xs" using ok v m t by simp
    obtain start where start: "starts_at rt f x start" "fresh_slots (rt_schema rt) (md_fields m) start"
    proof (cases "mode_of f = M_assign")
      case True
      with fresh t obtain ys where "x = One (V_obj ys)" "fresh_slots (rt_schema rt) (md_fields m) ys"
        using m by (cases x) (auto simp: item_payload_def elim!: fresh_value.elims split: if_splits)
      with True that show thesis by (simp add: starts_at_def)
    next
      case False
      with rt(1) m that show thesis by (auto simp: classes_ok_def starts_at_def)
    qed
    have "fields_ok (md_fields m)" using rt(1) m by (auto simp: classes_ok_def)
    with inner [OF v] slots d start(2) less size
    have "runs_to rt (md_fields m) d 0 start (length d) xs" by (auto simp: object_reads_def)
    then have "\<forall>n > length d. deser n rt (md_fields m) d 0 start = Ret (True, xs)"
      by (auto intro: runs_to_end)
    with start(1) show "\<exists>start. starts_at rt f x start \<and>
        (\<forall>n > length d. deser n rt (md_fields m) d 0 start = Ret (True, xs))" by blast
  qed
qed

fun slot_values :: "slot \<Rightarrow> cval list" where
  "slot_values (One v) = [v]"
| "slot_values (Opt v) = (case v of None \<Rightarrow> [] | Some w \<Rightarrow> [w])"
| "slot_values (Rep vs) = vs"

lemma writer_payload:
  "mode_of f = M_assign \<Longrightarrow> writer_of s f = W_plain (field_tag f) (plain_payload s (fd_type f))"
  "mode_of f = M_optional \<Longrightarrow> writer_of s f = W_optional (field_tag f) (item_payload s (fd_type f))"
  "mode_of f = M_push \<Longrightarrow> \<not> is_packed f \<Longrightarrow> writer_of s f = W_each (field_tag f) (item_payload s (fd_type f))"
  by (auto simp: mode_of_def writer_of_def split: if_splits ast_type.splits)

lemma single_runs:
  assumes rt: "classes_ok rt" "\<not> rt_checked rt" and fs: "fields_ok fs" "i < length fs"
    and ok: "value_ok (rt_schema rt) (fd_type (fs ! i)) v"
    and p: "payload_for (rt_schema rt) (fd_type (fs ! i)) p"
    and b: "ser_items (rt_schema rt) (fd_type (fs ! i)) (field_tag (fs ! i)) p [v] = Ret b"
    and inner: "\<And>xs. v = V_obj xs \<Longrightarrow> object_reads rt xs"
    and fresh: "mode_of (fs ! i) = M_assign \<Longrightarrow> fresh_slot (rt_schema rt) (fs ! i) (obj ! i)"
    and size: "length (pre @ b @ rest) < 2 ^ 64"
  shows "runs_to rt fs (pre @ b @ rest) (length pre) obj (length (pre @ b))
    (obj[i := store (mode_of (fs ! i)) v (obj ! i)])"
proof -
  obtain x where x: "ser_value (rt_schema rt) (fd_type (fs ! i)) p v = Ret x"
    and b': "b = tag_bytes (field_tag (fs ! i)) @ x"
    using b by (auto simp: bindE_eq_Ret write_tag)
  have "readable rt (fs ! i) (obj ! i) v x" by (rule readable_value [OF rt ok p x inner fresh])
  from field_item_runs [OF fs this, of pre rest] size show ?thesis unfolding b' by simp
qed

lemma vector_runs:
  assumes rt: "classes_ok rt" "\<not> rt_checked rt" and fs: "fields_ok fs" "i < length fs" "length obj = length fs"
    and ok: "list_all (value_ok (rt_schema rt) (fd_type (fs ! i))) vs" and push: "mode_of (fs ! i) = M_push"
    and p: "payload_for (rt_schema rt) (fd_type (fs ! i)) p"
    and b: "ser_items (rt_schema rt) (fd_type (fs ! i)) (field_tag (fs ! i)) p vs = Ret b"
    and inner: "\<And>xs. V_obj xs \<in> set vs \<Longrightarrow> object_reads rt xs"
    and fresh: "obj ! i = Rep []" and size: "length (pre @ b @ rest) < 2 ^ 64"
  shows "runs_to rt fs (pre @ b @ rest) (length pre) obj (length (pre @ b)) (obj[i := Rep vs])"
proof -
  let ?tag = "tag_bytes (field_tag (fs ! i))"
  obtain bs where b': "b = concat (map (\<lambda>x. ?tag @ x) bs)"
    and bs: "list_all2 (\<lambda>v x. ser_value (rt_schema rt) (fd_type (fs ! i)) p v = Ret x) vs bs"
    using ser_items_split [OF b] by blast
  have "item_chunk (rt, fs, i) v (?tag @ x)"
    if "v \<in> set vs" "ser_value (rt_schema rt) (fd_type (fs ! i)) p v = Ret x" for v x
    unfolding item_chunk_def prod.case
  proof (intro conjI exI allI)
    show "fields_ok fs" "i < length fs" by (rule fs)+
    show "readable rt (fs ! i) y v x" for y
      by (rule readable_value [OF rt _ p that(2)]) (use ok that(1) inner push in \<open>auto simp: list_all_iff\<close>)
  qed simp
  with bs have "list_all2 (item_chunk (rt, fs, i)) vs (map (\<lambda>x. ?tag @ x) bs)"
    by (auto simp: list_all2_conv_all_nth)
  from items.chunks_run [OF this, of pre rest obj] size show ?thesis
    using fold_item_effect [of i obj "[]" fs rt vs] fs push fresh by (simp add: b')
qed

lemma field_runs:
  assumes rt: "classes_ok rt" "\<not> rt_checked rt" and fs: "fields_ok fs" "i < length fs" "length obj = length fs"
    and ok: "slot_ok (rt_schema rt) (fs ! i) x" and b: "ser_field (rt_schema rt) (fs ! i) x = Ret b"
    and inner: "\<And>xs. V_obj xs \<in> set (slot_values x) \<Longrightarrow> object_reads rt xs"
    and fresh: "fresh_slot (rt_schema rt) (fs ! i) (obj ! i)" and size: "length (pre @ b @ rest) < 2 ^ 64"
  shows "runs_to rt fs (pre @ b @ rest) (length pre) obj (length (pre @ b)) (obj[i := x])"
proof (cases x)
  case (One v)
  with ok b inner fresh size single_runs [OF rt fs(1,2), of v "plain_payload (rt_schema rt) (fd_type (fs ! i))" b obj pre rest]
  show ?thesis by (auto simp: writer_payload payload_for_def)
next
  case (Opt ov)
  show ?thesis
  proof (cases ov)
    case None
    with Opt ok fresh have "obj ! i = Opt None" by (cases "obj ! i") auto
    then have "obj[i := x] = obj" using Opt None list_update_id [of obj i] by simp
    with b Opt None ok show ?thesis by (simp add: writer_payload)
  next
    case (Some v)
    with Opt ok b inner fresh size
      single_runs [OF rt fs(1,2), of v "item_payload (rt_schema rt) (fd_type (fs ! i))" b obj pre rest]
    show ?thesis by (auto simp: writer_payload payload_for_def)
  qed
next
  case (Rep vs)
  then have rep: "obj ! i = Rep []" using ok fresh by (cases "obj ! i") auto
  show ?thesis
  proof (cases "is_packed (fs ! i)")
    case True
    then have "vs = []" using ok Rep by simp
    then have "b = []" "obj[i := x] = obj"
      using b Rep rep list_update_id [of obj i] by (auto split: writer.splits)
    then show ?thesis by simp
  next
    case False
    with Rep ok b inner rep size
      vector_runs [OF rt fs, of vs "item_payload (rt_schema rt) (fd_type (fs ! i))" b pre rest]
    show ?thesis by (auto simp: writer_payload payload_for_def)
  qed
qed

lemma fresh_slots_length: "fresh_slots s fs xs \<Longrightarrow> length xs = length fs"
  by (induction fs arbitrary: xs) (auto elim: fresh_slots.elims)

lemma fresh_slots_nth:
  "fresh_slots s fs xs \<Longrightarrow> i < length fs \<Longrightarrow> fresh_slot s (fs ! i) (xs ! i)"
proof (induction fs arbitrary: xs i)
  case (Cons f fs)
  then show ?case by (cases xs; cases i) auto
qed simp

text \<open>
  The remaining fields \<open>fs\<close>, behind the fields \<open>ds\<close> whose members \<open>ys\<close> have been read, with unknown
  fields between them.
\<close>

lemma spread_run:
  assumes rt: "classes_ok rt" "\<not> rt_checked rt" and FS: "fields_ok (ds @ fs)"
    and us: "list_all (unknown_fields (ds @ fs)) us"
    and ok: "slots_ok (rt_schema rt) fs xs" and b: "map2 (ser_field (rt_schema rt)) fs xs = map Ret bs"
    and inner: "\<And>x zs. x \<in> set xs \<Longrightarrow> V_obj zs \<in> set (slot_values x) \<Longrightarrow> object_reads rt zs"
    and fresh: "fresh_slots (rt_schema rt) fs fr" and ys: "length ys = length ds"
    and size: "length (pre @ spread us bs) < 2 ^ 64"
  shows "runs_to rt (ds @ fs) (pre @ spread us bs) (length pre) (ys @ fr) (length (pre @ spread us bs)) (ys @ xs)"
  using FS us ok b inner fresh ys size
proof (induction fs arbitrary: ds us xs fr ys pre bs)
  case Nil
  then have "bs = []" "fr = []" "xs = []" by (cases xs; cases fr; simp)+
  with Nil unknown_fields_run [OF _ unknown_fields_concat, of ds us pre "[]" rt ys] show ?case by simp
next
  case (Cons f fs)
  from Cons.prems(3) obtain x xs' where xs: "xs = x # xs'" by (cases xs) auto
  from Cons.prems(6) obtain y fr' where fr: "fr = y # fr'" by (cases fr) auto
  from Cons.prems(4) obtain b bs' where bs: "bs = b # bs'" and b: "ser_field (rt_schema rt) f x = Ret b"
    and bs': "map2 (ser_field (rt_schema rt)) fs xs' = map Ret bs'"
    by (auto simp: xs)
  obtain u vs where sp: "spread us bs = u @ b @ spread vs bs'"
    and u: "unknown_fields (ds @ f # fs) u" and vs: "list_all (unknown_fields (ds @ f # fs)) vs"
    using spread_Cons [of us b bs' "ds @ f # fs"] Cons.prems(2) by (auto simp: bs)
  let ?i = "length ds"
  have nth: "(ds @ f # fs) ! ?i = f" "(ys @ y # fr') ! ?i = y"
    using Cons.prems(7) nth_append_length [of ys y fr'] by simp_all
  have upd: "(ys @ y # fr')[?i := x] = (ys @ [x]) @ fr'"
    using Cons.prems(7) list_update_length [of ys y fr' x] by simp
  have "length fr' = length fs" using fresh_slots_length [OF Cons.prems(6)] by (simp add: fr)
  then have len: "length (ys @ y # fr') = length (ds @ f # fs)" using Cons.prems(7) by simp
  have 1: "runs_to rt (ds @ f # fs) (pre @ u @ b @ spread vs bs') (length pre) (ys @ y # fr')
      (length (pre @ u)) (ys @ y # fr')"
    by (rule unknown_fields_run [OF Cons.prems(1) u]) (use Cons.prems(8) sp in simp)
  have 2: "runs_to rt (ds @ f # fs) ((pre @ u) @ b @ spread vs bs') (length (pre @ u)) (ys @ y # fr')
      (length ((pre @ u) @ b)) ((ys @ y # fr')[?i := x])"
    by (rule field_runs [OF rt Cons.prems(1) _ len])
      (use Cons.prems b in \<open>auto simp: nth xs fr sp\<close>)
  have 3: "runs_to rt ((ds @ [f]) @ fs) ((pre @ u @ b) @ spread vs bs') (length (pre @ u @ b))
      ((ys @ [x]) @ fr') (length ((pre @ u @ b) @ spread vs bs')) ((ys @ [x]) @ xs')"
    by (rule Cons.IH) (use Cons.prems bs' vs in \<open>auto simp: xs fr sp\<close>)
  show ?case
    using runs_to_trans [OF 1 runs_to_trans [OF 2 [unfolded upd append_assoc]]] 3
    by (simp add: xs fr sp)
qed

lemma ser_slots_split:
  "ser_slots s fs xs = Ret b \<Longrightarrow> \<exists>bs. b = concat bs \<and> map2 (ser_field s) fs xs = map Ret bs"
proof (induction fs arbitrary: xs b)
  case Nil
  then show ?case by (cases xs) (auto intro: exI [of _ "[]"])
next
  case (Cons f fs)
  then obtain x xs' b1 b2 where *: "xs = x # xs'" "ser_field s f x = Ret b1" "ser_slots s fs xs' = Ret b2" "b = b1 @ b2"
    by (cases xs) (auto simp: bindE_eq_Ret)
  then obtain bs where "b2 = concat bs" "map2 (ser_field s) fs xs' = map Ret bs" using Cons.IH by blast
  with * show ?case by (intro exI [of _ "b1 # bs"]) simp
qed

lemma value_size: "V_obj zs \<in> set (slot_values x) \<Longrightarrow> size_list size zs < size x"
proof (induction x rule: slot_values.induct)
  case (3 vs)
  then have "size (V_obj zs) \<le> size_list size vs" by (intro size_list_estimation') auto
  then show ?case by simp
qed (auto split: option.splits)

lemma object_reads_all:
  assumes rt: "classes_ok rt" "\<not> rt_checked rt"
  shows "object_reads rt xs"
proof (induction xs rule: measure_induct_rule [of "size_list size"])
  case (less xs)
  have inner: "object_reads rt zs" if "x \<in> set xs" "V_obj zs \<in> set (slot_values x)" for x zs
  proof (rule less)
    have "size x \<le> size_list size xs" using that(1) by (intro size_list_estimation') auto
    with value_size [OF that(2)] show "size_list size zs < size_list size xs" by linarith
  qed
  show ?case
    unfolding object_reads_def
  proof (intro allI impI)
    fix fs d start
    assume a: "fields_ok fs" "slots_ok (rt_schema rt) fs xs" "ser_slots (rt_schema rt) fs xs = Ret d"
      "length d < 2 ^ 64" "fresh_slots (rt_schema rt) fs start"
    obtain bs where "d = concat bs" "map2 (ser_field (rt_schema rt)) fs xs = map Ret bs"
      using ser_slots_split [OF a(3)] by blast
    with spread_run [OF rt _ _ a(2) _ inner a(5), where ds = "[]" and ys = "[]" and pre = "[]" and us = "[]" and bs = bs] a(1,4)
    show "runs_to rt fs d 0 start (length d) xs" by simp
  qed
qed

section \<open>Every such object is serialized\<close>

lemma ser_total:
  "value_ok s t v \<Longrightarrow> payload_for s t p \<Longrightarrow> \<exists>b. ser_value s t p v = Ret b"
  "slot_ok s f x \<Longrightarrow> \<exists>b. ser_field s f x = Ret b"
  "slots_ok s fs xs \<Longrightarrow> \<exists>b. ser_slots s fs xs = Ret b"
proof (induction s t v and s f x and s fs xs arbitrary: p and rule: value_ok_slot_ok_slots_ok.induct)
  case (1 s k l i)
  then show ?case using ser_number [of s "PrimitiveType k l" "V_int i" p] by (auto simp: numeric_def)
next
  case (2 s k l b)
  then show ?case by (auto simp: payload_for_def item_payload_def plain_payload_def)
next
  case (3 s k l q)
  then show ?case using ser_number [of s "PrimitiveType k l" "V_float q" p] by (auto simp: numeric_def)
next
  case (4 s k l q)
  then show ?case using ser_number [of s "PrimitiveType k l" "V_double q" p] by (auto simp: numeric_def)
next
  case (5 s n l i)
  then show ?case using ser_number [of s "UserType n l" "V_int i" p] by (auto simp: numeric_def)
next
  case (6 s n l xs)
  then show ?case
    by (fastforce simp: payload_for_def item_payload_def plain_payload_def split: option.splits)
next
  case (8 s f v)
  then show ?case by (fastforce simp: writer_payload payload_for_def)
next
  case (10 s f v)
  then show ?case by (fastforce simp: writer_payload payload_for_def)
next
  case (11 s f vs)
  have "\<exists>b. ser_items s (fd_type f) tag (item_payload s (fd_type f)) ws = Ret b"
    if "\<And>v. v \<in> set ws \<Longrightarrow> \<exists>b. ser_value s (fd_type f) (item_payload s (fd_type f)) v = Ret b" for tag ws
    using that by (induction ws) force+
  with 11 show ?case
    by (cases "is_packed f")
      (auto simp: writer_payload payload_for_def list_all_iff writer_of_def mode_of_def
        split: ast_type.split if_splits)
next
  case (13 s f fs x xs)
  then show ?case by (auto simp: bindE_eq_Ret)
qed (simp_all add: writer_payload)

end
