(* ===== verification/Runtime_Props.thy ===== *)
theory Runtime_Props
  imports Runtime_Spec
begin

unbundle bit_operations_syntax

text \<open>
  What the emitted classes promise: the classes a compiled header declares have the default objects the
  reading loop needs, objects are read back as they were written, and unknown fields are skipped.
\<close>

section \<open>The classes of a compiled header\<close>

lemma find_model_declared:
  assumes "distinct (map decl_name (sc_declarations s))" "ModelDecl m \<in> set (sc_declarations s)"
  shows "find_model s (md_name m) = Some m" and "\<not> is_enum_type s (md_name m)"
proof -
  have uniq: "d = ModelDecl m" if "d \<in> set (sc_declarations s)" "decl_name d = md_name m" for d
    using that assms eq_key_imp_eq_value [of "map (\<lambda>d. (decl_name d, d)) (sc_declarations s)" "md_name m" d "ModelDecl m"]
    by (force simp: comp_def)
  show "find_model s (md_name m) = Some m"
  proof (cases "find_model s (md_name m)")
    case None
    then show ?thesis using assms(2) by (auto simp: find_model_def find_model_in_None)
  next
    case (Some m')
    then show ?thesis using find_model_in_Some [of _ "md_name m" m'] uniq [of "ModelDecl m'"]
      by (auto simp: find_model_def)
  qed
  show "\<not> is_enum_type s (md_name m)"
    using uniq [of "EnumDecl _"] find_enum_in_Some [of _ "md_name m"]
    by (fastforce simp: is_enum_type_def find_enum_def)
qed

definition env_ok :: "schema \<Rightarrow> (string \<rightharpoonup> class_info) \<Rightarrow> bool" where
  "env_ok s env \<longleftrightarrow>
     (\<forall>n. case env n of
        None \<Rightarrow> True
      | Some Enum_class \<Rightarrow> is_enum_type s n
      | Some (Model_class xs) \<Rightarrow> \<not> is_enum_type s n \<and>
          (\<exists>m. find_model s n = Some m \<and> fresh_slots s (md_fields m) xs))"

lemma default_slot_fresh:
  assumes "env_ok s env" "default_slot env self f = Some x"
  shows "fresh_slot s f x"
proof (cases "fd_type f")
  case (PrimitiveType k l)
  with assms(2) show ?thesis
    by (auto simp: default_slot_def mode_of_def default_value_def item_payload_def
        split: if_splits primitive_type_kind.splits)
next
  case (UserType n l)
  have "case env n of
        None \<Rightarrow> True
      | Some Enum_class \<Rightarrow> is_enum_type s n
      | Some (Model_class xs) \<Rightarrow> \<not> is_enum_type s n \<and>
          (\<exists>m. find_model s n = Some m \<and> fresh_slots s (md_fields m) xs)"
    using assms(1) unfolding env_ok_def by blast
  with assms(2) UserType show ?thesis
    by (auto simp: default_slot_def mode_of_def item_payload_def
        split: if_splits option.splits class_info.splits)
qed

lemma collect_fresh:
  assumes "env_ok s env"
  shows "collect (map (default_slot env self) fs) = Some xs \<Longrightarrow> fresh_slots s fs xs"
proof (induction fs arbitrary: xs)
  case (Cons f fs)
  then obtain x where x: "default_slot env self f = Some x" by (cases "default_slot env self f") auto
  with Cons default_slot_fresh [OF assms x] show ?case by auto
qed simp

lemma class_env_ok:
  assumes "distinct (map decl_name (sc_declarations s))"
  shows "class_env ds env = Some env' \<Longrightarrow> set ds \<subseteq> set (sc_declarations s) \<Longrightarrow> env_ok s env \<Longrightarrow>
    env_ok s env' \<and> dom env' = dom env \<union> decl_name ` set ds"
proof (induction ds arbitrary: env)
  case (Cons d ds)
  show ?case
  proof (cases d)
    case (EnumDecl e)
    with Cons.prems have "is_enum_type s (en_name e)"
      by (auto simp: is_enum_type_def find_enum_def find_enum_in_None dest: spec [of _ e])
    with Cons.prems have ok: "env_ok s (env(en_name e \<mapsto> Enum_class))" by (auto simp: env_ok_def)
    have step: "class_env ds (env(en_name e \<mapsto> Enum_class)) = Some env'" using Cons.prems(1) EnumDecl by simp
    from Cons.IH [OF step _ ok] Cons.prems(2) EnumDecl show ?thesis by (auto split: if_splits)
  next
    case (ModelDecl m)
    with Cons.prems obtain xs where xs: "collect (map (default_slot env (md_name m)) (md_fields m)) = Some xs"
      by (auto split: option.splits)
    have "find_model s (md_name m) = Some m" "\<not> is_enum_type s (md_name m)"
      using find_model_declared [OF assms, of m] Cons.prems ModelDecl by auto
    with Cons.prems collect_fresh [OF _ xs] have ok: "env_ok s (env(md_name m \<mapsto> Model_class xs))"
      by (auto simp: env_ok_def)
    have step: "class_env ds (env(md_name m \<mapsto> Model_class xs)) = Some env'"
      using Cons.prems(1) ModelDecl xs by simp
    from Cons.IH [OF step _ ok] Cons.prems(2) ModelDecl show ?thesis by (auto split: if_splits)
  qed
qed simp

lemma valid_model_fields:
  assumes "valid_schema s" "ModelDecl m \<in> set (sc_declarations s)"
  shows "fields_ok (md_fields m)"
  using assms by (force simp: valid_schema_def fields_ok_def valid_model_def valid_field_def list_all_iff)

lemma compiled_classes_ok:
  assumes "valid_schema s" "compile_header checked s = Some rt"
  shows "classes_ok rt" and "rt_schema rt = s" and "rt_checked rt = checked"
proof -
  obtain env where env: "class_env (sc_declarations s) Map.empty = Some env"
    and rt: "rt = \<lparr>rt_schema = s, rt_classes = env, rt_checked = checked\<rparr>"
    using assms(2) by (auto simp: compile_header_def split: if_splits)
  show "rt_schema rt = s" "rt_checked rt = checked" by (simp_all add: rt)
  have distinct: "distinct (map decl_name (sc_declarations s))" using assms(1) by (simp add: valid_schema_def)
  have ok: "env_ok s env" and dom: "dom env = decl_name ` set (sc_declarations s)"
    using class_env_ok [OF distinct env] by (auto simp: env_ok_def)
  have "fields_ok (md_fields m) \<and> (\<exists>start. default_object rt n = Some start \<and> fresh_slots s (md_fields m) start)"
    if m: "find_model s n = Some m" for n m
  proof -
    have decl: "ModelDecl m \<in> set (sc_declarations s)" "md_name m = n"
      using find_model_in_Some [of _ n m] m by (auto simp: find_model_def)
    then obtain c where "env n = Some c" using dom by force
    with ok find_model_declared(2) [OF distinct decl(1)] decl(2) m show ?thesis
      using valid_model_fields [OF assms(1) decl(1)]
      by (cases c) (auto simp: env_ok_def rt default_object_def dest!: spec [of _ n])
  qed
  then show "classes_ok rt" by (auto simp: classes_ok_def rt)
qed

lemma compiled_model:
  assumes "valid_schema s" "compile_header checked s = Some rt" "ModelDecl m \<in> set (sc_declarations s)"
  shows "\<exists>start. default_object rt (md_name m) = Some start \<and> fresh_slots s (md_fields m) start \<and>
    fields_ok (md_fields m)"
proof -
  have "distinct (map decl_name (sc_declarations s))" using assms(1) by (simp add: valid_schema_def)
  from find_model_declared(1) [OF this assms(3)] compiled_classes_ok [OF assms(1,2)]
  show ?thesis by (auto simp: classes_ok_def)
qed

section \<open>A schema\<close>

text \<open>The schema of the examples: an enumeration, and a model with a vector of another.\<close>

definition no_loc :: source_location where
  "no_loc = mk_loc 1 1 0"

definition new_member :: "ast_type \<Rightarrow> string \<Rightarrow> int \<Rightarrow> modifiers \<Rightarrow> field" where
  "new_member t n num w = add_modifier w (new_field t n num no_loc)"

definition point :: model_decl where
  "point = \<lparr>md_name = ''Point'', md_fields =
     [new_member (PrimitiveType K_INT32 no_loc) ''x'' 1 MOD_NONE,
      new_member (PrimitiveType K_STRING no_loc) ''title'' 2 MOD_OPTIONAL], md_location = no_loc\<rparr>"

definition shape :: model_decl where
  "shape = \<lparr>md_name = ''Shape'', md_fields =
     [new_member (UserType ''Color'' no_loc) ''color'' 1 MOD_NONE,
      new_member (UserType ''Point'' no_loc) ''points'' 2 MOD_REPEATED,
      new_member (PrimitiveType K_BOOL no_loc) ''closed'' 300 MOD_NONE], md_location = no_loc\<rparr>"

definition shapes :: schema where
  "shapes = \<lparr>sc_namespace = ''demo'', sc_declarations =
     [EnumDecl \<lparr>en_name = ''Color'', en_values =
          [\<lparr>ev_name = ''Red'', ev_value = 0, ev_location = no_loc\<rparr>,
           \<lparr>ev_name = ''Blue'', ev_value = 3, ev_location = no_loc\<rparr>],
        en_location = no_loc\<rparr>,
      ModelDecl point, ModelDecl shape], sc_location = no_loc\<rparr>"

definition triangle :: "slot list" where
  "triangle =
     [One (V_int 0),
      Rep [V_obj [One (V_int (- 1)), Opt None],
           V_obj [One (V_int 300), Opt (Some (V_str [65, 66]))]],
      One (V_int 1)]"

lemma shapes_ok:
  "valid_schema shapes" "ModelDecl shape \<in> set (sc_declarations shapes)"
  "slots_ok shapes (md_fields shape) triangle" "compile_header c shapes \<noteq> None"
  by code_simp+

lemma serialize_triangle:
  "serialize shapes shape triangle =
     Ret [10, 0, 18, 11, 8, 255, 255, 255, 255, 255, 255, 255, 255, 255, 1,
          18, 7, 8, 172, 2, 18, 2, 65, 66, 224, 18, 1]"
  by code_simp

section \<open>Round trips\<close>

lemma compiled_object_roundtrip:
  assumes "valid_schema s" "compile_header False s = Some rt" "ModelDecl m \<in> set (sc_declarations s)"
    and "slots_ok s (md_fields m) obj"
  shows "\<exists>start b. default_object rt (md_name m) = Some start \<and> serialize s m obj = Ret b \<and>
    (length b < 2 ^ 64 \<longrightarrow> (\<forall>fuel > length b. deserialize fuel rt m b start = Ret (True, obj)))"
proof -
  note rt = compiled_classes_ok [OF assms(1,2)]
  obtain start where start: "default_object rt (md_name m) = Some start" "fresh_slots s (md_fields m) start"
    and fs: "fields_ok (md_fields m)"
    using compiled_model [OF assms(1-3)] by blast
  obtain b where b: "ser_slots s (md_fields m) obj = Ret b" using ser_total(3) [OF assms(4)] by blast
  have "runs_to rt (md_fields m) b 0 start (length b) obj" if "length b < 2 ^ 64"
    using object_reads_all [OF rt(1), of obj] rt(2,3) fs assms(4) b that start(2)
    by (simp add: object_reads_def)
  then have "deserialize fuel rt m b start = Ret (True, obj)" if "length b < 2 ^ 64" "length b < fuel" for fuel
    using that by (auto simp: deserialize_def intro: runs_to_end)
  with start b show ?thesis by (auto simp: serialize_def)
qed




lemma unknown_field_examples:
  "unknown_field (md_fields shape) [40, 7]" "unknown_field (md_fields shape) [50, 1, 9]"
  "unknown_field (md_fields shape) [61, 1, 2, 3, 4]"
proof -
  have f: "fd_number ` set (md_fields shape) = {1, 2, 300}"
    by (auto simp: shape_def new_member_def new_field_def add_modifier_def)
  show "unknown_field (md_fields shape) [40, 7]"
    unfolding unknown_field_def f
    by (intro exI [of _ 5] exI [of _ 0] exI [of _ "[7]"])
      (auto simp: valid_number_def wire_payload_def number_tag_def tag_bytes_def varint_small intro: exI [of _ 7])
  show "unknown_field (md_fields shape) [50, 1, 9]"
    unfolding unknown_field_def f
    by (intro exI [of _ 6] exI [of _ 2] exI [of _ "[1, 9]"])
      (auto simp: valid_number_def wire_payload_def number_tag_def tag_bytes_def varint_small
        with_length_format intro: exI [of _ "[9]"])
  show "unknown_field (md_fields shape) [61, 1, 2, 3, 4]"
    unfolding unknown_field_def f
    by (intro exI [of _ 7] exI [of _ 5] exI [of _ "[1, 2, 3, 4]"])
      (auto simp: valid_number_def wire_payload_def number_tag_def tag_bytes_def varint_small)
qed

text \<open>The fields of \<open>triangle\<close>, and unknown fields before, between and after them.\<close>

definition triangle_fields :: "byte list list" where
  "triangle_fields =
     [[10, 0], [18, 11, 8, 255, 255, 255, 255, 255, 255, 255, 255, 255, 1, 18, 7, 8, 172, 2, 18, 2, 65, 66],
      [224, 18, 1]]"

definition strangers :: "byte list list" where
  "strangers = [[40, 7], [], [50, 1, 9], [61, 1, 2, 3, 4]]"


end
