(* ===== verification/Evolution.thy ===== *)
theory Evolution
  imports Runtime_Props
begin

unbundle bit_operations_syntax

text \<open>
  Messages between two versions of a schema: one program was compiled from the schema \<open>s\<close>, which reads, and
  another from the schema \<open>s'\<close>, which writes. Fields that both versions declare are transferred, fields that
  only the writer knows are skipped, and members that only the reader knows keep their default.
\<close>

section \<open>Declarations that agree\<close>

text \<open>Two versions are parsed from two texts, so they agree up to the locations; names of fields may differ.\<close>

fun like_type :: "ast_type \<Rightarrow> ast_type \<Rightarrow> bool" where
  "like_type (PrimitiveType k l) (PrimitiveType k' l') \<longleftrightarrow> k = k'"
| "like_type (UserType n l) (UserType n' l') \<longleftrightarrow> n = n'"
| "like_type t t' \<longleftrightarrow> False"

definition like_field :: "field \<Rightarrow> field \<Rightarrow> bool" where
  "like_field f g \<longleftrightarrow>
     like_type (fd_type f) (fd_type g) \<and> fd_number f = fd_number g \<and> fd_modifiers f = fd_modifiers g"

definition type_in :: "string set \<Rightarrow> ast_type \<Rightarrow> bool" where
  "type_in N t \<longleftrightarrow> (case t of PrimitiveType k l \<Rightarrow> True | UserType n l \<Rightarrow> n \<in> N)"

text \<open>The types in \<open>N\<close>, and all they use, are the same in both versions.\<close>

definition same_types :: "string set \<Rightarrow> schema \<Rightarrow> schema \<Rightarrow> bool" where
  "same_types N s s' \<longleftrightarrow>
     (\<forall>n \<in> N. is_enum_type s n = is_enum_type s' n \<and>
        (case (find_model s n, find_model s' n) of
           (None, None) \<Rightarrow> True
         | (Some m, Some m') \<Rightarrow>
             list_all2 like_field (md_fields m) (md_fields m') \<and>
             list_all (\<lambda>f. type_in N (fd_type f)) (md_fields m)
         | _ \<Rightarrow> False))"

lemma like_type_iff:
  "like_type t t' \<longleftrightarrow>
     (\<exists>k l l'. t = PrimitiveType k l \<and> t' = PrimitiveType k l') \<or>
     (\<exists>n l l'. t = UserType n l \<and> t' = UserType n l')"
  by (cases t; cases t') auto

lemma like_type_name: "like_type t t' \<Longrightarrow> get_name t = get_name t'"
  by (auto simp: like_type_iff)

lemma same_types_enum: "same_types N s s' \<Longrightarrow> n \<in> N \<Longrightarrow> is_enum_type s' n = is_enum_type s n"
  by (simp add: same_types_def)

lemma same_types_model:
  assumes "same_types N s s'" "n \<in> N"
  shows "(find_model s n = None \<and> find_model s' n = None) \<or>
    (\<exists>m m'. find_model s n = Some m \<and> find_model s' n = Some m' \<and>
       list_all2 like_field (md_fields m) (md_fields m') \<and> list_all (\<lambda>f. type_in N (fd_type f)) (md_fields m))"
proof -
  have "case (find_model s n, find_model s' n) of
      (None, None) \<Rightarrow> True
    | (Some m, Some m') \<Rightarrow>
        list_all2 like_field (md_fields m) (md_fields m') \<and> list_all (\<lambda>f. type_in N (fd_type f)) (md_fields m)
    | _ \<Rightarrow> False"
    using assms by (auto simp: same_types_def)
  then show ?thesis by (auto split: option.splits)
qed

lemma like_payload:
  assumes "same_types N s s'" "like_type t t'" "type_in N t"
  shows "item_payload s' t' = item_payload s t" and "plain_payload s' t' = plain_payload s t"
  using assms by (auto simp: like_type_iff item_payload_def plain_payload_def type_in_def same_types_enum)

lemma like_modifiers:
  assumes "like_field f g"
  shows "is_repeated g = is_repeated f" "is_optional g = is_optional f" "is_packed g = is_packed f"
    "is_bitmap g = is_bitmap f" "is_interned g = is_interned f" "mode_of g = mode_of f"
  using assms by (simp_all add: like_field_def is_mod_defs has_modifier_def mode_of_def)

lemma like_tags:
  assumes "like_field f g"
  shows "field_tag g = field_tag f" "packed_tag g = packed_tag f"
proof -
  have "get_wire_type_value (fd_type g) g = get_wire_type_value (fd_type f) f"
    using assms like_modifiers [OF assms]
    by (auto simp: like_field_def like_type_iff get_wire_type_value_def)
  with assms show "field_tag g = field_tag f" "packed_tag g = packed_tag f"
    by (simp_all add: field_tag_def packed_tag_def like_field_def)
qed

lemma like_writer:
  assumes "same_types N s s'" "like_field f g" "type_in N (fd_type f)"
  shows "writer_of s' g = writer_of s f"
proof -
  have t: "like_type (fd_type f) (fd_type g)" using assms(2) by (simp add: like_field_def)
  show ?thesis
    using like_payload [OF assms(1) t assms(3)] like_modifiers [OF assms(2)] like_tags [OF assms(2)] t
    by (auto simp: writer_of_def like_type_iff)
qed

section \<open>They write the same bytes\<close>

lemma writer_model:
  "writer_of s f = W_each tag P_model \<or> writer_of s f = W_optional tag P_model \<or> writer_of s f = W_plain tag P_model \<Longrightarrow>
     \<not> is_primitive (fd_type f)"
  by (cases "fd_type f")
    (auto simp: writer_of_def item_payload_def plain_payload_def split: if_splits)

lemma like_ser:
  "same_types N s s' \<Longrightarrow> like_type t t' \<Longrightarrow> type_in N t \<Longrightarrow> (p = P_model \<longrightarrow> \<not> is_primitive t) \<Longrightarrow>
     ser_value s' t' p v = ser_value s t p v"
  "same_types N s s' \<Longrightarrow> like_type t t' \<Longrightarrow> type_in N t \<Longrightarrow> (p = P_model \<longrightarrow> \<not> is_primitive t) \<Longrightarrow>
     ser_items s' t' tag p vs = ser_items s t tag p vs"
  "same_types N s s' \<Longrightarrow> like_field f g \<Longrightarrow> type_in N (fd_type f) \<Longrightarrow> ser_field s' g x = ser_field s f x"
  "same_types N s s' \<Longrightarrow> list_all2 like_field fs gs \<Longrightarrow> list_all (\<lambda>f. type_in N (fd_type f)) fs \<Longrightarrow>
     ser_slots s' gs xs = ser_slots s fs xs"
proof (induction s t p v and s t tag p vs and s f x and s fs xs arbitrary: t' and t' and g and gs
    rule: ser_value_ser_items_ser_field_ser_slots.induct)
  case (4 s t xs)
  then obtain n l where "t = UserType n l" by (cases t) auto
  then have n: "n \<in> N" "get_name t = n" "get_name t' = n"
    using 4(4) like_type_name [OF 4(3)] by (simp_all add: type_in_def)
  from same_types_model [OF 4(2) n(1)] show ?case
  proof (elim disjE exE conjE)
    fix m m'
    assume m: "find_model s n = Some m" "find_model s' n = Some m'"
      and like: "list_all2 like_field (md_fields m) (md_fields m')" "list_all (\<lambda>f. type_in N (fd_type f)) (md_fields m)"
    with 4(1) [of m "md_fields m'"] 4(2) n show ?thesis by simp
  qed (simp add: n)
next
  case (8 s f v)
  then show ?case using writer_model [of s f] by (auto simp: like_writer like_field_def split: writer.splits)
next
  case (10 s f v)
  then show ?case using writer_model [of s f] by (auto simp: like_writer like_field_def split: writer.splits)
next
  case (11 s f vs)
  then show ?case using writer_model [of s f] by (auto simp: like_writer like_field_def split: writer.splits)
qed (auto simp: like_writer list_all2_Cons1 split: writer.splits)

lemma like_ok:
  "same_types N s s' \<Longrightarrow> like_type t t' \<Longrightarrow> type_in N t \<Longrightarrow> value_ok s' t' v = value_ok s t v"
  "same_types N s s' \<Longrightarrow> like_field f g \<Longrightarrow> type_in N (fd_type f) \<Longrightarrow> slot_ok s' g x = slot_ok s f x"
  "same_types N s s' \<Longrightarrow> list_all2 like_field fs gs \<Longrightarrow> list_all (\<lambda>f. type_in N (fd_type f)) fs \<Longrightarrow>
     slots_ok s' gs xs = slots_ok s fs xs"
proof (induction s t v and s f x and s fs xs arbitrary: t' and g and gs rule: value_ok_slot_ok_slots_ok.induct)
  case (6 s n l xs)
  then have n: "n \<in> N" and t': "\<exists>l'. t' = UserType n l'" by (auto simp: type_in_def like_type_iff)
  from same_types_model [OF "6.prems"(1) n] show ?case
    using 6 t' same_types_enum [OF "6.prems"(1) n] by (auto simp: type_in_def)
next
  case (11 s f vs)
  have "list_all (value_ok s' (fd_type g)) vs = list_all (value_ok s (fd_type f)) vs"
    using 11 by (auto simp: list_all_iff like_field_def)
  then show ?case using like_modifiers [OF "11.prems"(2)] by simp
next
  case (13 s f fs x xs)
  then show ?case by (auto simp: list_all2_Cons1)
next
  case (15 s f fs)
  then show ?case by (auto simp: list_all2_Cons1)
qed (auto simp: like_type_iff like_field_def like_modifiers type_in_def same_types_enum)
section \<open>Fields that only the writer knows\<close>

text \<open>
  The fields whose wire type tells how long they are: not the enumerations, \<^verbatim>\<open>byte\<close> and the floating-point
  types, which are written as a number under another wire type, and not interned strings and bitmaps,
  whose wire types the reader does not skip.
\<close>

definition skippable :: "schema \<Rightarrow> field \<Rightarrow> bool" where
  "skippable s f \<longleftrightarrow>
     (if is_packed f then is_repeated f
      else \<not> is_bitmap f \<and> \<not> is_interned f \<and>
           (case fd_type f of
              PrimitiveType k l \<Rightarrow> k \<notin> {K_BYTE, K_FLOAT, K_DOUBLE}
            | UserType n l \<Rightarrow> \<not> is_enum_type s n))"

lemma integer_wire_type: "kind_range k i \<Longrightarrow> k \<noteq> K_BYTE \<Longrightarrow> kind_wire_type k = 0"
  by (cases k) auto

lemma skippable_payload:
  assumes skip: "skippable s f" "\<not> is_packed f" and ok: "value_ok s (fd_type f) v"
    and p: "payload_for s (fd_type f) p" and b: "ser_value s (fd_type f) p v = Ret b"
  shows "wire_payload (get_wire_type_value (fd_type f) f) b"
  using ok
proof (cases rule: value_ok_cases)
  case number
  obtain w :: "64 word" where "b = varint (unat w)" using ser_number [OF ok number p] b by auto
  moreover have "unat w < 2 ^ 64" using unsigned_less [of w, where ?'a = nat] by simp
  moreover have "get_wire_type_value (fd_type f) f = 0"
    using skip ok number
    by (cases "fd_type f"; cases v)
      (auto simp: skippable_def get_wire_type_value_def numeric_def integer_wire_type)
  ultimately show ?thesis by (auto simp: wire_payload_def)
next
  case (string l str)
  with skip p b show ?thesis
    by (auto simp: skippable_def get_wire_type_value_def wire_payload_def payload_for_def
        item_payload_def plain_payload_def)
next
  case (model n l m xs)
  with skip p b show ?thesis
    by (auto simp: skippable_def get_wire_type_value_def wire_payload_def payload_for_def
        item_payload_def plain_payload_def bindE_eq_Ret)
qed

lemma skippable_item:
  assumes "skippable s f" "\<not> is_packed f" "value_ok s (fd_type f) v" "payload_for s (fd_type f) p"
    "ser_value s (fd_type f) p v = Ret b" "valid_number (fd_number f)" "fd_number f \<notin> fd_number ` set fs"
  shows "unknown_field fs (tag_bytes (field_tag f) @ b)"
  unfolding unknown_field_def field_tag_def
  using skippable_payload [OF assms(1-5)] assms(6,7) wire_type_range by blast

lemma skippable_items:
  assumes "skippable s f" "\<not> is_packed f" "list_all (value_ok s (fd_type f)) vs" "payload_for s (fd_type f) p"
    "ser_items s (fd_type f) (field_tag f) p vs = Ret b" "valid_number (fd_number f)" "fd_number f \<notin> fd_number ` set fs"
  shows "unknown_fields fs b"
proof -
  obtain bs where b: "b = concat (map (\<lambda>x. tag_bytes (field_tag f) @ x) bs)"
    and bs: "list_all2 (\<lambda>v x. ser_value s (fd_type f) p v = Ret x) vs bs"
    using ser_items_split [OF assms(5)] by blast
  have "unknown_field fs (tag_bytes (field_tag f) @ x)" if "x \<in> set bs" for x
  proof -
    obtain i where "i < length bs" "x = bs ! i" using \<open>x \<in> set bs\<close> by (metis in_set_conv_nth)
    with bs assms(3) have "value_ok s (fd_type f) (vs ! i)" "ser_value s (fd_type f) p (vs ! i) = Ret x"
      by (auto simp: list_all2_conv_all_nth list_all_length)
    from skippable_item [OF assms(1,2) this(1) assms(4) this(2) assms(6,7)] show ?thesis .
  qed
  then show ?thesis unfolding unknown_fields_def b
    by (intro exI [of _ "map (\<lambda>x. tag_bytes (field_tag f) @ x) bs"]) (simp add: list_all_iff)
qed

lemma skippable_unknown:
  assumes "skippable s f" "slot_ok s f x" "ser_field s f x = Ret b"
    "valid_number (fd_number f)" "fd_number f \<notin> fd_number ` set fs"
  shows "unknown_fields fs b"
proof (cases "is_packed f")
  case True
  with assms(1,2) obtain vs where "x = Rep vs" "vs = []"
    by (cases x) (auto simp: skippable_def mode_of_def elim: slot_ok.elims)
  with assms(3) have "b = []" by (auto split: writer.splits)
  then show ?thesis by simp
next
  case False
  have "\<exists>p. ser_items s (fd_type f) (field_tag f) p (slot_values x) = Ret b \<and> payload_for s (fd_type f) p"
    using assms(2,3) False
    by (cases x) (auto simp: writer_payload payload_for_def split: option.splits)
  moreover have "list_all (value_ok s (fd_type f)) (slot_values x)"
    using assms(2) by (cases x) (auto split: option.splits)
  ultimately show ?thesis using skippable_items [OF assms(1) False _ _ _ assms(4,5)] by blast
qed

section \<open>Reading a message of another version\<close>

text \<open>Storing a written member in the reader's object.\<close>

definition put :: "field list \<Rightarrow> field \<times> slot \<Rightarrow> slot list \<Rightarrow> slot list" where
  "put R w obj =
     (case field_index R (word_of_int (fd_number (fst w))) of
        Some i \<Rightarrow> obj[i := snd w]
      | None \<Rightarrow> obj)"

text \<open>What the reader can do with a field of the writer.\<close>

definition readable_by :: "string set \<Rightarrow> schema \<Rightarrow> field list \<Rightarrow> field \<Rightarrow> bool" where
  "readable_by N s' R f \<longleftrightarrow>
     (\<exists>g \<in> set R. like_field g f \<and> type_in N (fd_type g)) \<or>
     fd_number f \<notin> fd_number ` set R \<and> skippable s' f"

lemma length_put [simp]: "length (put R w obj) = length obj"
  by (simp add: put_def split: option.split)

lemma field_index_bound: "field_index fs n = Some i \<Longrightarrow> i < length fs \<and> word_of_int (fd_number (fs ! i)) = n"
  by (induction fs arbitrary: i) (auto split: if_splits)

lemma readable_index:
  assumes R: "fields_ok R" and f: "valid_number (fd_number f)"
  shows "field_index R (word_of_int (fd_number f)) = Some i \<longleftrightarrow> i < length R \<and> fd_number (R ! i) = fd_number f"
proof
  assume i: "field_index R (word_of_int (fd_number f)) = Some i"
  note b = field_index_bound [OF i]
  moreover have "valid_number (fd_number (R ! i))" using R b by (auto simp: fields_ok_def)
  ultimately show "i < length R \<and> fd_number (R ! i) = fd_number f" using f by (metis valid_number_word)
next
  assume "i < length R \<and> fd_number (R ! i) = fd_number f"
  with field_index_nth [OF R, of i] show "field_index R (word_of_int (fd_number f)) = Some i" by simp
qed

lemma evolution_run:
  assumes rt: "classes_ok rt" "\<not> rt_checked rt" and same: "same_types N (rt_schema rt) s'"
    and R: "fields_ok R" and W: "fields_ok W" "list_all (readable_by N s' R) W"
    and ok: "slots_ok s' W xs" and b: "map2 (ser_field s') W xs = map Ret bs"
    and fresh: "\<And>f i. f \<in> set W \<Longrightarrow> i < length R \<Longrightarrow> fd_number (R ! i) = fd_number f \<Longrightarrow>
      fresh_slot (rt_schema rt) (R ! i) (obj ! i)"
    and obj: "length obj = length R" and size: "length (pre @ concat bs) < 2 ^ 64"
  shows "runs_to rt R (pre @ concat bs) (length pre) obj (length (pre @ concat bs)) (fold (put R) (zip W xs) obj)"
  using W ok b fresh obj size
proof (induction W arbitrary: xs bs obj pre)
  case Nil
  then show ?case by (cases xs) auto
next
  case (Cons f W)
  from Cons.prems(3) obtain x xs' where xs: "xs = x # xs'" by (cases xs) auto
  from Cons.prems(4) obtain c bs' where bs: "bs = c # bs'" and c: "ser_field s' f x = Ret c"
    and bs': "map2 (ser_field s') W xs' = map Ret bs'" by (auto simp: xs)
  have num: "valid_number (fd_number f)" using Cons.prems(1) by (simp add: fields_ok_def)
  have size: "length (pre @ c @ concat bs') < 2 ^ 64" using Cons.prems(7) by (simp add: bs)
  have head: "runs_to rt R (pre @ c @ concat bs') (length pre) obj (length (pre @ c)) (put R (f, x) obj)"
  proof (cases "\<exists>g \<in> set R. like_field g f \<and> type_in N (fd_type g)")
    case True
    then obtain i where i: "i < length R" and like: "like_field (R ! i) f" "type_in N (fd_type (R ! i))"
      by (auto simp: in_set_conv_nth)
    then have n: "fd_number (R ! i) = fd_number f" by (simp add: like_field_def)
    have "runs_to rt R (pre @ c @ concat bs') (length pre) obj (length (pre @ c)) (obj[i := x])"
    proof (rule field_runs [OF rt R i Cons.prems(6)])
      show "slot_ok (rt_schema rt) (R ! i) x"
        using Cons.prems(3) like_ok(2) [OF same like] by (simp add: xs)
      show "ser_field (rt_schema rt) (R ! i) x = Ret c" using c like_ser(3) [OF same like] by simp
      show "fresh_slot (rt_schema rt) (R ! i) (obj ! i)" using Cons.prems(5) [of f i] i n by simp
    qed (use object_reads_all [OF rt] size in auto)
    moreover have "field_index R (word_of_int (fd_number f)) = Some i" using readable_index [OF R num] i n by simp
    ultimately show ?thesis by (simp add: put_def)
  next
    case False
    then have new: "fd_number f \<notin> fd_number ` set R" "skippable s' f"
      using Cons.prems(2) by (auto simp: readable_by_def)
    have "unknown_fields R c" using skippable_unknown [OF new(2) _ c num new(1)] Cons.prems(3) by (simp add: xs)
    then show ?thesis
      using unknown_fields_run [OF R _ size, of rt obj] unknown_number [OF R num new(1)] by (simp add: put_def)
  qed
  have "runs_to rt R ((pre @ c) @ concat bs') (length (pre @ c)) (put R (f, x) obj)
      (length ((pre @ c) @ concat bs')) (fold (put R) (zip W xs') (put R (f, x) obj))"
  proof (rule Cons.IH)
    fix g i assume g: "g \<in> set W" "i < length R" "fd_number (R ! i) = fd_number g"
    then have "fd_number f \<noteq> fd_number (R ! i)" using Cons.prems(1) by (auto simp: fields_ok_def)
    then have "field_index R (word_of_int (fd_number f)) \<noteq> Some i" using readable_index [OF R num] by simp
    then have "put R (f, x) obj ! i = obj ! i" by (auto simp: put_def split: option.split)
    with Cons.prems(5) [of g i] g show "fresh_slot (rt_schema rt) (R ! i) (put R (f, x) obj ! i)" by simp
  qed (use Cons.prems bs' in \<open>auto simp: fields_ok_def xs bs\<close>)
  with runs_to_trans [OF head] show ?case by (simp add: xs bs)
qed

text \<open>The object that is read: what was written where the writer has the field, and the default elsewhere.\<close>

definition received :: "field list \<Rightarrow> slot list \<Rightarrow> field list \<Rightarrow> slot list \<Rightarrow> slot list" where
  "received W xs R start =
     map2 (\<lambda>g d. case map_of (zip (map fd_number W) xs) (fd_number g) of Some x \<Rightarrow> x | None \<Rightarrow> d) R start"

lemma fold_put_nth:
  assumes R: "fields_ok R" and W: "fields_ok W" "length xs = length W" "length obj = length R" and i: "i < length R"
  shows "fold (put R) (zip W xs) obj ! i =
    (case map_of (zip (map fd_number W) xs) (fd_number (R ! i)) of Some x \<Rightarrow> x | None \<Rightarrow> obj ! i)"
  using W
proof (induction W arbitrary: xs obj)
  case (Cons f W)
  then obtain x xs' where xs: "xs = x # xs'" by (cases xs) auto
  have W': "fields_ok W" using Cons.prems(1) by (auto simp: fields_ok_def)
  have num: "valid_number (fd_number f)" using Cons.prems(1) by (simp add: fields_ok_def)
  show ?case
  proof (cases "fd_number f = fd_number (R ! i)")
    case True
    then have "fd_number (R ! i) \<notin> set (map fd_number W)" using Cons.prems(1) by (auto simp: fields_ok_def)
    then have "map_of (zip (map fd_number W) xs') (fd_number (R ! i)) = None"
      using Cons.prems(2) by (simp add: map_of_zip_is_None xs)
    moreover have "put R (f, x) obj ! i = x"
      using readable_index [OF R num, of i] True i Cons.prems(3) by (simp add: put_def)
    ultimately show ?thesis using Cons.IH [of xs' "put R (f, x) obj"] Cons.prems W' True by (simp add: xs)
  next
    case False
    then have "field_index R (word_of_int (fd_number f)) \<noteq> Some i" using readable_index [OF R num] by simp
    then have "put R (f, x) obj ! i = obj ! i" by (auto simp: put_def split: option.split)
    with False show ?thesis
      using Cons.IH [of xs' "put R (f, x) obj"] Cons.prems W' by (simp add: xs cong: option.case_cong)
  qed
qed simp

lemma length_fold_put [simp]: "length (fold (put R) ws obj) = length obj"
  by (induction ws arbitrary: obj) simp_all

lemma fold_put_received:
  assumes "fields_ok R" "fields_ok W" "length xs = length W" "length obj = length R"
  shows "fold (put R) (zip W xs) obj = received W xs R obj"
  by (rule nth_equalityI) (use fold_put_nth [OF assms] assms in \<open>auto simp: received_def\<close>)

lemma slots_ok_length: "slots_ok s fs xs \<Longrightarrow> length xs = length fs"
  by (induction fs arbitrary: xs) (auto elim: slots_ok.elims)


text \<open>A version of \<open>shapes\<close> whose \<open>Shape\<close> has lost the member \<open>closed\<close> and gained \<open>note\<close>.\<close>

definition shape2 :: model_decl where
  "shape2 = \<lparr>md_name = ''Shape'', md_fields =
     [new_member (PrimitiveType K_STRING no_loc) ''note'' 5 MOD_NONE,
      new_member (UserType ''Point'' no_loc) ''corners'' 2 MOD_REPEATED,
      new_member (UserType ''Color'' no_loc) ''color'' 1 MOD_NONE], md_location = no_loc\<rparr>"

definition shapes2 :: schema where
  "shapes2 = shapes\<lparr>sc_declarations := butlast (sc_declarations shapes) @ [ModelDecl shape2]\<rparr>"


end
