(* ===== verification/Runtime_Limits.thy ===== *)
theory Runtime_Limits
  imports Runtime_Props
begin

unbundle bit_operations_syntax

text \<open>
  The bounds of what the emitted classes promise: when the reading loop ends, what its result says,
  which headers compile, and the inputs and members the emitted code does not handle.
\<close>

section \<open>Results of reading\<close>

lemma read_field_goes_on:
  assumes "\<And>fs' d o' xs. g fs' d o' \<noteq> Ret (False, xs)"
  shows "read_field rt g f data pos x \<noteq> Ret (False, r)"
  using assms
  by (auto simp: read_field_def bindE_eq_Ret split: reader.splits if_splits option.splits)

lemma deser_never_false: "deser fuel rt fs data pos obj \<noteq> Ret (False, x)"
proof (induction fuel arbitrary: fs data pos obj x)
  case (Suc fuel)
  have "read_field rt (\<lambda>fs' d o'. deser fuel rt fs' d 0 o') f data p y \<noteq> Ret (False, r)" for f p y r
    by (rule read_field_goes_on) (rule Suc)
  with Suc show ?case
    by (auto simp: deser.simps(2) bindE_eq_Ret Let_def split: option.splits if_splits)
qed simp

text \<open>
  More fuel never changes a result: the fuel of \<open>deser\<close> is only a bound on its steps.
\<close>

lemma read_field_more_fuel:
  assumes "\<And>fs' d o'. g fs' d o' \<noteq> Fuel \<Longrightarrow> h fs' d o' = g fs' d o'" "read_field rt g f data pos x \<noteq> Fuel"
  shows "read_field rt h f data pos x = read_field rt g f data pos x"
proof (cases "reader_of (rt_schema rt) f")
  case (R_model n)
  have "bindE (h fs' d o') k = bindE (g fs' d o') k" if "bindE (g fs' d o') k \<noteq> Fuel" for fs' d o' and k :: "_ \<Rightarrow> 'a exec"
    using that assms(1) [of fs' d o'] by (auto simp: bindE_eq_Fuel)
  with assms(2) R_model show ?thesis
    by (cases "read_varint data pos") (auto simp: read_field_def split: option.splits if_splits)
qed (simp_all add: read_field_def)

text \<open>One iteration, for a known and for an unknown field.\<close>

lemma deser_known:
  assumes "pos < length data" "read_varint data pos = Ret (tag, p)"
    "field_index fs (ucast (drop_bit 3 tag)) = Some i"
  shows "deser (Suc n) rt fs data pos obj =
    bindE (read_field rt (\<lambda>fs' d o'. deser n rt fs' d 0 o') (fs ! i) data p (obj ! i))
      (\<lambda>(go, pos2, x). if go then deser n rt fs data pos2 (obj[i := x]) else Ret (False, obj[i := x]))"
  using assms by (simp add: deser.simps(2))

lemma deser_unknown:
  assumes "pos < length data" "read_varint data pos = Ret (tag, p)"
    "field_index fs (ucast (drop_bit 3 tag)) = None"
  shows "deser (Suc n) rt fs data pos obj =
    bindE (skip_unknown (ucast (tag AND 0x7)) data p) (\<lambda>pos2. deser n rt fs data pos2 obj)"
  using assms by (simp add: deser.simps(2))

lemma deser_other:
  "\<not> pos < length data \<Longrightarrow> deser (Suc n) rt fs data pos obj = Ret (True, obj)"
  "pos < length data \<Longrightarrow> read_varint data pos = Undef \<Longrightarrow> deser (Suc n) rt fs data pos obj = Undef"
  by (simp_all add: deser.simps(2))

lemma deser_cases:
  obtains (finished) "\<not> pos < length data" | (undef) "pos < length data" "read_varint data pos = Undef"
  | (known) tag p i where "pos < length data" "read_varint data pos = Ret (tag, p)"
      "field_index fs (ucast (drop_bit 3 tag)) = Some i"
  | (unknown) tag p where "pos < length data" "read_varint data pos = Ret (tag, p)"
      "field_index fs (ucast (drop_bit 3 tag)) = None"
proof (cases "read_varint data pos")
  case (Ret r)
  with that show thesis by (cases r; cases "field_index fs (ucast (drop_bit 3 (fst r)))") auto
qed (use that read_loop_no_fuel in \<open>auto simp: read_varint_def\<close>)

lemma deser_more_fuel:
  "deser n rt fs data pos obj \<noteq> Fuel \<Longrightarrow> deser (Suc n) rt fs data pos obj = deser n rt fs data pos obj"
proof (induction n arbitrary: fs data pos obj)
  case (Suc n)
  let ?read = "\<lambda>n i p. read_field rt (\<lambda>fs' d o'. deser n rt fs' d 0 o') (fs ! i) data p (obj ! i)"
  have field: "?read (Suc n) i p = ?read n i p" if "?read n i p \<noteq> Fuel" for i p
    by (rule read_field_more_fuel [OF _ that]) (rule Suc.IH)
  show ?case
  proof (cases rule: deser_cases [where pos = pos and data = data and fs = fs])
    case (known tag p i)
    with Suc.prems have go: "?read n i p \<noteq> Fuel" by (auto simp: deser_known)
    from Suc.prems field [OF go] Suc.IH show ?thesis
      unfolding deser_known [OF known]
      by (cases "?read n i p") (auto split: if_splits)
  next
    case (unknown tag p)
    from Suc show ?thesis
      unfolding deser_unknown [OF unknown] by (cases "skip_unknown (ucast (tag AND 0x7)) data p") auto
  qed (simp_all add: deser_other)
qed simp

lemma deser_same_result:
  assumes "deser n rt fs data pos obj \<noteq> Fuel" "n \<le> k"
  shows "deser k rt fs data pos obj = deser n rt fs data pos obj"
  using assms(2)
proof (induction k rule: dec_induct)
  case (step k)
  with assms(1) deser_more_fuel show ?case by metis
qed simp

section \<open>Termination\<close>

text \<open>
  \<open>pos += length\<close> does not wrap around, for any number that stands somewhere in the bytes.
\<close>

definition no_wrap :: "byte list \<Rightarrow> bool" where
  "no_wrap data \<longleftrightarrow>
     (\<forall>i j pos w p. pos \<le> length data \<longrightarrow>
        read_varint (take j (drop i data)) pos = Ret (w, p) \<longrightarrow> p + unat w < 2 ^ 64)"

lemma no_wrap_part: "no_wrap data \<Longrightarrow> no_wrap (take j (drop i data))"
  unfolding no_wrap_def
proof (intro allI impI)
  fix i' j' pos w p
  assume ok: "\<forall>i j pos w p. pos \<le> length data \<longrightarrow>
      read_varint (take j (drop i data)) pos = Ret (w, p) \<longrightarrow> p + unat w < 2 ^ 64"
    and pos: "pos \<le> length (take j (drop i data))"
    and r: "read_varint (take j' (drop i' (take j (drop i data)))) pos = Ret (w, p)"
  have "take j' (drop i' (take j (drop i data))) = take (min j' (j - i')) (drop (i' + i) data)"
    by (simp add: drop_take)
  moreover have "pos \<le> length data" using pos by auto
  ultimately show "p + unat w < 2 ^ 64" using ok r by metis
qed

lemma no_wrap_read: "no_wrap data \<Longrightarrow> pos \<le> length data \<Longrightarrow> read_varint data pos = Ret (w, p) \<Longrightarrow> p + unat w < 2 ^ 64"
  unfolding no_wrap_def by (metis drop0 take_all order_refl)

lemma skip_varint_pos: "pos \<le> skip_varint data pos"
proof (induction data pos rule: skip_varint.induct)
  case (1 data pos)
  then show ?case by (subst skip_varint.simps) auto
qed

lemma skip_unknown_pos:
  assumes "no_wrap data" "length data + 8 < 2 ^ 64" "pos \<le> length data"
    "skip_unknown w data pos = Ret q"
  shows "pos \<le> q"
  using assms skip_varint_pos [of pos data] no_wrap_read [OF assms(1)] read_loop_pos
  by (fastforce simp: skip_unknown_def bindE_eq_Ret advance_pos_def read_varint_def split: if_splits)

lemma read_field_pos:
  assumes "length data < 2 ^ 64" "pos \<le> length data" "read_field rt g f data pos x = Ret (True, q, y)"
  shows "pos \<le> q"
  using assms read_loop_pos
  by (fastforce simp: read_field_def bindE_eq_Ret advance_pos_def read_varint_def
      split: reader.splits if_splits option.splits)

lemma read_field_ends:
  assumes "\<And>fs' p w o'. pos \<le> p \<Longrightarrow> g fs' (take w (drop p data)) o' \<noteq> Fuel"
  shows "read_field rt g f data pos x \<noteq> Fuel"
proof -
  have "read_varint data pos \<noteq> Fuel" using read_loop_no_fuel by (simp add: read_varint_def)
  moreover have "pos \<le> p" if "read_varint data pos = Ret (w, p)" for w p
    using that read_loop_pos by (auto simp: read_varint_def)
  ultimately show ?thesis
    using assms by (auto simp: read_field_def bindE_eq_Fuel split: reader.splits option.splits)
qed

lemma deser_ends:
  "no_wrap data \<Longrightarrow> length data + 8 < 2 ^ 64 \<Longrightarrow> length data - pos < fuel \<Longrightarrow>
     deser fuel rt fs data pos obj \<noteq> Fuel"
proof (induction fuel arbitrary: fs data pos obj)
  case (Suc n)
  show ?case
  proof (cases rule: deser_cases [where pos = pos and data = data and fs = fs])
    case (known tag p i)
    let ?read = "read_field rt (\<lambda>fs' d o'. deser n rt fs' d 0 o') (fs ! i) data p (obj ! i)"
    have p: "pos < p" "p \<le> length data" using read_varint_pos [OF known(2,1)] by simp_all
    have "?read \<noteq> Fuel"
    proof (rule read_field_ends)
      fix fs' q w o' assume "p \<le> q"
      with p known(1) Suc.prems show "deser n rt fs' (take w (drop q data)) 0 o' \<noteq> Fuel"
        by (intro Suc.IH no_wrap_part) auto
    qed
    moreover have "deser n rt fs data q y \<noteq> Fuel" if "?read = Ret (True, q, x)" for q x y
      using Suc.prems known(1) p read_field_pos [OF _ p(2) that] by (intro Suc.IH) auto
    ultimately show ?thesis
      unfolding deser_known [OF known] by (auto simp: bindE_eq_Fuel)
  next
    case (unknown tag p)
    have p: "pos < p" "p \<le> length data" using read_varint_pos [OF unknown(2,1)] by simp_all
    have "skip_unknown w data p \<noteq> Fuel" for w
      using read_loop_no_fuel by (auto simp: skip_unknown_def bindE_eq_Fuel read_varint_def)
    moreover have "deser n rt fs data q obj \<noteq> Fuel" if "skip_unknown w data p = Ret q" for w q
      using Suc.prems unknown(1) p skip_unknown_pos [OF Suc.prems(1,2) p(2) that] by (intro Suc.IH) auto
    ultimately show ?thesis
      unfolding deser_unknown [OF unknown] by (auto simp: bindE_eq_Fuel)
  qed (simp_all add: deser_other)
qed simp

lemma or_bound: "unat v < 2 ^ n \<Longrightarrow> unat w < 2 ^ n \<Longrightarrow> unat (v OR w) < 2 ^ n" for v w :: "64 word"
  by (simp add: unsigned_or_eq flip: take_bit_nat_eq_self_iff)

lemma push_bound: "unat w < 2 ^ n \<Longrightarrow> unat (push_bit s w) < 2 ^ (s + n)" for w :: "64 word"
proof -
  assume "unat w < 2 ^ n"
  then have "unat w * 2 ^ s < 2 ^ n * 2 ^ s" by simp
  moreover have "unat (push_bit s w) \<le> unat w * 2 ^ s"
    by (simp only: unsigned_push_bit_eq take_bit_eq_mod push_bit_eq_mult [of s "unat w"] mod_less_eq_dividend)
  ultimately show ?thesis unfolding power_add mult.commute [of "2 ^ s"] by linarith
qed

lemma group_bound:
  "unat v < 2 ^ s \<Longrightarrow> unat (v OR push_bit s (ucast (b AND 0x7F))) < 2 ^ (s + 7)"
  for v :: "64 word" and b :: byte
proof -
  assume "unat v < 2 ^ s"
  then have "unat v < 2 ^ (s + 7)" by (rule less_le_trans) (simp add: power_add)
  moreover have "unat (ucast (b AND 0x7F) :: 64 word) < 2 ^ 7"
    unfolding low_bits by (subst unat_of_nat_64) (auto intro: less_trans [of _ 128])
  ultimately show ?thesis using push_bound or_bound by blast
qed

lemma read_loop_bound:
  "read_loop data pos v s = Ret (w, p) \<Longrightarrow> unat v < 2 ^ s \<Longrightarrow> unat w < 2 ^ (s + 7 * (p - pos))"
proof (induction data pos v s rule: read_loop.induct)
  case (1 data pos v s)
  show ?case
  proof (cases "pos < length data \<and> s < 64 \<and> data ! pos AND 0x80 \<noteq> 0")
    case True
    then have rest: "read_loop data (pos + 1) (v OR push_bit s (ucast (data ! pos AND 0x7F))) (s + 7) = Ret (w, p)"
      using "1.prems" by (simp add: read_loop.simps [of data pos v s] Let_def)
    with True "1.IH" [OF _ refl _ refl _ rest] group_bound [OF "1.prems"(2)]
    have "unat w < 2 ^ (s + 7 + 7 * (p - (pos + 1)))" by simp
    moreover have "pos < p" using read_loop_pos [OF rest] by simp
    ultimately show ?thesis by (auto simp: algebra_simps elim!: less_le_trans intro!: power_increasing)
  next
    case False
    with "1.prems" group_bound [OF "1.prems"(2)] show ?thesis
      by (auto simp: read_loop.simps [of data pos v s] Let_def split: if_splits)
  qed
qed

lemma no_wrap_short:
  assumes "length data \<le> 8"
  shows "no_wrap data"
  unfolding no_wrap_def
proof (intro allI impI)
  fix i j pos w p
  let ?d = "take j (drop i data)"
  assume pos: "pos \<le> length data" and r: "read_varint ?d pos = Ret (w, p)"
  have len: "length ?d \<le> 8" using assms by simp
  show "p + unat w < 2 ^ 64"
  proof (cases "pos < length ?d")
    case True
    then have p: "p \<le> 8" using read_varint_pos [OF r] len by linarith
    have "unat w < 2 ^ (7 * (p - pos))" using read_loop_bound [of ?d pos 0 0 w p] r by (simp add: read_varint_def)
    also have "\<dots> \<le> 2 ^ 56" using p by (intro power_increasing) auto
    finally show ?thesis using p by simp
  next
    case False
    then have "w = 0" "p = pos" using r by (auto simp: read_varint_def read_loop.simps [of ?d])
    then show ?thesis using pos assms by simp
  qed
qed



section \<open>Which headers compile\<close>

text \<open>Every type a model uses is declared before it; a vector may have the model itself as items.\<close>

definition used_before :: "string set \<Rightarrow> string \<Rightarrow> field \<Rightarrow> bool" where
  "used_before names self f \<longleftrightarrow>
     is_primitive (fd_type f) \<or> get_name (fd_type f) \<in> names \<or> is_repeated f \<and> get_name (fd_type f) = self"

definition declared_in_order :: "string set \<Rightarrow> decl list \<Rightarrow> bool" where
  "declared_in_order names ds \<longleftrightarrow>
     (\<forall>pre m post f. ds = pre @ ModelDecl m # post \<longrightarrow> f \<in> set (md_fields m) \<longrightarrow>
        used_before (names \<union> decl_name ` set pre) (md_name m) f)"

lemma default_slot_defined: "default_slot env self f \<noteq> None \<longleftrightarrow> used_before (dom env) self f"
  by (auto simp: default_slot_def used_before_def split: ast_type.splits option.splits class_info.splits)

lemma collect_defined: "collect xs \<noteq> None \<longleftrightarrow> (\<forall>x \<in> set xs. x \<noteq> None)"
  by (induction xs rule: collect.induct) auto

lemma declared_in_order_Cons:
  "declared_in_order names (d # ds) \<longleftrightarrow>
     (\<forall>m f. d = ModelDecl m \<longrightarrow> f \<in> set (md_fields m) \<longrightarrow> used_before names (md_name m) f) \<and>
     declared_in_order (insert (decl_name d) names) ds"
    (is "?l \<longleftrightarrow> ?now \<and> ?later")
proof (intro iffI conjI)
  assume ?l
  then show ?now unfolding declared_in_order_def by (metis Un_empty_right append_Nil empty_set image_empty)
  show ?later unfolding declared_in_order_def
  proof (intro allI impI)
    fix pre m post f assume "ds = pre @ ModelDecl m # post" "f \<in> set (md_fields m)"
    with \<open>?l\<close> have "used_before (names \<union> decl_name ` set (d # pre)) (md_name m) f"
      unfolding declared_in_order_def by (metis append_Cons)
    then show "used_before (insert (decl_name d) names \<union> decl_name ` set pre) (md_name m) f" by simp
  qed
next
  assume now: "?now \<and> ?later"
  show ?l unfolding declared_in_order_def
  proof (intro allI impI)
    fix pre m post f assume ds: "d # ds = pre @ ModelDecl m # post" and f: "f \<in> set (md_fields m)"
    show "used_before (names \<union> decl_name ` set pre) (md_name m) f"
    proof (cases pre)
      case Nil
      with ds f now show ?thesis by simp
    next
      case (Cons d' pre')
      then have "d' = d" "ds = pre' @ ModelDecl m # post" using ds by auto
      with f now have "used_before (insert (decl_name d) names \<union> decl_name ` set pre') (md_name m) f"
        unfolding declared_in_order_def by blast
      with Cons \<open>d' = d\<close> show ?thesis by simp
    qed
  qed
qed

lemma class_env_defined: "class_env ds env \<noteq> None \<longleftrightarrow> declared_in_order (dom env) ds"
proof (induction ds arbitrary: env)
  case Nil
  then show ?case by (simp add: declared_in_order_def)
next
  case (Cons d ds)
  show ?case
  proof (cases d)
    case (EnumDecl e)
    then show ?thesis
      unfolding declared_in_order_Cons using Cons [of "env(en_name e \<mapsto> Enum_class)"] by (simp del: fun_upd_apply)
  next
    case (ModelDecl m)
    let ?c = "collect (map (default_slot env (md_name m)) (md_fields m))"
    have c: "?c \<noteq> None \<longleftrightarrow> (\<forall>f \<in> set (md_fields m). used_before (dom env) (md_name m) f)"
      unfolding collect_defined using default_slot_defined by auto
    show ?thesis
    proof (cases ?c)
      case None
      with c ModelDecl show ?thesis unfolding declared_in_order_Cons by auto
    next
      case (Some xs)
      with c ModelDecl show ?thesis
        unfolding declared_in_order_Cons using Cons [of "env(md_name m \<mapsto> Model_class xs)"] by (simp del: fun_upd_apply)
    qed
  qed
qed

lemma compiled_header_iff:
  "(\<exists>rt. compile_header checked s = Some rt) \<longleftrightarrow> names_ok s \<and> declared_in_order {} (sc_declarations s)"
  using class_env_defined [of "sc_declarations s" Map.empty] by (auto simp: compile_header_def)


text \<open>A valid schema whose header does not compile: a model is used before its declaration.\<close>

definition forward_schema :: schema where
  "forward_schema = shapes\<lparr>sc_declarations := rev (sc_declarations shapes)\<rparr>"

theorem forward_reference_does_not_compile:
  "valid_schema forward_schema \<and> names_ok forward_schema \<and> compile_header checked forward_schema = None"
  by code_simp

section \<open>Members that are never initialised\<close>

lemma ser_slots_undef:
  "i < length fs \<Longrightarrow> ser_field s (fs ! i) (xs ! i) = Undef \<Longrightarrow> \<nexists>b. ser_slots s fs xs = Ret b"
proof (induction fs arbitrary: xs i)
  case (Cons f fs)
  then show ?case by (cases xs; cases i) (auto simp: bindE_eq_Ret)
qed simp

text \<open>
  C38: A plain member of an enumeration type has no initialiser: no default-constructed object of the
  class can be serialized, since that reads an indeterminate value.
\<close>

theorem default_enum_member_not_serializable:
  assumes "valid_schema s" "compile_header checked s = Some rt" "ModelDecl m \<in> set (sc_declarations s)"
    and "f \<in> set (md_fields m)" "mode_of f = M_assign" "fd_type f = UserType n l" "is_enum_type s n"
    and "default_object rt (md_name m) = Some start"
  shows "\<nexists>b. serialize s m start = Ret b"
proof -
  obtain i where i: "i < length (md_fields m)" "md_fields m ! i = f"
    using assms(4) by (auto simp: in_set_conv_nth)
  have "fresh_slots s (md_fields m) start" using compiled_model [OF assms(1-3)] assms(8) by auto
  from fresh_slots_nth [OF this i(1)] have "fresh_slot s f (start ! i)" by (simp add: i)
  then have "start ! i = One V_indet"
    using assms(5-7) by (cases "start ! i") (auto elim!: fresh_value.elims)
  then have "ser_field s (md_fields m ! i) (start ! i) = Undef"
    using assms(5-7) by (simp add: i writer_payload plain_payload_def)
  from ser_slots_undef [OF i(1) this] show ?thesis by (simp add: serialize_def)
qed

theorem default_enum_member_not_serializable_witness:
  "\<exists>rt start. compile_header False shapes = Some rt \<and> default_object rt ''Shape'' = Some start \<and>
     \<not> (\<exists>b. serialize shapes shape start = Ret b)"
proof -
  obtain rt where rt: "compile_header False shapes = Some rt" using shapes_ok(4) by blast
  have name: "md_name shape = ''Shape''" by (simp add: shape_def)
  obtain start where start: "default_object rt (md_name shape) = Some start"
    using compiled_model [OF shapes_ok(1) rt shapes_ok(2)] by blast
  have f: "hd (md_fields shape) \<in> set (md_fields shape)" "mode_of (hd (md_fields shape)) = M_assign"
    "fd_type (hd (md_fields shape)) = UserType ''Color'' no_loc" "is_enum_type shapes ''Color''"
    by code_simp+
  from default_enum_member_not_serializable [OF shapes_ok(1) rt shapes_ok(2) f start] show ?thesis
    using rt start unfolding name by blast
qed

section \<open>Input that is not checked\<close>

lemma deser_first_field:
  assumes "fields_ok fs" "i < length fs" "drop_bit 3 tag = word_of_int (fd_number (fs ! i))"
  shows "deser (Suc n) rt fs (tag_bytes tag @ b) 0 obj =
    bindE (read_field rt (\<lambda>fs' d o'. deser n rt fs' d 0 o') (fs ! i) (tag_bytes tag @ b) (length (tag_bytes tag)) (obj ! i))
      (\<lambda>(go, pos2, x). if go then deser n rt fs (tag_bytes tag @ b) pos2 (obj[i := x]) else Ret (False, obj[i := x]))"
proof (rule deser_known)
  have "tag_bytes tag \<noteq> []" by (simp add: tag_bytes_def)
  then show "0 < length (tag_bytes tag @ b)" by simp
  show "read_varint (tag_bytes tag @ b) 0 = Ret (ucast tag, length (tag_bytes tag))"
    using read_tag [of "[]"] by simp
  show "field_index fs (ucast (drop_bit 3 (ucast tag :: 64 word))) = Some i"
    using field_index_nth [OF assms(1,2)] by (simp add: tag_parts assms(3))
qed



text \<open>The tag of field 5, wire type 2, and the length \<open>2 ^ 64 - 11\<close>.\<close>

definition endless :: "byte list" where
  "endless = [42, 245, 255, 255, 255, 255, 255, 255, 255, 255, 1]"

text \<open>
  C37: A reader that meets an unknown field whose length takes the position back to the start of the field
  never ends: eleven bytes that no amount of steps reads, for every class without a field 5.
\<close>

theorem deserialize_may_diverge:
  assumes "fields_ok (md_fields m)" "5 \<notin> fd_number ` set (md_fields m)"
  shows "deserialize fuel rt m endless obj = Fuel"
proof -
  have bytes: "endless = [42] @ varint 18446744073709551605 @ []"
    by (simp add: endless_def varint.simps)
  have "read_varint endless 1 = Ret (18446744073709551605, 11)"
    unfolding bytes using read_varint_at [of 18446744073709551605 "[42]" "[]"] by (simp add: varint.simps)
  then have skip: "skip_unknown (ucast ((42 :: 64 word) AND 0x7)) endless 1 = Ret 0"
    by (simp add: skip_unknown_def advance_pos_def)
  have r: "read_varint endless 0 = Ret (42, 1)" "0 < length endless" by code_simp+
  have "field_index (md_fields m) (word_of_int 5) = None"
    using unknown_number [OF assms(1) _ assms(2)] by (simp add: valid_number_def)
  moreover have "ucast (drop_bit 3 (42 :: 64 word)) = (word_of_int 5 :: 32 word)" by code_simp
  ultimately have "field_index (md_fields m) (ucast (drop_bit 3 (42 :: 64 word))) = None" by simp
  note step = deser_unknown [OF r(2,1) this]
  have "deser fuel rt (md_fields m) endless 0 obj = Fuel"
    by (induction fuel) (simp_all only: deser.simps(1) step skip bindE_simps)
  then show ?thesis by (simp add: deserialize_def)
qed

theorem deserialize_may_diverge_witness:
  "valid_schema shapes \<and> ModelDecl shape \<in> set (sc_declarations shapes) \<and>
   deserialize 1000 \<lparr>rt_schema = shapes, rt_classes = Map.empty, rt_checked = False\<rparr> shape endless [] = Fuel"
proof -
  have "5 \<notin> fd_number ` set (md_fields shape)"
    by (auto simp: shape_def new_member_def new_field_def add_modifier_def)
  with deserialize_may_diverge [OF valid_model_fields [OF shapes_ok(1,2)]] show ?thesis
    using shapes_ok(1,2) by blast
qed

section \<open>Members the format does not carry\<close>

text \<open>
  C40: A floating-point member is converted to an integer: every \<^verbatim>\<open>float\<close> and every \<^verbatim>\<open>double\<close> between \<open>-1\<close> and
  \<open>1\<close> (a biased exponent below 127 and 1023) is written as the byte 0, and read back as zero.
\<close>

theorem fractions_are_lost:
  assumes "unat p div 2 ^ 23 mod 2 ^ 8 < 127" "unat q div 2 ^ 52 mod 2 ^ 11 < 1023"
  shows "ser_value s t P_number (V_float p) = Ret [0] \<and> ser_value s t P_number (V_double q) = Ret [0] \<and>
    (\<forall>rest. read_varint (0 # rest) 0 = Ret (0, 1)) \<and>
    store_cast (PrimitiveType K_FLOAT l) 0 = V_float 0 \<and> store_cast (PrimitiveType K_DOUBLE l) 0 = V_double 0"
proof -
  have "number_of (V_float p) = Ret 0"
    using float_to_u64_fraction [of 8 "unat p" 23] assms(1) by simp
  moreover have "number_of (V_double q) = Ret 0"
    using float_to_u64_fraction [of 11 "unat q" 52] assms(2) by simp
  moreover have "write_varint [] 0 = [0]" by (simp add: write_varint_format varint_small)
  moreover have "read_varint (0 # rest) 0 = Ret (0, 1)" for rest
    using read_varint_at [of 0 "[]" rest] by (simp add: varint_small)
  ultimately show ?thesis by simp
qed

text \<open>\<open>0.5\<close> in both formats.\<close>

theorem fractions_are_lost_witness:
  "ser_value shapes (PrimitiveType K_FLOAT no_loc) P_number (V_float 0x3F000000) = Ret [0] \<and>
   ser_value shapes (PrimitiveType K_FLOAT no_loc) P_number (V_double 0x3FE0000000000000) = Ret [0]"
  using fractions_are_lost [of "0x3F000000" "0x3FE0000000000000" shapes "PrimitiveType K_FLOAT no_loc"] by simp


definition samples :: model_decl where
  "samples = \<lparr>md_name = ''Samples'', md_fields =
     [new_member (PrimitiveType K_INT32 no_loc) ''xs'' 1 (MOD_REPEATED OR MOD_PACKED)], md_location = no_loc\<rparr>"


text \<open>
  An enumeration has the wire type of a length-delimited field, but is written as a number. A reader
  that does not know the field takes the number for a length: here it loses the field that follows.
\<close>

definition old_shape :: model_decl where
  "old_shape = shape\<lparr>md_fields := tl (tl (md_fields shape))\<rparr>"

theorem unknown_enum_field_swallows_the_next:
  "serialize shapes shape [One (V_int 3), Rep [], One (V_int 1)] = Ret [10, 3, 224, 18, 1] \<and>
   deserialize 6 \<lparr>rt_schema = shapes, rt_classes = Map.empty, rt_checked = False\<rparr> old_shape
     [10, 3, 224, 18, 1] [One (V_int 0)] = Ret (True, [One (V_int 0)])"
  by code_simp

text \<open>
  An empty string at the end of a message: the address behind the last byte is taken with an index, which
  a standard library that checks indices refuses.
\<close>

theorem trailing_empty_string_undefined_when_checked:
  "serialize shapes point [One (V_int 1), Opt (Some (V_str []))] = Ret [8, 1, 18, 0] \<and>
   deserialize 5 \<lparr>rt_schema = shapes, rt_classes = Map.empty, rt_checked = True\<rparr> point
     [8, 1, 18, 0] [One (V_int 0), Opt None] = Undef"
  by code_simp

end
