(* ===== verification/Driver.thy ===== *)
theory Driver
  imports Codegen_Spec Arg_Spec
begin

text \<open>
  The command \<^verbatim>\<open>serialkit\<close> (\<^verbatim>\<open>compiler/main.cpp\<close>): option registration, the pipeline of
  \<^verbatim>\<open>compile_schema\<close> and the exception handler of \<^verbatim>\<open>main\<close>. The operating system is an argument: how
  files are read and written and directories created, given what has happened so far. The observable
  state is what the run wrote to its two output streams, to files and which directories it made.
\<close>

section \<open>The world of a run\<close>

record world =
  w_stdout :: string
  w_stderr :: string
  w_files :: "string \<rightharpoonup> string"
  w_dirs :: "string list"

text \<open>
  \<open>os_read\<close>: the contents of a file, \<open>None\<close> when it cannot be opened. \<open>os_write\<close>: what a file holds
  after writing the given contents to it, \<open>None\<close> when it cannot be opened. \<open>os_exists\<close> and
  \<open>os_create\<close>: the result of \<^verbatim>\<open>exists\<close> and \<^verbatim>\<open>create_directories\<close> with the message of the error code,
  if one is set.
\<close>

record os =
  os_read :: "world \<Rightarrow> string \<Rightarrow> string option"
  os_write :: "world \<Rightarrow> string \<Rightarrow> string \<Rightarrow> string option"
  os_exists :: "world \<Rightarrow> string \<Rightarrow> bool \<times> string option"
  os_create :: "world \<Rightarrow> string \<Rightarrow> bool \<times> string option"

definition cout :: "string \<Rightarrow> world \<Rightarrow> world" where
  "cout text w = w\<lparr>w_stdout := w_stdout w @ text\<rparr>"

definition cerr :: "string \<Rightarrow> world \<Rightarrow> world" where
  "cerr text w = w\<lparr>w_stderr := w_stderr w @ text\<rparr>"

definition log :: "bool \<Rightarrow> string \<Rightarrow> world \<Rightarrow> world" where
  "log verbose text w = (if verbose then cout text w else w)"

text \<open>A computation in the world returns a value or throws; what it wrote stays.\<close>

type_synonym 'a action = "world \<Rightarrow> (parse_exn + 'a) \<times> world"

section \<open>Registration of the options\<close>

definition register_options :: "arg_parser \<Rightarrow> arg_parser arg_result" where
  "register_options p0 =
     bindR (add_flag (CHR ''h'') ''help'' ''Show this help message'' p0) (\<lambda>p1.
     bindR (add_flag (CHR ''v'') ''verbose'' ''Enable verbose output'' p1) (\<lambda>p2.
     bindR (add_flag nul_char ''version'' ''Show version information'' p2) (\<lambda>p3.
     bindR (add_option (CHR ''o'') ''output'' ''Output directory for generated files'' True ''.'' p3) (\<lambda>p4.
     add_option (CHR ''f'') ''filename'' ''Base filename for generated files (without extension)''
       True [] p4))))"

section \<open>Files\<close>

definition read_file :: "os \<Rightarrow> string \<Rightarrow> string action" where
  "read_file os path w =
     (case os_read os w path of
        None \<Rightarrow> (Inl (Std_exn (Runtime_error (''Failed to open file: '' @ path))), w)
      | Some text \<Rightarrow> (Inr text, w))"

definition write_file :: "os \<Rightarrow> string \<Rightarrow> string \<Rightarrow> unit action" where
  "write_file os path content w =
     (case os_write os w path content of
        None \<Rightarrow> (Inl (Std_exn (Runtime_error (''Failed to create file: '' @ path))), w)
      | Some written \<Rightarrow> (Inr (), w\<lparr>w_files := (w_files w)(path \<mapsto> written)\<rparr>))"

section \<open>The compilation\<close>

definition error_line :: "validation_error \<Rightarrow> string" where
  "error_line e =
     ''  ['' @ show_nat (loc_line (ve_location e)) @ '':'' @ show_nat (loc_column (ve_location e)) @
     ''] '' @ ve_message e @ nl"

text \<open>
  The part of \<^verbatim>\<open>compile_schema\<close> that makes sure that the output directory exists; \<open>Some\<close> is the
  early \<^verbatim>\<open>return\<close>.
\<close>

definition ensure_directory :: "os \<Rightarrow> string \<Rightarrow> bool \<Rightarrow> world \<Rightarrow> int option \<times> world" where
  "ensure_directory os output_dir verbose w0 =
     (let (there, ec) = os_exists os w0 output_dir in
      if \<not> there then
        let w1 = log verbose (''Creating output directory: '' @ output_dir @ nl) w0;
            (created, ec1) = os_create os w1 output_dir
        in case ec1 of
             Some message \<Rightarrow>
               if \<not> created then
                 (Some 1, cerr (''Error: Cannot create output directory '' @ sq @ output_dir @ sq @
                    '': '' @ message @ nl) w1)
               else (None, w1\<lparr>w_dirs := w_dirs w1 @ [output_dir]\<rparr>)
           | None \<Rightarrow> (None, if created then w1\<lparr>w_dirs := w_dirs w1 @ [output_dir]\<rparr> else w1)
      else case ec of
             Some message \<Rightarrow>
               (Some 1, cerr (''Error: Cannot check existence of output directory '' @ sq @ output_dir @
                  sq @ '': '' @ message @ nl) w0)
           | None \<Rightarrow> (None, w0))"

text \<open>The last part of \<^verbatim>\<open>compile_schema\<close>: the two files and the report.\<close>

definition write_outputs ::
  "os \<Rightarrow> string \<Rightarrow> string \<Rightarrow> string \<Rightarrow> string \<Rightarrow> bool \<Rightarrow> int action" where
  "write_outputs os header_file header_content source_file source_content verbose w0 =
     (let w1 = log verbose (''Writing header: '' @ header_file @ nl) w0 in
      case write_file os header_file header_content w1 of
        (Inl e, w2) \<Rightarrow> (Inl e, w2)
      | (Inr _, w2) \<Rightarrow>
          let w3 = log verbose (''Writing source: '' @ source_file @ nl) w2 in
          (case write_file os source_file source_content w3 of
             (Inl e, w4) \<Rightarrow> (Inl e, w4)
           | (Inr _, w4) \<Rightarrow>
               (Inr 0, cout (''Successfully generated:'' @ nl @ ''  '' @ header_file @ nl @ ''  '' @
                  source_file @ nl) w4)))"

definition generate_outputs :: "os \<Rightarrow> string \<Rightarrow> string \<Rightarrow> bool \<Rightarrow> schema \<Rightarrow> int action" where
  "generate_outputs os output_dir filename verbose schema w0 =
     (let w1 = log verbose (''Generating code...'' @ nl) w0;
          base_name = (if filename \<noteq> [] then filename else sc_namespace schema);
          (header_content, codegen1) = generate_header (new_code_generator schema);
          (source_content, codegen2) = generate_source base_name codegen1;
          header_file = output_dir @ ''/'' @ base_name @ ''.hpp'';
          source_file = output_dir @ ''/'' @ base_name @ ''.cpp''
      in case ensure_directory os output_dir verbose w1 of
           (Some code, w2) \<Rightarrow> (Inr code, w2)
         | (None, w2) \<Rightarrow>
             write_outputs os header_file header_content source_file source_content verbose w2)"

definition compile_schema :: "os \<Rightarrow> string \<Rightarrow> string \<Rightarrow> string \<Rightarrow> bool \<Rightarrow> int action" where
  "compile_schema os input_file output_dir filename verbose w0 =
     (let w1 = log verbose (''Reading input file: '' @ input_file @ nl) w0 in
      case read_file os input_file w1 of
        (Inl e, w2) \<Rightarrow> (Inl e, w2)
      | (Inr source, w2) \<Rightarrow>
          let w3 = log verbose (''Parsing...'' @ nl) (log verbose (''Tokenizing...'' @ nl) w2) in
          (case parse_source source of
             Inl e \<Rightarrow> (Inl e, w3)
           | Inr schema \<Rightarrow>
               let w4 = log verbose (''Validating...'' @ nl) w3;
                   (valid, context) = validate schema new_context
               in if \<not> valid then
                    (Inr 1, cerr (''Validation errors:'' @ nl @ concat (map error_line (get_errors context))) w4)
                  else generate_outputs os output_dir filename verbose schema w4))"

section \<open>The main function\<close>

definition help_text :: "arg_parser \<Rightarrow> string" where
  "help_text p =
     ''SerialKit Compiler - Generate C++ code from .skit schema files'' @ nl @ nl @
     ''Usage: serialkit [options] <input.skit>'' @ nl @ nl @
     print_help p @ nl @
     ''Example:'' @ nl @
     ''  serialkit -o output/ input.skit'' @ nl @
     ''  serialkit --verbose --output=gen/ schema.skit'' @ nl"

text \<open>\<^verbatim>\<open>VERSION\<close> is the \<^verbatim>\<open>double\<close> 1.0, which an \<^verbatim>\<open>ostream\<close> prints as 1.\<close>

definition version_text :: string where
  "version_text = ''SerialKit Compiler version 1'' @ nl"

definition lift_query :: "'a may_throw \<Rightarrow> parse_exn + 'a" where
  "lift_query r = (case r of Inl e \<Rightarrow> Inl (Std_exn e) | Inr x \<Rightarrow> Inr x)"

text \<open>The body of the \<^verbatim>\<open>try\<close> block.\<close>

definition run_main :: "os \<Rightarrow> string list \<Rightarrow> arg_parser \<Rightarrow> int action" where
  "run_main os argv parser0 w =
     (case parse_args argv parser0 of
        Inl (e, _) \<Rightarrow> (Inl (Std_exn e), w)
      | Inr parser \<Rightarrow>
          (case lift_query (arg_is_set ''help'' parser) of
             Inl e \<Rightarrow> (Inl e, w)
           | Inr help \<Rightarrow>
               if help then (Inr 0, cout (help_text parser) w)
               else
          (case lift_query (arg_is_set ''version'' parser) of
             Inl e \<Rightarrow> (Inl e, w)
           | Inr version \<Rightarrow>
               if version then (Inr 0, cout version_text w)
               else
          (case positional parser of
             [] \<Rightarrow>
               (Inr 1, cerr (''Error: No input file specified'' @ nl @
                  ''Use --help for usage information'' @ nl) w)
           | input_file # _ \<Rightarrow>
          (case bindR (lift_query (value_of ''output'' parser)) (\<lambda>output_dir.
                bindR (lift_query (value_of ''filename'' parser)) (\<lambda>filename.
                bindR (lift_query (arg_is_set ''verbose'' parser)) (\<lambda>verbose.
                Inr (output_dir, filename, verbose)))) of
             Inl e \<Rightarrow> (Inl e, w)
           | Inr (output_dir, filename, verbose) \<Rightarrow>
               compile_schema os input_file output_dir filename verbose w)))))"

text \<open>
  The result is the exit code; \<open>None\<close> stands for a run that does not return it: an exception that
  leaves \<^verbatim>\<open>register_options\<close>, or undefined behaviour.
\<close>

definition serialkit_main :: "os \<Rightarrow> string list \<Rightarrow> world \<Rightarrow> int option \<times> world" where
  "serialkit_main os argv w =
     (case register_options new_arg_parser of
        Inl _ \<Rightarrow> (None, w)
      | Inr parser \<Rightarrow>
          (case run_main os argv parser w of
             (Inr code, w1) \<Rightarrow> (Some code, w1)
           | (Inl Dangling_read, w1) \<Rightarrow> (None, w1)
           | (Inl (ParseError message loc), w1) \<Rightarrow> (Some 1, cerr (''Error: '' @ message @ nl) w1)
           | (Inl (Std_exn e), w1) \<Rightarrow> (Some 1, cerr (''Error: '' @ what e @ nl) w1)))"

section \<open>Lemmas\<close>

text \<open>The options of the command, as registration leaves them.\<close>

definition cli_parser :: arg_parser where
  "cli_parser =
     insert_option (CHR ''f'') ''filename''
       (new_option (CHR ''f'') ''filename'' ''Base filename for generated files (without extension)'' True [])
     (insert_option (CHR ''o'') ''output''
       (new_option (CHR ''o'') ''output'' ''Output directory for generated files'' True ''.'')
     (insert_option nul_char ''version''
       (new_option nul_char ''version'' ''Show version information'' False [])
     (insert_option (CHR ''v'') ''verbose''
       (new_option (CHR ''v'') ''verbose'' ''Enable verbose output'' False [])
     (insert_option (CHR ''h'') ''help''
       (new_option (CHR ''h'') ''help'' ''Show this help message'' False []) new_arg_parser))))"

lemmas cli_parser_eval = cli_parser_def insert_option_def new_arg_parser_def new_option_def

lemma register_options_result: "register_options new_arg_parser = Inr cli_parser"
  by (simp add: register_options_def add_flag_def add_option_def cli_parser_eval Let_def)

lemma cli_parser_inv: "arg_inv cli_parser"
  unfolding cli_parser_def
  by (intro arg_inv_insert_option arg_inv_new) (simp_all add: insert_option_def new_arg_parser_def)

lemma cli_lookup:
  "ap_long_options cli_parser ''help'' = Some 0" "ap_long_options cli_parser ''verbose'' = Some 1"
  "ap_long_options cli_parser ''version'' = Some 2" "ap_long_options cli_parser ''output'' = Some 3"
  "ap_long_options cli_parser ''filename'' = Some 4"
  "has_arg_at cli_parser 3" "has_arg_at cli_parser 4"
  by (simp_all add: cli_parser_eval has_arg_at_def)

text \<open>After parsing, the queries of \<^verbatim>\<open>main\<close> always have an answer.\<close>

lemma cli_queries:
  assumes "parse_args argv cli_parser = Inr p"
  obtains hb vb lb dir name where
    "arg_is_set ''help'' p = Inr hb" "arg_is_set ''version'' p = Inr vb"
    "arg_is_set ''verbose'' p = Inr lb" "value_of ''output'' p = Inr dir"
    "value_of ''filename'' p = Inr name"
proof -
  have "reset p = reset cli_parser"
    using assms by (auto simp: parse_args_refines [OF cli_parser_inv] run_events_def Let_def split: option.splits)
  then have same: "same_options p cli_parser" by (simp add: same_options_def)
  note long = same_options_lookup(1) [OF same]
  have "a < length (ap_store p) \<Longrightarrow> has_arg_at p a = has_arg_at cli_parser a" for a
    by (rule same_options_has_arg [OF same])
  moreover have "length (ap_store p) = 5"
    using same_options_lookup(4) [OF same] by (simp add: cli_parser_eval)
  ultimately show ?thesis
    using that by (simp add: arg_is_set_def value_of_def long cli_lookup)
qed

lemma world_simps [simp]:
  "w_files (cout t w) = w_files w" "w_files (cerr t w) = w_files w" "w_files (log v t w) = w_files w"
  "w_stderr (cout t w) = w_stderr w" "w_stderr (log v t w) = w_stderr w"
  "w_stderr (cerr t w) = w_stderr w @ t"
  by (simp_all add: cout_def cerr_def log_def)

lemma ensure_directory_frame:
  assumes "ensure_directory os dir v w = (r, w')"
  shows "w_files w' = w_files w" "r = None \<Longrightarrow> w_stderr w' = w_stderr w"
    "r = Some code \<Longrightarrow> code = 1 \<and> (\<exists>t. t \<noteq> [] \<and> w_stderr w' = w_stderr w @ t)"
  using assms
  by (auto simp: ensure_directory_def Let_def split: prod.splits option.splits if_splits)

text \<open>
  An action is orderly: an exit code 0 leaves the error stream alone, an exit code 1 comes with a
  message, and an exception leaves the error stream to the handler.
\<close>

definition orderly :: "world \<Rightarrow> (parse_exn + int) \<times> world \<Rightarrow> bool" where
  "orderly w r =
     (case fst r of
        Inr code \<Rightarrow>
          code = 0 \<and> w_stderr (snd r) = w_stderr w \<or>
          code = 1 \<and> (\<exists>t. t \<noteq> [] \<and> w_stderr (snd r) = w_stderr w @ t)
      | Inl e \<Rightarrow> e \<noteq> Dangling_read \<and> w_stderr (snd r) = w_stderr w)"

lemma orderly_write_outputs: "orderly w (write_outputs os hf h sf c v w)"
  by (auto simp: orderly_def write_outputs_def write_file_def Let_def split: option.splits)

lemma orderly_frame: "w_stderr w1 = w_stderr w \<Longrightarrow> orderly w1 r = orderly w r"
  by (simp add: orderly_def split: sum.split)

lemma orderly_generate: "orderly w (generate_outputs os dir name v s w)"
proof -
  obtain hc g1 where h: "generate_header (new_code_generator s) = (hc, g1)" by (metis surj_pair)
  obtain c g2 where c: "generate_source (if name \<noteq> [] then name else sc_namespace s) g1 = (c, g2)"
    by (metis surj_pair)
  let ?w1 = "log v (''Generating code...'' @ nl) w"
  obtain r w2 where d: "ensure_directory os dir v ?w1 = (r, w2)" by (metis surj_pair)
  show ?thesis
  proof (cases r)
    case None
    then have "w_stderr w2 = w_stderr w" using ensure_directory_frame(2) [OF d] by simp
    then have "orderly w (write_outputs os hf hc sf c v w2)" for hf sf
      by (rule iffD1 [OF orderly_frame orderly_write_outputs])
    then show ?thesis
      unfolding generate_outputs_def Let_def h prod.case c d None option.case .
  next
    case (Some code)
    then show ?thesis
      using ensure_directory_frame(3) [OF d]
      unfolding generate_outputs_def Let_def h prod.case c d Some option.case by (simp add: orderly_def)
  qed
qed

text \<open>The worlds in which the input is read, and in which it has been parsed.\<close>

definition at_reading :: "bool \<Rightarrow> string \<Rightarrow> world \<Rightarrow> world" where
  "at_reading v input w = log v (''Reading input file: '' @ input @ nl) w"

definition at_parsed :: "bool \<Rightarrow> string \<Rightarrow> world \<Rightarrow> world" where
  "at_parsed v input w = log v (''Parsing...'' @ nl) (log v (''Tokenizing...'' @ nl) (at_reading v input w))"

definition at_validated :: "bool \<Rightarrow> string \<Rightarrow> world \<Rightarrow> world" where
  "at_validated v input w = log v (''Validating...'' @ nl) (at_parsed v input w)"

lemma at_world_simps [simp]:
  "w_files (at_reading v i w) = w_files w" "w_stderr (at_reading v i w) = w_stderr w"
  "w_files (at_parsed v i w) = w_files w" "w_stderr (at_parsed v i w) = w_stderr w"
  "w_files (at_validated v i w) = w_files w" "w_stderr (at_validated v i w) = w_stderr w"
  by (simp_all add: at_reading_def at_parsed_def at_validated_def)

lemma compile_schema_phases:
  "compile_schema os input dir name v w =
     (case os_read os (at_reading v input w) input of
        None \<Rightarrow> (Inl (Std_exn (Runtime_error (''Failed to open file: '' @ input))), at_reading v input w)
      | Some src \<Rightarrow>
          (case parse_source src of
             Inl e \<Rightarrow> (Inl e, at_parsed v input w)
           | Inr s \<Rightarrow>
               if fst (validate s new_context)
               then generate_outputs os dir name v s (at_validated v input w)
               else (Inr 1, cerr (''Validation errors:'' @ nl @
                       concat (map error_line (get_errors (snd (validate s new_context)))))
                      (at_validated v input w))))"
proof (cases "os_read os (at_reading v input w) input")
  case None
  then show ?thesis unfolding compile_schema_def Let_def read_file_def at_reading_def by simp
next
  case (Some src)
  show ?thesis
    unfolding compile_schema_def Let_def read_file_def
      at_reading_def [symmetric] at_parsed_def [symmetric] at_validated_def [symmetric]
      Some option.case prod.case
    by (simp add: case_prod_unfold split: sum.split)
qed

lemma parse_source_no_dangling: "parse_source src = Inl e \<Longrightarrow> e \<noteq> Dangling_read"
  using parse_source_outcome [of src] by auto

lemma orderly_compile: "orderly w (compile_schema os input dir name v w)"
proof -
  have "orderly w (generate_outputs os dir name v s (at_validated v input w))" for s
    by (rule iffD1 [OF orderly_frame [of "at_validated v input w"] orderly_generate]) simp
  moreover have "orderly w (Inr 1, cerr t w1)" if "w_stderr w1 = w_stderr w" "t \<noteq> []" for t w1
    using that by (auto simp: orderly_def)
  moreover have "orderly w (Inl e, w1)" if "w_stderr w1 = w_stderr w" "e \<noteq> Dangling_read" for e w1
    using that by (simp add: orderly_def)
  ultimately show ?thesis
    using parse_source_no_dangling
    by (auto simp: compile_schema_phases split: option.split sum.split)
qed

lemma orderly_run_main: "orderly w (run_main os argv cli_parser w)"
proof (cases "parse_args argv cli_parser")
  case (Inl e)
  then show ?thesis by (cases e) (simp add: run_main_def orderly_def)
next
  case (Inr p)
  obtain hb vb lb dir name where q: "arg_is_set ''help'' p = Inr hb" "arg_is_set ''version'' p = Inr vb"
    "arg_is_set ''verbose'' p = Inr lb" "value_of ''output'' p = Inr dir" "value_of ''filename'' p = Inr name"
    by (rule cli_queries [OF Inr])
  show ?thesis
    by (cases "positional p")
      (simp_all add: run_main_def Inr lift_query_def q orderly_compile, simp_all add: orderly_def)
qed

section \<open>What a command line asks for\<close>

text \<open>
  The requests the command distinguishes, and the request a command line stands for. The numbers are
  the places of the options in the order of registration.
\<close>

datatype request = Bad_usage std_exn | Show_help | Show_version | No_input
  | Compile string string string bool

definition request_of :: "string list \<Rightarrow> request" where
  "request_of argv =
     (case read_args cli_parser (tl argv) of
        (es, Some e) \<Rightarrow> Bad_usage e
      | (es, None) \<Rightarrow>
          if touched 0 es then Show_help
          else if touched 2 es then Show_version
          else case positionals es of
                 [] \<Rightarrow> No_input
               | input # _ \<Rightarrow>
                   Compile input (last (''.'' # values_given 3 es)) (last ([] # values_given 4 es)) (touched 1 es))"

text \<open>How a request is served: the exit code and what the run leaves behind.\<close>

definition handled :: "(parse_exn + int) \<times> world \<Rightarrow> int option \<times> world" where
  "handled r =
     (case r of
        (Inr code, w) \<Rightarrow> (Some code, w)
      | (Inl Dangling_read, w) \<Rightarrow> (None, w)
      | (Inl (ParseError message loc), w) \<Rightarrow> (Some 1, cerr (''Error: '' @ message @ nl) w)
      | (Inl (Std_exn e), w) \<Rightarrow> (Some 1, cerr (''Error: '' @ what e @ nl) w))"

fun serve :: "os \<Rightarrow> request \<Rightarrow> world \<Rightarrow> int option \<times> world" where
  "serve os (Bad_usage e) w = (Some 1, cerr (''Error: '' @ what e @ nl) w)"
| "serve os Show_help w = (Some 0, cout (help_text cli_parser) w)"
| "serve os Show_version w = (Some 0, cout version_text w)"
| "serve os No_input w =
     (Some 1, cerr (''Error: No input file specified'' @ nl @ ''Use --help for usage information'' @ nl) w)"
| "serve os (Compile input dir name verbose) w = handled (compile_schema os input dir name verbose w)"

text \<open>The help text does not depend on what a parse has left in the options.\<close>

lemma help_line_reset: "help_line (reset_option opt) = help_line opt"
  by (simp add: help_line_def reset_option_def)

lemma help_text_same:
  assumes inv: "arg_inv q" and same: "same_options p q"
  shows "help_text p = help_text q"
proof -
  have order: "ap_options_order q = [0..<length (ap_store q)]" using inv by (simp add: arg_inv_def)
  have "help_line (ap_store p ! a) = help_line (ap_store q ! a)" if "a < length (ap_store q)" for a
    using same_options_nth [OF same, of a] that same_options_lookup(4) [OF same] by (metis help_line_reset)
  then have "map (\<lambda>a. help_line (ap_store p ! a)) [0..<length (ap_store q)] =
      map (\<lambda>a. help_line (ap_store q ! a)) [0..<length (ap_store q)]" by simp
  then show ?thesis
    by (simp only: help_text_def print_help_def same_options_lookup(3) [OF same] order)
qed

lemma cli_defaults:
  "ao_default_value (ap_store cli_parser ! 3) = ''.''" "ao_default_value (ap_store cli_parser ! 4) = []"
  by (simp_all add: cli_parser_eval)

lemma serialkit_main_handled: "serialkit_main os argv w = handled (run_main os argv cli_parser w)"
  by (simp add: serialkit_main_def register_options_result handled_def)

lemma serialkit_main_serves: "serialkit_main os argv w = serve os (request_of argv) w"
proof -
  obtain es err where r: "read_args cli_parser (tl argv) = (es, err)" by (metis surj_pair)
  show ?thesis
  proof (cases err)
    case (Some e)
    then have "parse_args argv cli_parser = Inl (e, fold apply_event es (reset cli_parser))"
      using r by (simp add: parse_args_refines [OF cli_parser_inv] run_events_def)
    then show ?thesis
      using r Some by (simp add: serialkit_main_handled run_main_def request_of_def handled_def)
  next
    case None
    define q where "q = fold apply_event es (reset cli_parser)"
    have q: "parse_args argv cli_parser = Inr q"
      using r None by (simp add: parse_args_refines [OF cli_parser_inv] run_events_def q_def)
    have "same_options q cli_parser" by (simp add: same_options_def q_def)
    then have help_q: "help_text q = help_text cli_parser" by (rule help_text_same [OF cli_parser_inv])
    note answers = answers_after_parse [OF cli_parser_inv q, unfolded r fst_conv]
    have queries:
      "arg_is_set ''help'' q = Inr (touched 0 es)" "arg_is_set ''verbose'' q = Inr (touched 1 es)"
      "arg_is_set ''version'' q = Inr (touched 2 es)"
      "value_of ''output'' q = Inr (last (''.'' # values_given 3 es))"
      "value_of ''filename'' q = Inr (last ([] # values_given 4 es))"
      "positional q = positionals es"
      using answers [OF cli_lookup(1)] answers(1) [OF cli_lookup(2)] answers(1) [OF cli_lookup(3)]
        answers(2) [OF cli_lookup(4,6)] answers(2) [OF cli_lookup(5,7)] cli_defaults by simp_all
    show ?thesis
      by (cases "positionals es")
        (simp_all add: serialkit_main_handled run_main_def q lift_query_def queries help_q request_of_def r None
          handled_def del: last.simps)
  qed
qed

section \<open>Properties\<close>

text \<open>
  C8: The command does what its command line asks for, on every branch: errors of usage are reported
  with exit code 1, help comes before version, and both before the input; without an input there is an
  error; else the first input is compiled to the last directory and under the last name given, with
  the defaults of the options, and the error of the compilation is printed.
\<close>

theorem main_serves_request: "serialkit_main os argv w = serve os (request_of argv) w"
  by (rule serialkit_main_serves)

text \<open>
  C33: Every run of the command ends with exit code 0 or 1, for any operating system, command line
  and input: with 0 nothing was written to the error stream, with 1 an error message was.
\<close>

theorem main_exit_codes:
  "\<exists>code w'. serialkit_main os argv w = (Some code, w') \<and>
     (code = 0 \<and> w_stderr w' = w_stderr w \<or>
      code = 1 \<and> (\<exists>t. t \<noteq> [] \<and> w_stderr w' = w_stderr w @ t))"
proof -
  obtain r w1 where r: "run_main os argv cli_parser w = (r, w1)" by (metis surj_pair)
  with orderly_run_main [of w os argv] show ?thesis
    by (cases r) (auto simp: serialkit_main_def register_options_result orderly_def split: parse_exn.splits)
qed

text \<open>What a successful run of the last two phases did.\<close>

lemma write_file_success:
  "write_file os path content w = (Inr u, w') \<Longrightarrow>
     \<exists>written. os_write os w path content = Some written \<and> w' = w\<lparr>w_files := (w_files w)(path \<mapsto> written)\<rparr>"
  by (auto simp: write_file_def split: option.splits)

lemma write_outputs_success:
  assumes "write_outputs os hf h sf c v w = (Inr 0, w')"
  shows "\<exists>w1 w2 h' c'. os_write os w1 hf h = Some h' \<and> os_write os w2 sf c = Some c' \<and>
       w_files w' = (w_files w)(hf \<mapsto> h', sf \<mapsto> c')"
proof -
  define w1 where "w1 = log v (''Writing header: '' @ hf @ nl) w"
  obtain r2 w2 where a: "write_file os hf h w1 = (r2, w2)" by (metis surj_pair)
  then obtain u2 where a': "r2 = Inr u2"
    using assms unfolding write_outputs_def Let_def w1_def [symmetric] by (cases r2) auto
  define w3 where "w3 = log v (''Writing source: '' @ sf @ nl) w2"
  obtain r4 w4 where b: "write_file os sf c w3 = (r4, w4)" by (metis surj_pair)
  have "\<exists>u4. r4 = Inr u4" "w_files w' = w_files w4"
    using assms unfolding write_outputs_def Let_def w1_def [symmetric] a a' prod.case sum.case
      w3_def [symmetric] b by (cases r4; auto)+
  with write_file_success [OF a [unfolded a']] write_file_success [of os sf c w3 _ w4] b
  show ?thesis by (fastforce simp: w1_def w3_def)
qed

definition at_generating :: "bool \<Rightarrow> world \<Rightarrow> world" where
  "at_generating v w = log v (''Generating code...'' @ nl) w"

lemma at_generating_simps [simp]:
  "w_files (at_generating v w) = w_files w" "w_stderr (at_generating v w) = w_stderr w"
  by (simp_all add: at_generating_def)

lemma generate_outputs_phases:
  assumes base: "base = (if name = [] then sc_namespace s else name)" "base \<noteq> []"
  shows "generate_outputs os dir name v s w =
     (case ensure_directory os dir v (at_generating v w) of
        (Some code, w2) \<Rightarrow> (Inr code, w2)
      | (None, w2) \<Rightarrow>
          write_outputs os (dir @ ''/'' @ base @ ''.hpp'') (fst (generate_header (new_code_generator s)))
            (dir @ ''/'' @ base @ ''.cpp'') (fst (generate_source base (new_code_generator s))) v w2)"
proof -
  have "(if name \<noteq> [] then name else sc_namespace s) = base" using base(1) by simp
  then show ?thesis
    unfolding generate_outputs_def Let_def generate_header_text generate_source_text prod.case fst_conv
      new_code_generator_def code_generator.simps at_generating_def by (simp only:)
qed

lemma compile_schema_writes:
  assumes "compile_schema os input dir name v w = (r, w')" "w_files w' \<noteq> w_files w \<or> r = Inr 0"
  shows "\<exists>src s. os_read os (at_reading v input w) input = Some src \<and> parse_source src = Inr s \<and>
    valid_schema s \<and> generate_outputs os dir name v s (at_validated v input w) = (r, w')"
proof -
  obtain src where src: "os_read os (at_reading v input w) input = Some src"
    using assms by (cases "os_read os (at_reading v input w) input") (auto simp: compile_schema_phases)
  obtain s where s: "parse_source src = Inr s"
    using assms src by (cases "parse_source src") (auto simp: compile_schema_phases)
  have "fst (validate s new_context)"
    using assms src s by (cases "fst (validate s new_context)") (auto simp: compile_schema_phases)
  moreover from this have "valid_schema s"
    by (simp add: validate_iff_valid)
  ultimately show ?thesis
    using assms(1) src s by (simp add: compile_schema_phases)
qed

text \<open>
  C11: The compilation reports success only when the input was read, parsed and accepted by the rules
  of the schema language and both files were opened; and the header and the source are then what the
  generator makes of that schema, the source including the header by its name.
\<close>

theorem compile_success_means:
  assumes "compile_schema os input dir name v w = (Inr 0, w')"
  shows "\<exists>src s wr base h c w1 w2.
    os_read os wr input = Some src \<and> parse_source src = Inr s \<and> valid_schema s \<and>
    base = (if name = [] then sc_namespace s else name) \<and>
    os_write os w1 (dir @ ''/'' @ base @ ''.hpp'') (fst (generate_header (new_code_generator s))) = Some h \<and>
    os_write os w2 (dir @ ''/'' @ base @ ''.cpp'') (fst (generate_source base (new_code_generator s))) = Some c \<and>
    w_files w' = (w_files w)(dir @ ''/'' @ base @ ''.hpp'' \<mapsto> h, dir @ ''/'' @ base @ ''.cpp'' \<mapsto> c)"
proof -
  obtain src s where p: "os_read os (at_reading v input w) input = Some src" "parse_source src = Inr s"
    "valid_schema s" "generate_outputs os dir name v s (at_validated v input w) = (Inr 0, w')"
    using compile_schema_writes [OF assms] by blast
  define base where base: "base = (if name = [] then sc_namespace s else name)"
  have "base \<noteq> []" using base p(3) by (auto simp: valid_schema_def)
  note phases = generate_outputs_phases [OF base this]
  obtain r w2 where d: "ensure_directory os dir v (at_generating v (at_validated v input w)) = (r, w2)"
    by (metis surj_pair)
  have "r = None"
    using p(4) ensure_directory_frame(3) [OF d] by (cases r) (auto simp: phases d)
  moreover have "w_files w2 = w_files w" using ensure_directory_frame(1) [OF d] by simp
  ultimately have "write_outputs os (dir @ ''/'' @ base @ ''.hpp'') (fst (generate_header (new_code_generator s)))
      (dir @ ''/'' @ base @ ''.cpp'') (fst (generate_source base (new_code_generator s))) v w2 = (Inr 0, w')"
    and frame: "w_files w2 = w_files w"
    using p(4) unfolding phases d by simp_all
  from write_outputs_success [OF this(1)] show ?thesis
    unfolding frame using p(1-3) base by blast
qed

text \<open>
  A compilation whose input parses and obeys the rules succeeds on a working file system: exit code 0,
  both files with the generated text, nothing on the error stream, no other file touched.
\<close>

lemma compile_succeeds:
  assumes reads: "\<And>w. os_read os w input = Some src"
    and writes: "\<And>w path content. os_write os w path content = Some content"
    and dirs: "\<And>w. os_exists os w dir = (there, None)" "\<And>w. os_create os w dir = (True, None)"
    and parse: "parse_source src = Inr s" and valid: "valid_schema s"
    and base: "base = (if name = [] then sc_namespace s else name)"
  shows "\<exists>w'. compile_schema os input dir name v w = (Inr 0, w') \<and> w_stderr w' = w_stderr w \<and>
    w_files w' = (w_files w)
      (dir @ ''/'' @ base @ ''.hpp'' \<mapsto> fst (generate_header (new_code_generator s)),
       dir @ ''/'' @ base @ ''.cpp'' \<mapsto> fst (generate_source base (new_code_generator s)))"
proof -
  have accepted: "fst (validate s new_context)" using valid by (simp add: validate_iff_valid)
  have "base \<noteq> []" using base valid by (auto simp: valid_schema_def)
  note phases = generate_outputs_phases [OF base this]
  obtain r w2 where d: "ensure_directory os dir v (at_generating v (at_validated v input w)) = (r, w2)"
    by (metis surj_pair)
  have r: "r = None" using d by (cases there) (auto simp: ensure_directory_def dirs Let_def)
  have frame: "w_files w2 = w_files w" "w_stderr w2 = w_stderr w"
    using ensure_directory_frame(1,2) [OF d] r by simp_all
  have "\<exists>w'. write_outputs os hf h sf c v w2 = (Inr 0, w') \<and> w_stderr w' = w_stderr w \<and>
      w_files w' = (w_files w)(hf \<mapsto> h, sf \<mapsto> c)" for hf h sf c
    by (simp add: write_outputs_def write_file_def writes frame Let_def)
  note out = this
  have "compile_schema os input dir name v w = generate_outputs os dir name v s (at_validated v input w)"
    using parse accepted by (simp add: compile_schema_phases reads)
  then show ?thesis using out unfolding phases d r by simp
qed

text \<open>An operating system that does what it is asked for, whose only file holds \<open>src\<close>.\<close>

definition ideal_os :: "string \<Rightarrow> os" where
  "ideal_os src =
     \<lparr>os_read = \<lambda>w p. Some src, os_write = \<lambda>w p c. Some c, os_exists = \<lambda>w d. (True, None),
      os_create = \<lambda>w d. (True, None)\<rparr>"

definition empty_world :: world where
  "empty_world = \<lparr>w_stdout = [], w_stderr = [], w_files = Map.empty, w_dirs = []\<rparr>"

definition sample_text :: string where
  "sample_text = ''namespace a; enum E { X = 0; } model M { optional E e = 1; }''"

lemma sample_text_compiles:
  obtains s where "parse_source sample_text = Inr s" "valid_schema s" "sc_namespace s = ''a''"
proof -
  have "case parse_source sample_text of Inr s \<Rightarrow> fst (validate s new_context) \<and> sc_namespace s = ''a'' | Inl e \<Rightarrow> False"
    by code_simp
  then show ?thesis
    using that by (cases "parse_source sample_text") (auto simp: validate_iff_valid)
qed

lemma sample_run: "\<exists>w'. compile_schema (ideal_os sample_text) ''in'' ''out'' [] False empty_world = (Inr 0, w')"
proof -
  obtain s where s: "parse_source sample_text = Inr s" "valid_schema s" "sc_namespace s = ''a''"
    by (rule sample_text_compiles)
  show ?thesis
    using s(1,2) generate_outputs_phases [of "''a''" "[]" s] s(3)
    by (simp add: compile_schema_phases validate_iff_valid ideal_os_def ensure_directory_def
        write_outputs_def write_file_def Let_def)
qed

theorem compile_success_means_witness:
  "\<exists>w' h. compile_schema (ideal_os sample_text) ''in'' ''out'' [] False empty_world = (Inr 0, w') \<and>
     w_files w' ''out/a.hpp'' = Some h"
proof -
  obtain w' where run: "compile_schema (ideal_os sample_text) ''in'' ''out'' [] False empty_world = (Inr 0, w')"
    using sample_run by blast
  obtain s where s: "parse_source sample_text = Inr s" "sc_namespace s = ''a''"
    by (rule sample_text_compiles)
  from compile_success_means [OF run] s have "\<exists>h. w_files w' ''out/a.hpp'' = Some h"
    by (auto simp: ideal_os_def)
  with run show ?thesis by blast
qed



text \<open>
  C34: A schema that breaks a rule is rejected with exit code 1, every violation is printed with line
  and column on the error stream, in the order the validator found them, and no file is written.
\<close>

theorem compile_rejects_invalid:
  assumes "\<And>w. os_read os w input = Some src" "parse_source src = Inr s" "\<not> valid_schema s"
  shows "\<exists>w'. compile_schema os input dir name v w = (Inr 1, w') \<and> w_files w' = w_files w \<and>
    w_stderr w' = w_stderr w @ ''Validation errors:'' @ nl @
      concat (map error_line (get_errors (snd (validate s new_context))))"
  using assms by (simp add: compile_schema_phases validate_iff_valid)

lemma invalid_text:
  obtains s where "parse_source ''namespace a; enum E { }'' = Inr s" "\<not> valid_schema s"
proof -
  have "case parse_source ''namespace a; enum E { }'' of Inr s \<Rightarrow> \<not> fst (validate s new_context) | Inl e \<Rightarrow> False"
    by code_simp
  then show ?thesis
    using that by (cases "parse_source ''namespace a; enum E { }''") (auto simp: validate_iff_valid)
qed

theorem compile_rejects_invalid_witness:
  "\<exists>w'. compile_schema (ideal_os ''namespace a; enum E { }'') ''in'' ''out'' [] False empty_world = (Inr 1, w') \<and>
     w_files w' = w_files empty_world"
proof -
  obtain s where s: "parse_source ''namespace a; enum E { }'' = Inr s" "\<not> valid_schema s"
    by (rule invalid_text)
  show ?thesis
    using compile_rejects_invalid [OF _ s, of "ideal_os ''namespace a; enum E { }''"]
    by (fastforce simp: ideal_os_def)
qed

end
