(* ===== verification/Spec2Isabelle.thy ===== *)
theory Spec2Isabelle
  imports Lexer_Session Parser_Spec Validator Arg_Session Codegen_Spec Evolution Runtime_Limits Driver
begin

text \<open>
  Verification of SerialKit, a compiler that turns schema files (\<^verbatim>\<open>.skit\<close>) into C++ classes with a
  binary serialization. All of \<^verbatim>\<open>compiler/\<close> is modelled, and also what the classes it emits do when they
  run.

  \<^bold>\<open>The parts and how they interact.\<close> The command (\<^verbatim>\<open>main.cpp\<close>) parses its arguments with \<^verbatim>\<open>ArgParser\<close>, reads
  the input, and passes the text to \<^verbatim>\<open>Lexer\<close> and \<^verbatim>\<open>Parser\<close>, which build a \<^verbatim>\<open>Schema\<close> (\<^verbatim>\<open>ast.hpp\<close>). \<^verbatim>\<open>Validator\<close>
  checks the schema; \<^verbatim>\<open>CodeGenerator\<close> prints a header and a source file, which the command writes. The
  printed classes have the methods \<^verbatim>\<open>serialize\<close> and \<^verbatim>\<open>deserialize\<close>.

  \<^bold>\<open>Theories.\<close>
  \<^item> \<open>Prelude\<close>: error values (\<open>may_throw\<close>), characters and strings, decimal printing, \<^verbatim>\<open>std::stoi\<close>, and
    the lemmas on lists and words that the components share.
  \<^item> \<open>Lexer\<close> (\<^verbatim>\<open>lexer.hpp\<close>, \<^verbatim>\<open>lexer.cpp\<close>): the lexer object as a record, one function for each method; loops
    are total functions. \<open>Lexer_Spec\<close>: a reference lexer without positions and the proof that the
    lexer refines it, the invariant of position, line and column, progress to end-of-file, look-ahead, and
    the round trip from tokens to text. \<open>Lexer_Session\<close>: a lexer object in use, as a step relation over
    the three public calls in any order, and the invariant of every session.
  \<^item> \<open>Ast\<close> (\<^verbatim>\<open>ast.hpp\<close>, \<^verbatim>\<open>ast.cpp\<close>): class hierarchies as datatypes, the modifier byte as an 8-bit word.
  \<^item> \<open>Parser\<close> (\<^verbatim>\<open>parser.hpp\<close>, \<^verbatim>\<open>parser.cpp\<close>): the recursive-descent methods over a state of parser and
    lexer, with exceptions as values. \<open>Grammar\<close>: the schema language as a grammar over tokens.
    \<open>Parser_Spec\<close>: the parser accepts exactly what the grammar derives, the exceptions it can throw,
    well-formedness of its trees, and the round trip from schemas to text.
  \<^item> \<open>Validator\<close> (\<^verbatim>\<open>validator.hpp\<close>, \<^verbatim>\<open>validator.cpp\<close>): context, visitor and facade; the rules as the
    predicate \<open>valid_schema\<close>, the places that break them as \<open>schema_faults\<close>, and the proofs that the
    validator accepts and reports exactly these.
  \<^item> \<open>Arg_Parser\<close> (\<^verbatim>\<open>arg_parser.hpp\<close>, \<^verbatim>\<open>arg_parser.cpp\<close>): the options live in a store, since two tables
    and a list share them. \<open>Arg_Spec\<close>: a command line as a list of events, the refinement to it, the
    queries, the invariant of the tables, reuse, and the round trip from settings to command lines.
    \<open>Arg_Session\<close>: declarations and parses in any order, with exceptions that are caught.
  \<^item> \<open>Codegen\<close> (\<^verbatim>\<open>codegen.hpp\<close>, \<^verbatim>\<open>codegen.cpp\<close>): the exact text of both files. \<open>Codegen_Spec\<close>: the tags in
    32 bits, independence of the order of calls, and nesting of the brackets in the text.
  \<^item> \<open>Wire\<close>, \<open>Runtime\<close>: the emitted code at run time. \<open>Wire\<close> has the loops that write and read a number
    on 64-bit words and the conversions of members; \<open>Runtime\<close> has the reading and writing program that the
    generator chooses for a field, the proof that the emitted text is the text of that program, and its
    execution on objects and bytes: \<open>serialize\<close>, \<open>deserialize\<close>, the default-constructed object, and the
    order in which the compiler of the header meets the classes.
  \<^item> \<open>Runtime_Spec\<close>, \<open>Runtime_Props\<close>: the reading loop passes a stretch of its input (the relation
    \<open>runs_to\<close>, the locale \<open>stretch\<close>); round trip of objects, with floating-point members that are whole numbers; unknown fields.
    \<open>Evolution\<close>: a writer and a reader that were compiled from different versions of a schema.
    \<open>Runtime_Limits\<close>: termination, which headers compile, and what the emitted code does not handle.
  \<^item> \<open>Driver\<close> (\<^verbatim>\<open>main.cpp\<close>): the whole command over an operating system that is an argument; the request
    a command line stands for, and the proof that the command serves it.
  \<^item> This theory: the way from the command line through the generated files to the bytes of an object and
    back, for all parts together.

  \<^bold>\<open>Correspondence.\<close> Definitions have the names of the functions, in the order of the code. A name that
  clashes has a prefix or suffix (\<open>p_match\<close>, \<open>parse_args\<close>, \<open>arg_is_set\<close>). A loop is a recursive function
  named after the method (\<open>fields_loop\<close>, \<open>modifiers_loop\<close>). Exceptions are \<open>Inl\<close>. In the emitted code
  \<open>Undef\<close> is undefined behaviour and \<open>Fuel\<close> a run that has not ended within its bound.

  \<^bold>\<open>Locales.\<close> The source of tokens (\<open>token_source\<close>), a loop over a construct (\<open>repetition\<close>), a check that
  reports its faults (\<open>checker\<close>), a reader of one kind of option (\<open>option_reader\<close>) and a stretch of a
  message (\<open>stretch\<close>) are locales; each is interpreted on the definitions of the model, and the
  properties rest on these interpretations.

  \<^bold>\<open>Bounds and fuel.\<close> Only \<open>deser\<close> has fuel, one unit for an iteration of the loop or a level of nesting.
  A message of \<open>n\<close> bytes needs at most \<open>n + 1\<close> units: the round trips hold for every larger number, more
  fuel never changes a result (\<open>deser_same_result\<close>), and without wrap-around of the position every run
  ends (\<open>deserialize_terminates\<close>). With wrap-around there are bytes on which no fuel is enough
  (\<open>deserialize_may_diverge\<close>). Positions in the emitted code are 64-bit; messages are shorter than
  \<open>2 ^ 64\<close> bytes. \<^verbatim>\<open>int\<close> has 32 bits, as the range of \<^verbatim>\<open>std::stoi\<close>.

  \<^bold>\<open>Arguments of the model.\<close> The operating system (\<open>os\<close>: opening files for reading and for writing,
  existence and creation of directories), the iteration order of the unordered maps in \<^verbatim>\<open>operator<<\<close>, and
  whether the standard library checks indices.

  \<^bold>\<open>Not modelled.\<close> The tests, the example schemas, the build files, the installer and the documents hold no
  program logic. Streams that fail after they were opened are not distinguished, since the code does not
  look at them. Of the C++ compiler that reads the generated files only the order of declarations, the
  names and the initialisation of members are modelled; schemas in which a field has the name of a local
  variable of the emitted methods are excluded (\<open>names_ok\<close>).
\<close>

section \<open>The whole way\<close>

text \<open>The round trip of every object of every class, for the program that includes the generated header.\<close>

definition classes_roundtrip :: "schema \<Rightarrow> runtime \<Rightarrow> bool" where
  "classes_roundtrip s rt \<longleftrightarrow>
     (\<forall>m obj. ModelDecl m \<in> set (sc_declarations s) \<longrightarrow> slots_ok s (md_fields m) obj \<longrightarrow>
        (\<exists>start b. default_object rt (md_name m) = Some start \<and> serialize s m obj = Ret b \<and>
           (length b < 2 ^ 64 \<longrightarrow> (\<forall>fuel > length b. deserialize fuel rt m b start = Ret (True, obj)))))"

lemma classes_roundtripD:
  assumes "classes_roundtrip s rt" "ModelDecl m \<in> set (sc_declarations s)" "slots_ok s (md_fields m) obj"
    and "serialize s m obj = Ret b" "length b < 2 ^ 64"
  shows "\<exists>start. default_object rt (md_name m) = Some start \<and>
    (\<forall>fuel > length b. deserialize fuel rt m b start = Ret (True, obj))"
  using assms unfolding classes_roundtrip_def by fastforce


text \<open>The text of the examples, from its command line to the bytes of an object and back.\<close>

definition sample_argv :: "string list" where
  "sample_argv = [''serialkit'', ''-o'', ''gen'', ''a.skit'']"

lemma sample_request: "request_of sample_argv = Compile ''a.skit'' ''gen'' [] False"
  by code_simp

lemma sample_schema:
  obtains s m where "parse_source sample_text = Inr s" "valid_schema s" "sc_namespace s = ''a''"
    "ModelDecl m \<in> set (sc_declarations s)" "slots_ok s (md_fields m) [Opt (Some (V_int 0))]"
    "serialize s m [Opt (Some (V_int 0))] = Ret [10, 0]" "names_ok s" "declared_in_order {} (sc_declarations s)"
proof -
  have "case parse_source sample_text of
      Inr s \<Rightarrow> fst (validate s new_context) \<and> sc_namespace s = ''a'' \<and> compile_header False s \<noteq> None \<and>
        (case sc_declarations s ! 1 of
           ModelDecl m \<Rightarrow> slots_ok s (md_fields m) [Opt (Some (V_int 0))] \<and>
             serialize s m [Opt (Some (V_int 0))] = Ret [10, 0] \<and> length (sc_declarations s) = 2
         | EnumDecl e \<Rightarrow> False)
    | Inl e \<Rightarrow> False"
    by code_simp
  then obtain s m where s: "parse_source sample_text = Inr s" "valid_schema s" "sc_namespace s = ''a''"
    "compile_header False s \<noteq> None" "sc_declarations s ! 1 = ModelDecl m" "length (sc_declarations s) = 2"
    "slots_ok s (md_fields m) [Opt (Some (V_int 0))]" "serialize s m [Opt (Some (V_int 0))] = Ret [10, 0]"
    by (auto simp: validate_iff_valid split: sum.splits decl.splits)
  have "ModelDecl m \<in> set (sc_declarations s)" by (metis nth_mem one_less_numeral_iff s(5,6) semiring_norm(76))
  moreover have "names_ok s \<and> declared_in_order {} (sc_declarations s)"
    using compiled_header_iff [of False s] s(4) by blast
  ultimately show thesis using that s by blast
qed


end
